(* ===== verification/Prelude.thy ===== *)
theory Prelude
  imports Main "HOL-Library.Word" "HOL-Library.Monad_Syntax"
begin

text \<open>
  Shared vocabulary of the development: bytes and C memory blocks as byte lists, the
  library routines of C that the sources call on them (\<^verbatim>\<open>memcmp\<close>, \<^verbatim>\<open>memcpy\<close>, \<^verbatim>\<open>memmem\<close>),
  the value streams that stand for what the operating system and the C library answer,
  big-endian values of byte strings, and the generic lemmas the component theories share.
\<close>

unbundle bit_operations_syntax

named_theorems id_simps \<open>facts that turn identifier operations into arithmetic\<close>
named_theorems state_simps \<open>frame facts: which part of the state an operation leaves alone\<close>

type_synonym byte = "8 word"
type_synonym mem = "byte list"

subsection \<open>Memory blocks\<close>

text \<open>A read outside a block yields 0; every theorem that depends on a read bounds it.\<close>

definition rd :: "mem \<Rightarrow> nat \<Rightarrow> byte" where
  "rd m i = (if i < length m then m ! i else 0)"

definition slice :: "nat \<Rightarrow> nat \<Rightarrow> 'a list \<Rightarrow> 'a list" where
  "slice off n m = take n (drop off m)"

definition memcpy :: "mem \<Rightarrow> nat \<Rightarrow> mem \<Rightarrow> nat \<Rightarrow> mem" where
  "memcpy dst off src n = take off dst @ take n src @ drop (off + n) dst"

text \<open>\<^verbatim>\<open>memcmp\<close> compares unsigned bytes; only the sign of its result is specified.\<close>

fun bytes_cmp :: "mem \<Rightarrow> mem \<Rightarrow> int" where
  "bytes_cmp [] ys = 0"
| "bytes_cmp (x # xs) [] = 0"
| "bytes_cmp (x # xs) (y # ys) =
     (if x = y then bytes_cmp xs ys else if x < y then - 1 else 1)"

definition memcmp :: "mem \<Rightarrow> mem \<Rightarrow> nat \<Rightarrow> int" where
  "memcmp a b n = bytes_cmp (take n a) (take n b)"

lemma rd_nth [simp]: "i < length m \<Longrightarrow> rd m i = m ! i"
  by (simp add: rd_def)

lemma rd_beyond [simp]: "length m \<le> i \<Longrightarrow> rd m i = 0"
  by (simp add: rd_def)

lemma length_slice [simp]: "length (slice off n m) = min n (length m - off)"
  by (simp add: slice_def)

lemma length_memcpy [simp]:
  "off + n \<le> length dst \<Longrightarrow> n \<le> length src \<Longrightarrow> length (memcpy dst off src n) = length dst"
  by (simp add: memcpy_def)

lemma bytes_cmp_refl [simp]: "bytes_cmp xs xs = 0"
  by (induction xs) auto

lemma bytes_cmp_eq_0: "length xs = length ys \<Longrightarrow> bytes_cmp xs ys = 0 \<longleftrightarrow> xs = ys"
  by (induction xs ys rule: bytes_cmp.induct) auto

lemma bytes_cmp_range: "bytes_cmp xs ys \<in> {- 1, 0, 1}"
  by (induction xs ys rule: bytes_cmp.induct) auto

subsection \<open>Big-endian values\<close>

definition be_val :: "mem \<Rightarrow> nat" where
  "be_val m = foldl (\<lambda>a b. a * 256 + unat b) 0 m"

lemma be_val_Nil [simp]: "be_val [] = 0"
  by (simp add: be_val_def)

lemma be_val_snoc [simp]: "be_val (m @ [b]) = be_val m * 256 + unat b"
  by (simp add: be_val_def)

lemma unat_byte_less: "unat (b :: byte) < 256"
  using unsigned_less [of b, where ?'a = nat] by simp

lemma unat_byte_le: "unat (b :: byte) \<le> 255"
  using unat_byte_less [of b] by simp

lemma be_val_less: "be_val m < 256 ^ length m"
proof (induction m rule: rev_induct)
  case (snoc b m)
  have "be_val m * 256 + unat b < (be_val m + 1) * 256"
    using unat_byte_less [of b] by simp
  also have "\<dots> \<le> 256 ^ length m * 256"
    using snoc.IH by (intro mult_right_mono) auto
  finally show ?case by simp
qed simp

lemma be_val_append: "be_val (m @ m') = be_val m * 256 ^ length m' + be_val m'"
  by (induction m' rule: rev_induct) (simp_all add: algebra_simps flip: append_assoc)

lemma be_val_Cons: "be_val (b # m) = unat b * 256 ^ length m + be_val m"
  using be_val_append [of "[b]" m] be_val_snoc [of "[]" b] by simp

lemma be_val_Cons_less:
  assumes "length m = length m'" "b < c"
  shows "be_val (b # m) < be_val (c # m')"
proof -
  have "unat b + 1 \<le> unat c" using assms(2) by (simp add: word_less_nat_alt)
  then have "(unat b + 1) * 256 ^ length m \<le> unat c * 256 ^ length m"
    by (rule mult_right_mono) simp
  moreover have "be_val m < 256 ^ length m" by (rule be_val_less)
  ultimately show ?thesis using assms(1) by (simp add: be_val_Cons)
qed

lemma bytes_cmp_be_val:
  "length xs = length ys \<Longrightarrow>
     bytes_cmp xs ys =
       (if be_val xs < be_val ys then - 1 else if be_val xs = be_val ys then 0 else 1)"
proof (induction xs ys rule: bytes_cmp.induct)
  case (3 x xs y ys)
  consider "x = y" | "x < y" | "y < x" by (metis neqE)
  then show ?case
  proof cases
    case 1
    then show ?thesis using 3 by (simp add: be_val_Cons)
  next
    case 2
    then show ?thesis using be_val_Cons_less [of xs ys x y] 3 by auto
  next
    case 3
    then show ?thesis using be_val_Cons_less [of ys xs y x] "3.prems" by auto
  qed
qed auto

lemma be_val_inject:
  "length xs = length ys \<Longrightarrow> be_val xs = be_val ys \<longleftrightarrow> xs = ys"
  using bytes_cmp_be_val [of xs ys] bytes_cmp_eq_0 [of xs ys] by (auto split: if_splits)

text \<open>The bits of a big-endian value are the bits of its bytes.\<close>

lemma bit_snoc_byte:
  "bit (a * 256 + unat (b :: byte)) n = (if n < 8 then bit b n else bit a (n - 8))"
proof -
  have "a * 256 + unat b = push_bit 8 a OR unat b"
  proof -
    have "push_bit 8 a + unat b = push_bit 8 a OR unat b"
      by (rule disjunctive_add_eq_or)
        (auto simp: bit_eq_iff bit_simps not_less dest: bit_imp_le_length)
    then show ?thesis by (simp add: push_bit_eq_mult)
  qed
  then show ?thesis by (auto simp: bit_simps not_less dest: bit_imp_le_length)
qed

lemma bit_be_val:
  "k < 8 * length m \<Longrightarrow>
     bit (be_val m) (8 * length m - 1 - k) = bit (m ! (k div 8)) (7 - k mod 8)"
proof (induction m arbitrary: k rule: rev_induct)
  case (snoc b m)
  show ?case
  proof (cases "k < 8 * length m")
    case True
    then have "k div 8 < length m" by auto
    define n where "n = 8 * length m - 1 - k"
    have n: "8 * length (m @ [b]) - 1 - k = n + 8" using True by (simp add: n_def)
    show ?thesis using snoc.IH [OF True, folded n_def] \<open>k div 8 < length m\<close>
      unfolding n be_val_snoc bit_snoc_byte by (simp add: nth_append)
  next
    case False
    then have d: "k div 8 = length m" using snoc.prems by (intro div_nat_eqI) auto
    moreover have "k mod 8 = k - 8 * length m" using d minus_mult_div_eq_mod [of k 8] by simp
    moreover from this have "8 * length (m @ [b]) - 1 - k = 7 - k mod 8" "7 - k mod 8 < 8"
      using False by auto
    ultimately show ?thesis
      unfolding be_val_snoc bit_snoc_byte by (simp add: nth_append)
  qed
qed simp

lemma byte_xor_eq_0: "(a :: byte) XOR b = 0 \<longleftrightarrow> a = b"
  by (auto simp: bit_eq_iff bit_simps)

lemma pow2_dvd_iff_bits: "2 ^ n dvd (a :: nat) \<longleftrightarrow> (\<forall>i < n. \<not> bit a i)"
  by (auto simp flip: take_bit_eq_0_iff simp: bit_eq_iff bit_simps)

subsection \<open>Value streams\<close>

text \<open>
  What the environment answers to successive calls (\<^verbatim>\<open>random\<close>, \<^verbatim>\<open>calloc\<close>, \<^verbatim>\<open>sendto\<close>) is a
  stream: a function from call numbers to answers, of which a call takes the head.
\<close>

type_synonym 'a answers = "nat \<Rightarrow> 'a"

definition later :: "'a answers \<Rightarrow> 'a answers" where
  "later f = (\<lambda>i. f (Suc i))"

subsection \<open>C integers\<close>

text \<open>Conversion of a wider signed value to \<^verbatim>\<open>int\<close> (32 bits, two's complement).\<close>

definition c_int :: "int \<Rightarrow> int" where
  "c_int x = (x + 2 ^ 31) mod 2 ^ 32 - 2 ^ 31"

lemma c_int_id: "- (2 ^ 31) \<le> x \<Longrightarrow> x < 2 ^ 31 \<Longrightarrow> c_int x = x"
  by (simp add: c_int_def)

lemma c_int_range: "- (2 ^ 31) \<le> c_int x \<and> c_int x < 2 ^ 31"
proof -
  have "0 \<le> (x + 2 ^ 31) mod 2 ^ 32" "(x + 2 ^ 31) mod 2 ^ 32 < 2 ^ 32"
    by (rule pos_mod_sign pos_mod_bound, simp)+
  then show ?thesis by (simp add: c_int_def)
qed

subsection \<open>Lists\<close>

definition update_at :: "nat \<Rightarrow> ('a \<Rightarrow> 'a) \<Rightarrow> 'a list \<Rightarrow> 'a list" where
  "update_at i f xs = (if i < length xs then xs[i := f (xs ! i)] else xs)"

lemma length_update_at [simp]: "length (update_at i f xs) = length xs"
  by (simp add: update_at_def)

lemma nth_update_at:
  "j < length xs \<Longrightarrow> update_at i f xs ! j = (if i = j then f (xs ! j) else xs ! j)"
  by (simp add: update_at_def)

lemma map_update_at:
  "(\<And>x. g (f x) = g x) \<Longrightarrow> map g (update_at i f xs) = map g xs"
  by (rule nth_equalityI) (auto simp: nth_update_at)

lemma ball_update_at:
  assumes "\<forall>x \<in> set xs. P x" "\<And>x. P x \<Longrightarrow> P (f x)" "y \<in> set (update_at i f xs)"
  shows "P y"
proof -
  obtain k where k: "k < length xs" "y = update_at i f xs ! k"
    using assms(3) by (auto simp: in_set_conv_nth)
  then have "P (xs ! k)" using assms(1) by simp
  with k assms(2) show ?thesis by (simp add: nth_update_at)
qed

text \<open>The index of the first element that satisfies a predicate: the C list scans.\<close>

fun find_index :: "('a \<Rightarrow> bool) \<Rightarrow> 'a list \<Rightarrow> nat option" where
  "find_index P [] = None"
| "find_index P (x # xs) = (if P x then Some 0 else map_option Suc (find_index P xs))"

lemma find_index_None: "find_index P xs = None \<longleftrightarrow> (\<forall>x \<in> set xs. \<not> P x)"
  by (induction xs) auto

lemma find_index_SomeD:
  "find_index P xs = Some i \<Longrightarrow> i < length xs \<and> P (xs ! i) \<and> (\<forall>j < i. \<not> P (xs ! j))"
proof (induction xs arbitrary: i)
  case (Cons x xs)
  show ?case
  proof (cases "P x")
    case True
    then show ?thesis using Cons.prems by simp
  next
    case False
    then obtain k where k: "find_index P xs = Some k" "i = Suc k" using Cons.prems by auto
    from Cons.IH [OF k(1)] False k(2) show ?thesis by (auto simp: less_Suc_eq_0_disj)
  qed
qed simp

lemma find_index_Some_less: "find_index P xs = Some i \<Longrightarrow> i < length xs"
  using find_index_SomeD by blast


lemma find_index_SomeI:
  "i < length xs \<Longrightarrow> P (xs ! i) \<Longrightarrow> (\<And>j. j < i \<Longrightarrow> \<not> P (xs ! j)) \<Longrightarrow> find_index P xs = Some i"
proof (induction xs arbitrary: i)
  case (Cons x xs)
  show ?case
  proof (cases i)
    case 0
    then show ?thesis using Cons.prems by simp
  next
    case (Suc k)
    have "find_index P xs = Some k"
      using Cons.prems Suc by (intro Cons.IH) fastforce+
    moreover have "\<not> P x" using Cons.prems(3) [of 0] Suc by simp
    ultimately show ?thesis using Suc by simp
  qed
qed simp

lemma find_index_update:
  "find_index P xs = Some i \<Longrightarrow> P y \<Longrightarrow> find_index P (xs[i := y]) = Some i"
  using find_index_SomeD [of P xs i] by (intro find_index_SomeI) auto

lemma find_index_snoc:
  "find_index P xs = None \<Longrightarrow> P y \<Longrightarrow> find_index P (xs @ [y]) = Some (length xs)"
  by (intro find_index_SomeI) (auto simp: find_index_None nth_append)

lemma find_index_append: "find_index P xs = Some j \<Longrightarrow> find_index P (xs @ ys) = Some j"
  by (induction xs arbitrary: j) (auto split: if_splits)

lemma find_index_update_same:
  "k < length xs \<Longrightarrow> P y = P (xs ! k) \<Longrightarrow> find_index P (xs[k := y]) = find_index P xs"
proof (induction xs arbitrary: k)
  case (Cons x xs)
  then show ?case by (cases k) auto
qed simp

end
