(* ===== verification/Ids.thy ===== *)
theory Ids
  imports Prelude
begin

text \<open>
  Node identifiers and socket addresses of \<^verbatim>\<open>dht.c\<close>: the byte-level routines
  \<^verbatim>\<open>id_cmp\<close>, \<^verbatim>\<open>lowbit\<close>, \<^verbatim>\<open>common_bits\<close>, \<^verbatim>\<open>xorcmp\<close>, \<^verbatim>\<open>is_martian\<close>, \<^verbatim>\<open>make_tid\<close>, \<^verbatim>\<open>tid_match\<close>, and
  their meaning on 160-bit numbers. An identifier is a block of 20 bytes, read as a
  big-endian number; bits are numbered from the most significant one, as the source does.
\<close>

subsection \<open>Socket addresses\<close>

text \<open>
  A \<^verbatim>\<open>struct sockaddr_storage\<close> is the block of 128 bytes of the Linux ABI: the family in
  host order (little endian) in bytes 0 and 1, the port in network order in bytes 2 and 3,
  the IPv4 address in bytes 4 to 7, the IPv6 address in bytes 8 to 23.
\<close>

definition AF_INET :: nat where "AF_INET = 2"
definition AF_INET6 :: nat where "AF_INET6 = 10"
definition sizeof_ss :: nat where "sizeof_ss = 128"
definition sizeof_sin :: nat where "sizeof_sin = 16"
definition sizeof_sin6 :: nat where "sizeof_sin6 = 28"

definition sa_family :: "mem \<Rightarrow> nat" where
  "sa_family sa = unat (rd sa 0) + 256 * unat (rd sa 1)"

definition set_family :: "nat \<Rightarrow> mem \<Rightarrow> mem" where
  "set_family f sa = memcpy sa 0 [word_of_nat f, word_of_nat (f div 256)] 2"

definition sin_port :: "mem \<Rightarrow> mem" where "sin_port sa = slice 2 2 sa"
definition sin_addr :: "mem \<Rightarrow> mem" where "sin_addr sa = slice 4 4 sa"
definition sin6_addr :: "mem \<Rightarrow> mem" where "sin6_addr sa = slice 8 16 sa"

definition zero_ss :: mem where "zero_ss = replicate 128 0"

text \<open>The two address structures the source fills in itself after a \<^verbatim>\<open>memset\<close>.\<close>

definition mk_sin :: "mem \<Rightarrow> mem \<Rightarrow> mem" where
  "mk_sin addr port = [2, 0] @ port @ addr @ replicate 8 0"

definition mk_sin6 :: "mem \<Rightarrow> mem \<Rightarrow> mem" where
  "mk_sin6 addr port = [10, 0] @ port @ replicate 4 0 @ addr @ replicate 4 0"

definition zeroes :: mem where "zeroes = replicate 20 0"
definition v4prefix :: mem where
  "v4prefix = [0, 0, 0, 0, 0, 0, 0, 0, 0, 0, 0xFF, 0xFF, 0, 0, 0, 0]"

definition is_martian :: "mem \<Rightarrow> bool" where
  "is_martian sa =
     (if sa_family sa = AF_INET then
        (let address = sin_addr sa in
          (rd sa 2 = 0 \<and> rd sa 3 = 0) \<or> rd address 0 = 0 \<or> rd address 0 = 127 \<or>
          rd address 0 AND 0xE0 = 0xE0)
      else if sa_family sa = AF_INET6 then
        (let address = sin6_addr sa in
          (rd sa 2 = 0 \<and> rd sa 3 = 0) \<or> rd address 0 = 0xFF \<or>
          (rd address 0 = 0xFE \<and> rd address 1 AND 0xC0 = 0x80) \<or>
          (memcmp address zeroes 15 = 0 \<and> (rd address 15 = 0 \<or> rd address 15 = 1)) \<or>
          memcmp address v4prefix 12 = 0)
      else False)"

subsection \<open>Identifiers\<close>

definition valid_id :: "mem \<Rightarrow> bool" where
  "valid_id x \<longleftrightarrow> length x = 20"

definition id_cmp :: "mem \<Rightarrow> mem \<Rightarrow> int" where
  "id_cmp id1 id2 = memcmp id1 id2 20"

text \<open>The first loop of \<^verbatim>\<open>lowbit\<close> runs \<^verbatim>\<open>i\<close> down from 19, the second \<^verbatim>\<open>j\<close> down from 7.\<close>

fun lowbit_i :: "mem \<Rightarrow> nat \<Rightarrow> nat option" where
  "lowbit_i x 0 = None"
| "lowbit_i x (Suc i) = (if rd x i \<noteq> 0 then Some i else lowbit_i x i)"

fun lowbit_j :: "byte \<Rightarrow> nat \<Rightarrow> int" where
  "lowbit_j b 0 = - 1"
| "lowbit_j b (Suc j) = (if b AND drop_bit j 0x80 \<noteq> 0 then int j else lowbit_j b j)"

definition lowbit :: "mem \<Rightarrow> int" where
  "lowbit x = (case lowbit_i x 20 of None \<Rightarrow> - 1
                | Some i \<Rightarrow> 8 * int i + lowbit_j (rd x i) 8)"

text \<open>
  \<^verbatim>\<open>common_bits\<close>: the shift loop ends when the top bit is set; its fuel is the width of a
  byte, and running out of it would be the loop that never ends.
\<close>

fun common_i :: "mem \<Rightarrow> mem \<Rightarrow> nat \<Rightarrow> nat" where
  "common_i (x # xs) (y # ys) i = (if x \<noteq> y then i else common_i xs ys (Suc i))"
| "common_i _ _ i = i"

fun common_j :: "nat \<Rightarrow> byte \<Rightarrow> nat \<Rightarrow> nat option" where
  "common_j 0 b j = None"
| "common_j (Suc fuel) b j =
     (if b AND 0x80 = 0 then common_j fuel (push_bit 1 b) (Suc j) else Some j)"

definition common_bits :: "mem \<Rightarrow> mem \<Rightarrow> nat option" where
  "common_bits id1 id2 =
     (let i = common_i (take 20 id1) (take 20 id2) 0 in
      if i = 20 then Some 160
      else map_option (\<lambda>j. 8 * i + j) (common_j 8 (rd id1 i XOR rd id2 i) 0))"

fun xorcmp_loop :: "mem \<Rightarrow> mem \<Rightarrow> mem \<Rightarrow> int" where
  "xorcmp_loop (a # as) (b # bs) (r # rs) =
     (if a = b then xorcmp_loop as bs rs
      else if a XOR r < b XOR r then - 1 else 1)"
| "xorcmp_loop _ _ _ = 0"

definition xorcmp :: "mem \<Rightarrow> mem \<Rightarrow> mem \<Rightarrow> int" where
  "xorcmp id1 id2 ref = xorcmp_loop (take 20 id1) (take 20 id2) (take 20 ref)"

subsection \<open>Transaction identifiers\<close>

text \<open>Four bytes: the two bytes of the prefix, then the sequence number in host order.\<close>

definition make_tid :: "mem \<Rightarrow> 16 word \<Rightarrow> mem" where
  "make_tid prefix seqno = [rd prefix 0, rd prefix 1, ucast seqno, ucast (drop_bit 8 seqno)]"

definition tid_match :: "mem \<Rightarrow> mem \<Rightarrow> 16 word option" where
  "tid_match tid prefix =
     (if rd tid 0 = rd prefix 0 \<and> rd tid 1 = rd prefix 1
      then Some (ucast (rd tid 2) OR push_bit 8 (ucast (rd tid 3))) else None)"

definition ascii :: "string \<Rightarrow> mem" where
  "ascii s = map of_char s"

subsection \<open>Comparison is comparison of 160-bit numbers\<close>

lemma id_cmp_be_val [id_simps]:
  assumes "valid_id x" "valid_id y"
  shows "id_cmp x y < 0 \<longleftrightarrow> be_val x < be_val y"
    and "id_cmp x y \<le> 0 \<longleftrightarrow> be_val x \<le> be_val y"
  using assms bytes_cmp_be_val [of x y]
  by (auto simp: id_cmp_def memcmp_def valid_id_def split: if_splits)

lemma id_cmp_eq [id_simps]:
  "valid_id x \<Longrightarrow> valid_id y \<Longrightarrow> id_cmp x y = 0 \<longleftrightarrow> x = y"
  by (simp add: id_cmp_def memcmp_def valid_id_def bytes_cmp_eq_0)

lemma id_cmp_refl [simp]: "id_cmp x x = 0"
  by (simp add: id_cmp_def memcmp_def)

lemma be_val_id_less: "valid_id x \<Longrightarrow> be_val x < 2 ^ 160"
  using be_val_less [of x] by (simp add: valid_id_def)

lemma valid_zeroes [simp]: "valid_id zeroes"
  by (simp add: valid_id_def zeroes_def)

lemma be_val_replicate_0 [simp]: "be_val (replicate n 0) = 0"
  by (induction n) (simp_all add: be_val_Cons)

subsection \<open>Bits of an identifier\<close>

definition id_bit :: "mem \<Rightarrow> nat \<Rightarrow> bool" where
  "id_bit x k \<longleftrightarrow> bit (rd x (k div 8)) (7 - k mod 8)"

lemma id_bit_be_val: "valid_id x \<Longrightarrow> k < 160 \<Longrightarrow> id_bit x k = bit (be_val x) (159 - k)"
  using bit_be_val [of k x] by (simp add: id_bit_def valid_id_def rd_def less_mult_imp_div_less)

lemma byte_mask: "(b :: byte) AND drop_bit j 0x80 \<noteq> 0 \<longleftrightarrow> bit b (7 - j) \<and> j < 8"
proof -
  have m: "drop_bit j (0x80 :: byte) = (if j < 8 then 2 ^ (7 - j) else 0)"
  proof (cases "j < 8")
    case True
    then have "j \<in> {0, 1, 2, 3, 4, 5, 6, 7}" by auto
    then show ?thesis by auto
  next
    case False
    then show ?thesis by (auto intro!: bit_eqI simp: bit_simps dest: bit_imp_le_length)
  qed
  then show ?thesis by (simp add: and_exp_eq_0_iff_not_bit)
qed


subsection \<open>The lowest bit\<close>

lemma lowbit_i_cases:
  "(case lowbit_i x n of None \<Rightarrow> \<forall>k < n. rd x k = 0
    | Some i \<Rightarrow> i < n \<and> rd x i \<noteq> 0 \<and> (\<forall>k. i < k \<and> k < n \<longrightarrow> rd x k = 0))"
  by (induction n) (auto simp: less_Suc_eq split: option.splits)

lemma lowbit_j_cases:
  "n \<le> 8 \<Longrightarrow>
     (lowbit_j b n = - 1 \<and> (\<forall>m < n. \<not> bit b (7 - m))) \<or>
     (\<exists>k < n. lowbit_j b n = int k \<and> bit b (7 - k) \<and> (\<forall>m. k < m \<and> m < n \<longrightarrow> \<not> bit b (7 - m)))"
proof (induction n)
  case (Suc n)
  show ?case
  proof (cases "bit b (7 - n)")
    case True
    then show ?thesis using Suc.prems byte_mask [of b n] by auto
  next
    case False
    then show ?thesis using Suc byte_mask [of b n] by (auto simp: less_Suc_eq)
  qed
qed simp

lemma byte_nonzero_bit: "(b :: byte) \<noteq> 0 \<Longrightarrow> \<exists>m < 8. bit b (7 - m)"
proof (rule ccontr)
  assume nz: "b \<noteq> 0" and no: "\<not> (\<exists>m < 8. bit b (7 - m))"
  have "\<not> bit b i" for i
  proof
    assume i: "bit b i"
    then have "i < 8" by (auto dest: bit_imp_le_length)
    then have "7 - i < 8" "7 - (7 - i) = i" by auto
    with no i show False by metis
  qed
  then have "b = 0" by (simp add: bit_eq_iff)
  with nz show False by simp
qed

lemma lowbit_cases:
  obtains (zero) "lowbit x = - 1" "\<And>k. k < 160 \<Longrightarrow> \<not> id_bit x k"
  | (bit) k where "lowbit x = int k" "k < 160" "id_bit x k"
      "\<And>m. k < m \<Longrightarrow> m < 160 \<Longrightarrow> \<not> id_bit x m"
proof (cases "lowbit_i x 20")
  case None
  then have "\<And>k. k < 20 \<Longrightarrow> rd x k = 0" using lowbit_i_cases [where x = x and n = 20] by simp
  then show ?thesis
    using None by (intro zero) (auto simp: lowbit_def id_bit_def less_mult_imp_div_less)
next
  case (Some i)
  then have i: "i < 20" "rd x i \<noteq> 0" "\<And>k. i < k \<Longrightarrow> k < 20 \<Longrightarrow> rd x k = 0"
    using lowbit_i_cases [where x = x and n = 20] by auto
  obtain j where j: "j < 8" "lowbit_j (rd x i) 8 = int j" "bit (rd x i) (7 - j)"
    "\<And>m. j < m \<Longrightarrow> m < 8 \<Longrightarrow> \<not> bit (rd x i) (7 - m)"
    using lowbit_j_cases [of 8 "rd x i"] byte_nonzero_bit [OF i(2)] by auto
  show ?thesis
  proof (rule bit)
    show "lowbit x = int (8 * i + j)" using Some j(2) by (simp add: lowbit_def)
    show "8 * i + j < 160" using i(1) j(1) by simp
    show "id_bit x (8 * i + j)" using j(1,3) by (simp add: id_bit_def)
    fix m assume m: "8 * i + j < m" "m < 160"
    show "\<not> id_bit x m"
    proof (cases "m div 8 = i")
      case True
      moreover have "j < m mod 8"
        using m(1) True mult_div_mod_eq [of 8 m] by linarith
      ultimately show ?thesis using j(4) by (simp add: id_bit_def)
    next
      case False
      then have "i < m div 8" using m(1) by auto
      then show ?thesis using i(3) m(2) by (simp add: id_bit_def less_mult_imp_div_less)
    qed
  qed
qed

lemma lowbit_range: "- 1 \<le> lowbit x" "lowbit x < 160"
  by (cases rule: lowbit_cases [of x]; simp)+

text \<open>
  \<^verbatim>\<open>lowbit\<close> measures divisibility: all bits from position \<open>d\<close> on are zero exactly when the
  identifier is a multiple of \<open>2\<^sup>1\<^sup>6\<^sup>0\<^sup>-\<^sup>d\<close>.
\<close>

lemma id_bits_dvd:
  assumes "valid_id x" "d \<le> 160"
  shows "(\<forall>k. d \<le> k \<and> k < 160 \<longrightarrow> \<not> id_bit x k) \<longleftrightarrow> 2 ^ (160 - d) dvd be_val x"
proof -
  have "(\<forall>k. d \<le> k \<and> k < 160 \<longrightarrow> \<not> id_bit x k) \<longleftrightarrow>
        (\<forall>k. d \<le> k \<and> k < 160 \<longrightarrow> \<not> bit (be_val x) (159 - k))"
    using id_bit_be_val [OF assms(1)] by auto
  also have "\<dots> \<longleftrightarrow> (\<forall>i < 160 - d. \<not> bit (be_val x) i)"
  proof (intro iffI allI impI)
    fix i assume h: "\<forall>k. d \<le> k \<and> k < 160 \<longrightarrow> \<not> bit (be_val x) (159 - k)" and i: "i < 160 - d"
    from i have "d \<le> 159 - i" "159 - i < 160" "159 - (159 - i) = i" by auto
    with h show "\<not> bit (be_val x) i" by metis
  qed auto
  also have "\<dots> \<longleftrightarrow> 2 ^ (160 - d) dvd be_val x" by (simp add: pow2_dvd_iff_bits)
  finally show ?thesis .
qed

lemma lowbit_less_iff_dvd [id_simps]:
  assumes "valid_id x" "d \<le> 160"
  shows "lowbit x < int d \<longleftrightarrow> 2 ^ (160 - d) dvd be_val x"
proof -
  have "lowbit x < int d \<longleftrightarrow> (\<forall>k. d \<le> k \<and> k < 160 \<longrightarrow> \<not> id_bit x k)"
  proof (cases rule: lowbit_cases [of x])
    case (bit k)
    then show ?thesis by (auto simp: not_less)
  qed auto
  then show ?thesis using id_bits_dvd [OF assms] by simp
qed


subsection \<open>The XOR metric\<close>

definition xor_dist :: "mem \<Rightarrow> mem \<Rightarrow> nat" where
  "xor_dist x ref = be_val x XOR be_val ref"

lemma be_val_xor:
  "length xs = length ys \<Longrightarrow> be_val (map2 (XOR) xs ys) = be_val xs XOR be_val ys"
proof (induction xs arbitrary: ys rule: rev_induct)
  case (snoc x xs)
  then obtain zs y where ys: "ys = zs @ [y]" "length zs = length xs"
    by (cases ys rule: rev_cases) auto
  have "(a * 256 + unat x) XOR (b * 256 + unat y) = (a XOR b) * 256 + unat (x XOR y)" for a b
    by (rule bit_eqI) (simp add: bit_snoc_byte bit_xor_iff)
  with ys snoc.IH [of zs] show ?case by simp
qed simp

lemma xorcmp_loop_bytes:
  "length as = length rs \<Longrightarrow> length bs = length rs \<Longrightarrow>
     xorcmp_loop as bs rs = bytes_cmp (map2 (XOR) as rs) (map2 (XOR) bs rs)"
proof (induction as bs rs rule: xorcmp_loop.induct)
  case (1 a as b bs r rs)
  have "a XOR r = b XOR r \<longleftrightarrow> a = b" by (metis bit.xor_left_self xor.commute)
  with 1 show ?case by simp
qed auto

lemma xorcmp_dist [id_simps]:
  assumes "valid_id x" "valid_id y" "valid_id ref"
  shows "xorcmp x y ref =
    (if xor_dist x ref < xor_dist y ref then - 1 else if x = y then 0 else 1)"
proof -
  have "be_val x XOR be_val ref = be_val y XOR be_val ref \<longleftrightarrow> x = y"
    using assms be_val_inject [of x y]
    by (metis valid_id_def xor.assoc xor.right_neutral xor_self_eq)
  then show ?thesis
    using assms
    by (simp add: xorcmp_def xorcmp_loop_bytes bytes_cmp_be_val be_val_xor xor_dist_def valid_id_def)
qed

lemma xor_dist_eq: "valid_id x \<Longrightarrow> valid_id y \<Longrightarrow> xor_dist x r = xor_dist y r \<longleftrightarrow> x = y"
  using be_val_inject [of x y]
  by (metis valid_id_def xor.assoc xor.right_neutral xor_dist_def xor_self_eq)

subsection \<open>Common prefixes\<close>

lemma common_i_cases:
  "length xs = length ys \<Longrightarrow>
     i \<le> common_i xs ys i \<and> common_i xs ys i \<le> i + length xs \<and>
     (\<forall>k < common_i xs ys i - i. xs ! k = ys ! k) \<and>
     (common_i xs ys i < i + length xs \<longrightarrow>
        xs ! (common_i xs ys i - i) \<noteq> ys ! (common_i xs ys i - i))"
proof (induction xs ys i rule: common_i.induct)
  case (1 x xs y ys i)
  show ?case
  proof (cases "x = y")
    case True
    define c where "c = common_i xs ys (Suc i)"
    have ih: "Suc i \<le> c" "c \<le> Suc i + length xs" "\<forall>k < c - Suc i. xs ! k = ys ! k"
      "c < Suc i + length xs \<longrightarrow> xs ! (c - Suc i) \<noteq> ys ! (c - Suc i)"
      using 1 True unfolding c_def by auto
    have "(x # xs) ! k = (y # ys) ! k" if "k < c - i" for k
      using that ih(3) True by (cases k) auto
    moreover have "c - i = Suc (c - Suc i)" using ih(1) by simp
    ultimately show ?thesis using ih True by (simp add: c_def [symmetric])
  qed simp
qed auto

lemma common_j_cases:
  "\<exists>m < fuel. bit b (7 - m) \<Longrightarrow> fuel \<le> 8 \<Longrightarrow>
     \<exists>m < fuel. common_j fuel b j = Some (j + m) \<and> bit b (7 - m) \<and> (\<forall>k < m. \<not> bit b (7 - k))"
proof (induction fuel arbitrary: b j)
  case (Suc fuel)
  have top: "b AND 0x80 = 0 \<longleftrightarrow> \<not> bit b 7" using byte_mask [of b 0] by auto
  show ?case
  proof (cases "bit b 7")
    case True
    then show ?thesis using top by (intro exI [of _ 0]) auto
  next
    case False
    have sh: "bit (push_bit 1 b) (7 - k) = bit b (7 - Suc k)" if "k < fuel" for k
      using that Suc.prems(2) by (subst bit_push_bit_iff) auto
    obtain m where m: "m < Suc fuel" "bit b (7 - m)" using Suc.prems by auto
    with False obtain m' where m': "m = Suc m'" by (cases m) auto
    with m sh have "\<exists>k < fuel. bit (push_bit 1 b) (7 - k)" by auto
    with Suc.IH [of "push_bit 1 b" "Suc j"] Suc.prems obtain n where
      n: "n < fuel" "common_j fuel (push_bit 1 b) (Suc j) = Some (Suc j + n)"
        "bit (push_bit 1 b) (7 - n)" "\<forall>k < n. \<not> bit (push_bit 1 b) (7 - k)"
      by auto
    have "\<not> bit b (7 - k)" if "k < Suc n" for k
      using that False n(1,4) sh by (cases k) auto
    with n sh False top show ?thesis by (intro exI [of _ "Suc n"]) auto
  qed
qed simp

lemma common_bits_prefix:
  assumes "valid_id x" "valid_id y"
  obtains n where "common_bits x y = Some n" "n \<le> 160" "\<And>k. k < n \<Longrightarrow> id_bit x k = id_bit y k"
    "n < 160 \<Longrightarrow> id_bit x n \<noteq> id_bit y n"
proof -
  define i where "i = common_i x y 0"
  have len: "length x = 20" "length y = 20" using assms by (auto simp: valid_id_def)
  have i: "i \<le> 20" "\<And>k. k < i \<Longrightarrow> x ! k = y ! k" "i < 20 \<Longrightarrow> x ! i \<noteq> y ! i"
    using common_i_cases [of x y 0] len by (auto simp: i_def)
  have cb: "common_bits x y = (if i = 20 then Some 160
    else map_option (\<lambda>j. 8 * i + j) (common_j 8 (rd x i XOR rd y i) 0))"
    by (simp add: common_bits_def Let_def i_def len)
  show ?thesis
  proof (cases "i = 20")
    case True
    then have "x = y" using i(2) len by (intro nth_equalityI) auto
    then show ?thesis using True cb by (intro that [of 160]) auto
  next
    case False
    with i(1) have i20: "i < 20" by simp
    with i(3) len have "rd x i XOR rd y i \<noteq> 0"
      by (simp add: byte_xor_eq_0)
    from common_j_cases [OF byte_nonzero_bit [OF this], of 0] obtain m where
      m: "m < 8" "common_j 8 (rd x i XOR rd y i) 0 = Some m" "bit (rd x i XOR rd y i) (7 - m)"
        "\<forall>k < m. \<not> bit (rd x i XOR rd y i) (7 - k)"
      by auto
    show ?thesis
    proof (rule that [of "8 * i + m"])
      show "common_bits x y = Some (8 * i + m)" using False m(2) cb by simp
      show "8 * i + m \<le> 160" using i20 m(1) by simp
      show "id_bit x (8 * i + m) \<noteq> id_bit y (8 * i + m)"
        using m(1,3) by (simp add: id_bit_def bit_xor_iff)
      fix k assume k: "k < 8 * i + m"
      show "id_bit x k = id_bit y k"
      proof (cases "k div 8 < i")
        case True
        with i(2) [of "k div 8"] i20 len show ?thesis by (simp add: id_bit_def)
      next
        case False
        with k m(1) have d: "k div 8 = i" by (intro div_nat_eqI) auto
        moreover have "k mod 8 < m" using d k minus_mult_div_eq_mod [of k 8] by linarith
        ultimately have "k div 8 = i" "k mod 8 < m" by simp_all
        with m(4) show ?thesis by (auto simp: id_bit_def bit_xor_iff)
      qed
    qed
  qed
qed

subsection \<open>Transaction identifiers\<close>

lemma ucast_le_bytes:
  "ucast (ucast w :: byte) OR push_bit 8 (ucast (ucast (drop_bit 8 w) :: byte)) = (w :: 16 word)"
  by (rule bit_eqI) (auto simp: bit_simps)

lemma tid_match_make_tid:
  "tid_match (make_tid p n) q =
     (if rd p 0 = rd q 0 \<and> rd p 1 = rd q 1 then Some n else None)"
  by (simp add: tid_match_def make_tid_def ucast_le_bytes)

lemma length_make_tid [simp]: "length (make_tid p n) = 4"
  by (simp add: make_tid_def)

subsection \<open>Properties\<close>

text \<open>
  C30: \<^verbatim>\<open>xorcmp\<close> orders identifiers by their XOR distance to the reference, read as 160-bit
  numbers, and answers 0 only for equal identifiers.
\<close>

theorem xorcmp_orders_by_distance:
  assumes "valid_id x" "valid_id y" "valid_id ref"
  shows "xorcmp x y ref =
    (if be_val x XOR be_val ref < be_val y XOR be_val ref then - 1 else if x = y then 0 else 1)"
  using xorcmp_dist [OF assms] by (simp add: xor_dist_def)

lemma xorcmp_orders_by_distance_witness:
  "xorcmp (replicate 20 3) (replicate 20 5) (replicate 20 4) =
     (if be_val (replicate 20 3) XOR be_val (replicate 20 4) < be_val (replicate 20 5) XOR be_val (replicate 20 4)
      then - 1 else if replicate 20 (3 :: byte) = replicate 20 5 then 0 else 1)"
  by (rule xorcmp_orders_by_distance) (simp_all add: valid_id_def)

text \<open>
  \<^verbatim>\<open>common_bits\<close> returns the length of the common prefix of two identifiers: its shift loop
  ends, the bits before that position agree, and the bit at it differs, unless it is 160.
\<close>

theorem common_bits_is_prefix_length:
  assumes "valid_id x" "valid_id y"
  shows "\<exists>n \<le> 160. common_bits x y = Some n \<and> (\<forall>k < n. id_bit x k = id_bit y k) \<and>
    (n < 160 \<longrightarrow> id_bit x n \<noteq> id_bit y n)"
  using assms by (rule common_bits_prefix) blast

lemma common_bits_is_prefix_length_witness:
  "\<exists>n \<le> 160. common_bits (replicate 20 3) (replicate 20 5) = Some n"
  using common_bits_is_prefix_length [of "replicate 20 3" "replicate 20 5"] by (auto simp: valid_id_def)

text \<open>
  Transaction identifiers round trip: \<^verbatim>\<open>tid_match\<close> accepts what \<^verbatim>\<open>make_tid\<close> made exactly for
  the same two prefix bytes, and returns the 16-bit sequence number unchanged.
\<close>

theorem tid_round_trip:
  "tid_match (make_tid p n) q = (if rd p 0 = rd q 0 \<and> rd p 1 = rd q 1 then Some n else None)"
  by (rule tid_match_make_tid)

end
