(* ===== verification/Interfaces.thy ===== *)
theory Interfaces
  imports Prelude
begin

text \<open>
  The contracts that several components share, as locales: a set that only grows
  (the Bloom filter, the address trie of the blacklist, the table of keys), a list
  kept in distance order with a bound on its length (the candidates of a search and the
  closest nodes of a reply), messages that are read as they were written (the query and the
  reply of the DTN extension), and a machine whose steps keep an invariant (the whole
  program between two calls of its interface).
\<close>

subsection \<open>Growing sets\<close>

text \<open>
  \<open>hits k q\<close> says that the addition of \<open>k\<close> is what the query \<open>q\<close> asks for; \<open>key\<close> and \<open>query\<close>
  are the arguments the operations are made for.
\<close>

locale membership =
  fixes add :: "'k \<Rightarrow> 's \<Rightarrow> 's"
    and member :: "'s \<Rightarrow> 'q \<Rightarrow> bool"
    and inv :: "'s \<Rightarrow> bool"
    and hits :: "'k \<Rightarrow> 'q \<Rightarrow> bool"
    and key :: "'k \<Rightarrow> bool"
    and query :: "'q \<Rightarrow> bool"
  assumes inv_add: "inv s \<Longrightarrow> key k \<Longrightarrow> inv (add k s)"
    and member_added: "inv s \<Longrightarrow> key k \<Longrightarrow> query q \<Longrightarrow> hits k q \<Longrightarrow> member (add k s) q"
    and member_kept: "inv s \<Longrightarrow> key k \<Longrightarrow> query q \<Longrightarrow> member s q \<Longrightarrow> member (add k s) q"
begin

lemma inv_fold_add: "inv s \<Longrightarrow> \<forall>k \<in> set ks. key k \<Longrightarrow> inv (fold add ks s)"
  by (induction ks arbitrary: s) (auto intro: inv_add)

lemma member_fold_kept:
  "inv s \<Longrightarrow> \<forall>k \<in> set ks. key k \<Longrightarrow> query q \<Longrightarrow> member s q \<Longrightarrow> member (fold add ks s) q"
  by (induction ks arbitrary: s) (auto intro: inv_add member_kept)

lemma member_fold_add:
  "inv s \<Longrightarrow> \<forall>k \<in> set ks. key k \<Longrightarrow> query q \<Longrightarrow> k \<in> set ks \<Longrightarrow> hits k q \<Longrightarrow> member (fold add ks s) q"
proof (induction ks arbitrary: s)
  case (Cons a ks)
  show ?case
  proof (cases "k = a")
    case True
    then have "member (add a s) q" using Cons.prems member_added by simp
    then show ?thesis using Cons.prems by (simp add: member_fold_kept inv_add)
  next
    case False
    then show ?thesis using Cons by (simp add: inv_add)
  qed
qed simp

end

text \<open>A growing set without false positives.\<close>

locale exact_membership = membership +
  assumes member_only: "inv s \<Longrightarrow> key k \<Longrightarrow> query q \<Longrightarrow> member (add k s) q \<Longrightarrow> hits k q \<or> member s q"
begin

lemma member_add_iff:
  "inv s \<Longrightarrow> key k \<Longrightarrow> query q \<Longrightarrow> member (add k s) q \<longleftrightarrow> hits k q \<or> member s q"
  using member_only member_added member_kept by blast

lemma member_fold_iff:
  "inv s \<Longrightarrow> \<forall>k \<in> set ks. key k \<Longrightarrow> query q \<Longrightarrow>
     member (fold add ks s) q \<longleftrightarrow> (\<exists>k \<in> set ks. hits k q) \<or> member s q"
  by (induction ks arbitrary: s) (auto simp: member_add_iff inv_add)

end

subsection \<open>Bounded insertion in distance order\<close>

text \<open>
  \<open>ins\<close> offers a key to a list that is strictly ordered by \<open>dist\<close>: what is already there
  stays, what is new is put in its place, and the farthest element goes when the list is full.
\<close>

lemma insort_last: "\<forall>x \<in> set xs. x \<le> d \<Longrightarrow> insort d xs = (xs :: nat list) @ [d] \<or> d \<in> set xs"
  by (induction xs) auto

lemma take_insort_take:
  "sorted (L :: nat list) \<Longrightarrow> take n (insort d (take n L)) = take n (insort d L)"
proof (induction L arbitrary: n)
  case (Cons x L)
  then show ?case by (cases n) (auto simp: take_Cons')
qed simp

lemma in_set_take_sorted:
  assumes "sorted_wrt (<) (L :: nat list)" "d \<in> set L" "d \<notin> set (take n L)"
  shows "n \<le> length L" "\<forall>x \<in> set (take n L). x < d"
proof -
  have L: "L = take n L @ drop n L" by simp
  have d: "d \<in> set (drop n L)" using assms(2,3) L by (metis Un_iff set_append)
  then show "n \<le> length L" by (cases "n \<le> length L") auto
  have "sorted_wrt (<) (take n L @ drop n L)" using assms(1) by simp
  then show "\<forall>x \<in> set (take n L). x < d" using d unfolding sorted_wrt_append by blast
qed

lemma take_insort_absent:
  assumes "sorted_wrt (<) (L :: nat list)" "d \<in> set L" "d \<notin> set (take n L)"
  shows "take n (insort d (take n L)) = take n L"
proof -
  note t = in_set_take_sorted [OF assms]
  have "insort d (take n L) = take n L @ [d]"
    using t(2) insort_last [of "take n L" d] assms(3) less_imp_le by blast
  then show ?thesis using t(1) by simp
qed

locale bounded_insertion =
  fixes ins :: "'k \<Rightarrow> 'a list \<Rightarrow> 'a list"
    and kdist :: "'k \<Rightarrow> nat"
    and dist :: "'a \<Rightarrow> nat"
    and bound :: nat
    and kvalid :: "'k \<Rightarrow> bool"
    and valid :: "'a \<Rightarrow> bool"
  assumes ins_dists: "kvalid k \<Longrightarrow> \<forall>y \<in> set xs. valid y \<Longrightarrow> sorted_wrt (<) (map dist xs) \<Longrightarrow>
      length xs \<le> bound \<Longrightarrow> map dist (ins k xs) =
        (if kdist k \<in> set (map dist xs) then map dist xs
         else take bound (insort (kdist k) (map dist xs)))"
    and ins_valid: "kvalid k \<Longrightarrow> \<forall>y \<in> set xs. valid y \<Longrightarrow> \<forall>y \<in> set (ins k xs). valid y"
begin

definition ordered :: "'a list \<Rightarrow> bool" where
  "ordered xs \<longleftrightarrow>
     sorted_wrt (<) (map dist xs) \<and> length xs \<le> bound \<and> (\<forall>y \<in> set xs. valid y)"

lemma ordered_ins:
  assumes "kvalid k" "ordered xs"
  shows "ordered (ins k xs)"
proof -
  have o: "sorted_wrt (<) (map dist xs)" "length xs \<le> bound" "\<forall>y \<in> set xs. valid y"
    using assms(2) by (auto simp: ordered_def)
  note d = ins_dists [OF assms(1) o(3,1,2)]
  have "sorted_wrt (<) (map dist (ins k xs))"
    using o(1) unfolding d by (auto simp: strict_sorted_iff distinct_insort sorted_insort intro!: sorted_wrt_take)
  moreover have "length (map dist (ins k xs)) \<le> bound" using o(2) unfolding d by simp
  ultimately show ?thesis using ins_valid [OF assms(1) o(3)] by (simp add: ordered_def)
qed

lemma ordered_fold_ins:
  "ordered xs \<Longrightarrow> \<forall>k \<in> set ks. kvalid k \<Longrightarrow> ordered (fold ins ks xs)"
  by (induction ks arbitrary: xs) (auto intro: ordered_ins)

text \<open>After any number of offers the list holds the closest of all that were offered.\<close>

lemma closest_ins:
  assumes "kvalid k" "ordered xs" "finite D" "map dist xs = take bound (sorted_list_of_set D)"
  shows "map dist (ins k xs) = take bound (sorted_list_of_set (insert (kdist k) D))"
proof -
  let ?L = "sorted_list_of_set D"
  have o: "sorted_wrt (<) (map dist xs)" "length xs \<le> bound" "\<forall>y \<in> set xs. valid y"
    using assms(2) by (auto simp: ordered_def)
  note d = ins_dists [OF assms(1) o(3,1,2)]
  have L: "sorted_wrt (<) ?L" "set ?L = D" "sorted ?L"
    using assms(3) by (simp_all add: strict_sorted_list_of_set)
  show ?thesis
  proof (cases "kdist k \<in> D")
    case False
    then have "kdist k \<notin> set (map dist xs)" using L(2) assms(4) by (auto dest: in_set_takeD)
    then show ?thesis
      using False assms(3,4) take_insort_take [OF L(3)] d by simp
  next
    case True
    show ?thesis
    proof (cases "kdist k \<in> set (map dist xs)")
      case True
      then show ?thesis using \<open>kdist k \<in> D\<close> assms(4) d by (simp add: insert_absorb)
    next
      case False
      then have "take bound (insort (kdist k) (map dist xs)) = map dist xs"
        unfolding assms(4) using take_insort_absent [OF L(1)] True L(2) by simp
      then show ?thesis using False True assms(4) d by (simp add: insert_absorb)
    qed
  qed
qed

lemma closest_fold_ins:
  "ordered xs \<Longrightarrow> finite D \<Longrightarrow> map dist xs = take bound (sorted_list_of_set D) \<Longrightarrow> \<forall>k \<in> set ks. kvalid k \<Longrightarrow>
     map dist (fold ins ks xs) = take bound (sorted_list_of_set (D \<union> kdist ` set ks))"
proof (induction ks arbitrary: xs D)
  case (Cons k ks)
  have "map dist (fold ins ks (ins k xs)) = take bound (sorted_list_of_set (insert (kdist k) D \<union> kdist ` set ks))"
    using Cons.prems closest_ins [of k xs D] by (intro Cons.IH) (simp_all add: ordered_ins del: sorted_list_of_set_insert_remove)
  then show ?case by (simp del: sorted_list_of_set_insert_remove)
qed simp

lemma closest_of_all:
  "\<forall>k \<in> set ks. kvalid k \<Longrightarrow> map dist (fold ins ks []) = take bound (sorted_list_of_set (kdist ` set ks))"
  using closest_fold_ins [of "[]" "{}" ks] by (simp add: ordered_def)

end

subsection \<open>Messages\<close>

text \<open>
  \<open>emit\<close> fills a bounded buffer and may fail; \<open>view\<close> is what the reader is to see of the thing written.
\<close>

locale wire_format =
  fixes emit :: "'a \<Rightarrow> 'm option"
    and read :: "'m \<Rightarrow> 'b"
    and view :: "'a \<Rightarrow> 'b"
    and ok :: "'a \<Rightarrow> bool"
  assumes read_emit: "ok x \<Longrightarrow> emit x = Some m \<Longrightarrow> read m = view x"
begin

text \<open>A message stands for one thing only, as far as a reader can see.\<close>

lemma same_message: "ok x \<Longrightarrow> ok y \<Longrightarrow> emit x = Some m \<Longrightarrow> emit y = Some m \<Longrightarrow> view x = view y"
  using read_emit by metis

lemma emit_inj:
  "inj_on view (Collect ok) \<Longrightarrow> ok x \<Longrightarrow> ok y \<Longrightarrow> emit x = Some m \<Longrightarrow> emit y = Some m \<Longrightarrow> x = y"
  using same_message by (auto dest: inj_onD)

end

subsection \<open>Machines\<close>

locale invariant_machine =
  fixes init :: "'s \<Rightarrow> bool"
    and step :: "'s \<Rightarrow> 's \<Rightarrow> bool"
    and inv :: "'s \<Rightarrow> bool"
  assumes inv_init: "init s \<Longrightarrow> inv s"
    and inv_step: "inv s \<Longrightarrow> step s t \<Longrightarrow> inv t"
begin

inductive reach :: "'s \<Rightarrow> bool" where
  start: "init s \<Longrightarrow> reach s"
| move: "reach s \<Longrightarrow> step s t \<Longrightarrow> reach t"

lemma reach_inv: "reach s \<Longrightarrow> inv s"
  by (induction rule: reach.induct) (auto intro: inv_init inv_step)

end

end
