(* ===== verification/Blacklist.thy ===== *)
theory Blacklist
  imports Ids Interfaces
begin

text \<open>
  The blacklist of \<^verbatim>\<open>blacklist.c\<close>: a trie of blocked addresses per family, with one level
  per address byte, the counters of blocked addresses, the switch, and the linked list of
  trap identifiers. \<^verbatim>\<open>level\<close> of a trie node is never written or read by the source and is
  left out; the printing is in \<open>Printing\<close>, the pointers are in \<open>Blacklist_Memory\<close>.
\<close>

text \<open>
  \<^verbatim>\<open>void *children[256]\<close> is a map from the byte; a child of the last level is a
  \<^verbatim>\<open>struct blacklist_leaf\<close> (port, and the digest that led to the entry).
\<close>

datatype bl_tree = Entry "byte \<Rightarrow> bl_tree option" | Leaf nat mem

record blacklist =
  IPv4_blacklist :: "bl_tree option"
  IPv6_blacklist :: "bl_tree option"
  bl_enabled :: bool
  number_of_entries_ipv4 :: nat
  number_of_entries_ipv6 :: nat
  idblacklist :: "mem list"

definition bl_initial :: blacklist where
  "bl_initial = \<lparr>IPv4_blacklist = None, IPv6_blacklist = None, bl_enabled = True,
     number_of_entries_ipv4 = 0, number_of_entries_ipv6 = 0, idblacklist = []\<rparr>"

definition blacklist_size :: "blacklist \<Rightarrow> nat \<times> nat \<times> nat" where
  "blacklist_size bl = (number_of_entries_ipv4 bl, number_of_entries_ipv6 bl,
     number_of_entries_ipv4 bl + number_of_entries_ipv6 bl)"

definition create_new_entry :: bl_tree where
  "create_new_entry = Entry (\<lambda>_. None)"

text \<open>\<^verbatim>\<open>ntohs\<close> of the two port bytes in network order is their big-endian value.\<close>

definition create_new_leaf :: "mem \<Rightarrow> mem \<Rightarrow> bl_tree" where
  "create_new_leaf port md = Leaf (be_val port) (take 20 md)"

text \<open>
  The descent of \<^verbatim>\<open>blacklist_blacklist_node\<close> along the address bytes: missing inner nodes
  are created, the leaf is replaced, and the flag tells whether the slot was empty. A leaf
  above the last level does not occur (\<open>bl_wf\<close> below); the C code would misread it.
\<close>

fun bl_insert :: "mem \<Rightarrow> bl_tree \<Rightarrow> bl_tree \<Rightarrow> bl_tree \<times> bool" where
  "bl_insert (a # b # as) leaf (Entry ch) =
     (let child = (case ch a of None \<Rightarrow> create_new_entry | Some c \<Rightarrow> c);
          (c', fresh) = bl_insert (b # as) leaf child
      in (Entry (ch(a \<mapsto> c')), fresh))"
| "bl_insert [a] leaf (Entry ch) = (Entry (ch(a \<mapsto> leaf)), ch a = None)"
| "bl_insert _ leaf t = (t, False)"

definition blacklist_blacklist_node :: "mem \<Rightarrow> mem \<Rightarrow> blacklist \<Rightarrow> blacklist" where
  "blacklist_blacklist_node sa md bl =
     (if \<not> bl_enabled bl then bl
      else if sa_family sa = AF_INET then
        (let root = (case IPv4_blacklist bl of None \<Rightarrow> create_new_entry | Some t \<Rightarrow> t);
             (t, fresh) = bl_insert (sin_addr sa) (create_new_leaf (sin_port sa) md) root
         in bl\<lparr>IPv4_blacklist := Some t,
               number_of_entries_ipv4 := number_of_entries_ipv4 bl + (if fresh then 1 else 0)\<rparr>)
      else if sa_family sa = AF_INET6 then
        (let root = (case IPv6_blacklist bl of None \<Rightarrow> create_new_entry | Some t \<Rightarrow> t);
             (t, fresh) = bl_insert (sin6_addr sa) (create_new_leaf (sin_port sa) md) root
         in bl\<lparr>IPv6_blacklist := Some t,
               number_of_entries_ipv6 := number_of_entries_ipv6 bl + (if fresh then 1 else 0)\<rparr>)
      else bl)"

text \<open>The descent of \<^verbatim>\<open>blacklist_blacklisted\<close>.\<close>

fun bl_find :: "mem \<Rightarrow> bl_tree option \<Rightarrow> bool" where
  "bl_find [] t = True"
| "bl_find (a # as) None = False"
| "bl_find [a] (Some (Entry ch)) = (ch a \<noteq> None)"
| "bl_find (a # b # as) (Some (Entry ch)) = bl_find (b # as) (ch a)"
| "bl_find (a # as) (Some (Leaf p m)) = False"

definition blacklist_blacklisted :: "mem \<Rightarrow> blacklist \<Rightarrow> bool" where
  "blacklist_blacklisted sa bl =
     (if \<not> bl_enabled bl then False
      else if sa_family sa = AF_INET then bl_find (sin_addr sa) (IPv4_blacklist bl)
      else False)"

fun blacklist_id_blacklisted :: "mem \<Rightarrow> mem list \<Rightarrow> bool" where
  "blacklist_id_blacklisted x [] = False"
| "blacklist_id_blacklisted x (md # rest) =
     (if memcmp md x 20 = 0 then True else blacklist_id_blacklisted x rest)"

definition blacklist_blacklist_id :: "mem \<Rightarrow> blacklist \<Rightarrow> blacklist" where
  "blacklist_blacklist_id x bl = bl\<lparr>idblacklist := take 20 x # idblacklist bl\<rparr>"

definition blacklist_enable :: "bool \<Rightarrow> blacklist \<Rightarrow> blacklist" where
  "blacklist_enable enable bl = bl\<lparr>bl_enabled := enable\<rparr>"

definition blacklist_is_enabled :: "blacklist \<Rightarrow> bool" where
  "blacklist_is_enabled bl = bl_enabled bl"

definition blacklist_id_free :: "blacklist \<Rightarrow> blacklist" where
  "blacklist_id_free bl = bl\<lparr>idblacklist := []\<rparr>"

text \<open>The counters are not reset here: the source frees the tries only.\<close>

definition blacklist_free :: "blacklist \<Rightarrow> blacklist" where
  "blacklist_free bl =
     blacklist_id_free (bl\<lparr>IPv4_blacklist := None, IPv6_blacklist := None\<rparr>)"

subsection \<open>The tries have one level per address byte\<close>

fun bl_wf :: "nat \<Rightarrow> bl_tree \<Rightarrow> bool" where
  "bl_wf 0 (Leaf p m) = True"
| "bl_wf (Suc d) (Entry ch) = (\<forall>a. case ch a of None \<Rightarrow> True | Some t \<Rightarrow> bl_wf d t)"
| "bl_wf _ _ = False"

lemma bl_wf_SucE:
  assumes "bl_wf (Suc d) t"
  obtains ch where "t = Entry ch" "\<And>a c. ch a = Some c \<Longrightarrow> bl_wf d c"
  using assms by (cases t) (auto split: option.splits)

lemma bl_wf_Leaf [simp]: "bl_wf n (Leaf p m) \<longleftrightarrow> n = 0"
  by (cases n) auto

lemma bl_wf_new_entry [simp]: "bl_wf (Suc d) create_new_entry"
  by (simp add: create_new_entry_def)

lemma bl_insert_wf:
  "bl_wf (length as) t \<Longrightarrow> as \<noteq> [] \<Longrightarrow> bl_wf 0 leaf \<Longrightarrow>
     bl_wf (length as) (fst (bl_insert as leaf t))"
proof (induction as leaf t rule: bl_insert.induct)
  case (1 a b as leaf ch)
  let ?child = "case ch a of None \<Rightarrow> create_new_entry | Some c \<Rightarrow> c"
  have "bl_wf (length (b # as)) ?child"
    using "1.prems"(1) by (auto split: option.splits)
  with "1.IH" [of ?child] "1.prems" show ?case
    by (auto simp: Let_def split: prod.splits option.splits)
next
  case (2 a leaf ch)
  then show ?case by (auto split: option.splits)
qed auto

lemma bl_find_new_entry: "bl_find (a # as) (Some create_new_entry) = False"
  by (cases as) (auto simp: create_new_entry_def)

lemma bl_find_insert:
  "bl_wf (length as) t \<Longrightarrow> as \<noteq> [] \<Longrightarrow> length bs = length as \<Longrightarrow>
     bl_find bs (Some (fst (bl_insert as leaf t))) \<longleftrightarrow> bs = as \<or> bl_find bs (Some t)"
proof (induction as leaf t arbitrary: bs rule: bl_insert.induct)
  case (1 a b as leaf ch)
  let ?child = "case ch a of None \<Rightarrow> create_new_entry | Some c \<Rightarrow> c"
  have wf: "bl_wf (length (b # as)) ?child"
    using "1.prems"(1) by (auto split: option.splits)
  obtain x y ys where bs: "bs = x # y # ys" "length ys = length as"
    using "1.prems"(3) by (auto simp: length_Suc_conv)
  have none: "ch a = None \<Longrightarrow> \<not> bl_find (y # ys) (Some ?child)"
    by (simp add: bl_find_new_entry)
  have "bl_find (y # ys) (Some (fst (bl_insert (b # as) leaf ?child))) \<longleftrightarrow>
        y # ys = b # as \<or> bl_find (y # ys) (Some ?child)"
    using "1.IH" [of ?child, OF refl wf] bs by simp
  then show ?case using bs none
    by (auto simp: Let_def bl_find_new_entry split: prod.splits option.splits)
next
  case (2 a leaf ch)
  then obtain x where "bs = [x]" by (auto simp: length_Suc_conv)
  then show ?case by auto
qed auto

lemma bl_insert_fresh:
  "bl_wf (length as) t \<Longrightarrow> as \<noteq> [] \<Longrightarrow> snd (bl_insert as leaf t) \<longleftrightarrow> \<not> bl_find as (Some t)"
proof (induction as leaf t rule: bl_insert.induct)
  case (1 a b as leaf ch)
  let ?child = "case ch a of None \<Rightarrow> create_new_entry | Some c \<Rightarrow> c"
  have "bl_wf (length (b # as)) ?child"
    using "1.prems"(1) by (auto split: option.splits)
  with "1.IH" [of ?child] show ?case
    by (auto simp: Let_def bl_find_new_entry split: prod.splits option.splits)
qed auto


subsection \<open>The state of the component\<close>

definition bl_root :: "bl_tree option \<Rightarrow> bl_tree" where
  "bl_root t = (case t of None \<Rightarrow> create_new_entry | Some t \<Rightarrow> t)"

definition v4_addrs :: "blacklist \<Rightarrow> mem set" where
  "v4_addrs bl = {a. length a = 4 \<and> bl_find a (IPv4_blacklist bl)}"

definition v6_addrs :: "blacklist \<Rightarrow> mem set" where
  "v6_addrs bl = {a. length a = 16 \<and> bl_find a (IPv6_blacklist bl)}"

text \<open>Both tries have the depth of their addresses, and the counters count them.\<close>

definition bl_inv :: "blacklist \<Rightarrow> bool" where
  "bl_inv bl \<longleftrightarrow>
     (case IPv4_blacklist bl of None \<Rightarrow> True | Some t \<Rightarrow> bl_wf 4 t) \<and>
     (case IPv6_blacklist bl of None \<Rightarrow> True | Some t \<Rightarrow> bl_wf 16 t)"

lemma bl_inv_initial: "bl_inv bl_initial"
  by (simp add: bl_inv_def bl_initial_def)

lemma bl_find_root: "as \<noteq> [] \<Longrightarrow> bl_find as (Some (bl_root t)) = bl_find as t"
  by (cases as; cases t) (auto simp: bl_root_def bl_find_new_entry)

lemma bl_wf_root:
  assumes "bl_inv bl"
  shows "bl_wf 4 (bl_root (IPv4_blacklist bl))" "bl_wf 16 (bl_root (IPv6_blacklist bl))"
  using assms bl_wf_new_entry [of 3] bl_wf_new_entry [of 15]
  by (auto simp: bl_inv_def bl_root_def numeral_eq_Suc split: option.splits)

definition full_sa :: "mem \<Rightarrow> bool" where
  "full_sa sa \<longleftrightarrow> (sa_family sa = AF_INET \<longrightarrow> 16 \<le> length sa) \<and> (sa_family sa = AF_INET6 \<longrightarrow> 28 \<le> length sa)"

lemma full_sa_addr:
  "full_sa sa \<Longrightarrow> sa_family sa = AF_INET \<Longrightarrow> length (sin_addr sa) = 4"
  "full_sa sa \<Longrightarrow> sa_family sa = AF_INET6 \<Longrightarrow> length (sin6_addr sa) = 16"
  by (auto simp: full_sa_def sin_addr_def sin6_addr_def)

lemma leaf_wf [simp]: "bl_wf 0 (create_new_leaf p md)"
  by (simp add: create_new_leaf_def)

lemma blacklist_node_v4:
  assumes "bl_enabled bl" "sa_family sa = AF_INET"
  shows "IPv4_blacklist (blacklist_blacklist_node sa md bl) =
      Some (fst (bl_insert (sin_addr sa) (create_new_leaf (sin_port sa) md) (bl_root (IPv4_blacklist bl))))"
    and "number_of_entries_ipv4 (blacklist_blacklist_node sa md bl) = number_of_entries_ipv4 bl +
      (if snd (bl_insert (sin_addr sa) (create_new_leaf (sin_port sa) md) (bl_root (IPv4_blacklist bl))) then 1 else 0)"
  using assms by (simp_all add: blacklist_blacklist_node_def bl_root_def Let_def split: prod.splits)

lemma blacklist_node_v6:
  assumes "bl_enabled bl" "sa_family sa = AF_INET6"
  shows "IPv6_blacklist (blacklist_blacklist_node sa md bl) =
      Some (fst (bl_insert (sin6_addr sa) (create_new_leaf (sin_port sa) md) (bl_root (IPv6_blacklist bl))))"
    and "number_of_entries_ipv6 (blacklist_blacklist_node sa md bl) = number_of_entries_ipv6 bl +
      (if snd (bl_insert (sin6_addr sa) (create_new_leaf (sin_port sa) md) (bl_root (IPv6_blacklist bl))) then 1 else 0)"
  using assms
  by (simp_all add: blacklist_blacklist_node_def bl_root_def Let_def AF_INET_def AF_INET6_def split: prod.splits)

lemma blacklist_node_other_family [simp]:
  "sa_family sa \<noteq> AF_INET \<Longrightarrow> IPv4_blacklist (blacklist_blacklist_node sa md bl) = IPv4_blacklist bl"
  "sa_family sa \<noteq> AF_INET6 \<Longrightarrow> IPv6_blacklist (blacklist_blacklist_node sa md bl) = IPv6_blacklist bl"
  "sa_family sa \<noteq> AF_INET \<Longrightarrow>
     number_of_entries_ipv4 (blacklist_blacklist_node sa md bl) = number_of_entries_ipv4 bl"
  "sa_family sa \<noteq> AF_INET6 \<Longrightarrow>
     number_of_entries_ipv6 (blacklist_blacklist_node sa md bl) = number_of_entries_ipv6 bl"
  by (auto simp: blacklist_blacklist_node_def Let_def split: prod.splits)

lemma blacklist_node_enabled [simp]:
  "bl_enabled (blacklist_blacklist_node sa md bl) = bl_enabled bl"
  "idblacklist (blacklist_blacklist_node sa md bl) = idblacklist bl"
  by (auto simp: blacklist_blacklist_node_def Let_def split: prod.splits)

lemma blacklist_node_disabled: "\<not> bl_enabled bl \<Longrightarrow> blacklist_blacklist_node sa md bl = bl"
  by (simp add: blacklist_blacklist_node_def)

lemma blacklist_node_inv:
  assumes "bl_inv bl" "full_sa sa"
  shows "bl_inv (blacklist_blacklist_node sa md bl)"
proof (cases "bl_enabled bl")
  case False
  then show ?thesis using assms by (simp add: blacklist_node_disabled)
next
  case True
  consider "sa_family sa = AF_INET" | "sa_family sa = AF_INET6" "sa_family sa \<noteq> AF_INET"
    | "sa_family sa \<noteq> AF_INET" "sa_family sa \<noteq> AF_INET6" by blast
  then show ?thesis
  proof cases
    case 1
    have "length (sin_addr sa) = 4" using assms(2) 1 by (rule full_sa_addr)
    then have "bl_wf 4 (fst (bl_insert (sin_addr sa) (create_new_leaf (sin_port sa) md) (bl_root (IPv4_blacklist bl))))"
      using bl_insert_wf [of "sin_addr sa" "bl_root (IPv4_blacklist bl)"] bl_wf_root [OF assms(1)] by fastforce
    moreover have "sa_family sa \<noteq> AF_INET6" using 1 by (simp add: AF_INET_def AF_INET6_def)
    ultimately show ?thesis
      using True 1 assms(1) by (simp add: bl_inv_def blacklist_node_v4)
  next
    case 2
    have "length (sin6_addr sa) = 16" using assms(2) 2(1) by (rule full_sa_addr)
    then have "bl_wf 16 (fst (bl_insert (sin6_addr sa) (create_new_leaf (sin_port sa) md) (bl_root (IPv6_blacklist bl))))"
      using bl_insert_wf [of "sin6_addr sa" "bl_root (IPv6_blacklist bl)"] bl_wf_root [OF assms(1)] by fastforce
    then show ?thesis
      using True 2 assms(1) by (simp add: bl_inv_def blacklist_node_v6)
  next
    case 3
    then show ?thesis using assms(1) by (simp add: bl_inv_def)
  qed
qed


subsection \<open>What is blocked\<close>

lemma v4_addrs_insert:
  assumes "bl_inv bl" "full_sa sa" "bl_enabled bl" "sa_family sa = AF_INET"
  shows "v4_addrs (blacklist_blacklist_node sa md bl) = insert (sin_addr sa) (v4_addrs bl)"
proof -
  have l: "length (sin_addr sa) = 4" using assms(2,4) by (rule full_sa_addr)
  have "bl_find b (IPv4_blacklist (blacklist_blacklist_node sa md bl)) \<longleftrightarrow>
        b = sin_addr sa \<or> bl_find b (IPv4_blacklist bl)" if b: "length b = 4" for b
  proof -
    have ne: "b \<noteq> []" using b by auto
    have "bl_find b (Some (fst (bl_insert (sin_addr sa) (create_new_leaf (sin_port sa) md)
              (bl_root (IPv4_blacklist bl))))) \<longleftrightarrow>
          b = sin_addr sa \<or> bl_find b (Some (bl_root (IPv4_blacklist bl)))"
      using l b bl_wf_root(1) [OF assms(1)] by (intro bl_find_insert) auto
    then show ?thesis using assms(3,4) bl_find_root [OF ne] by (simp add: blacklist_node_v4)
  qed
  with l show ?thesis by (auto simp: v4_addrs_def)
qed

lemma v6_addrs_insert:
  assumes "bl_inv bl" "full_sa sa" "bl_enabled bl" "sa_family sa = AF_INET6"
  shows "v6_addrs (blacklist_blacklist_node sa md bl) = insert (sin6_addr sa) (v6_addrs bl)"
proof -
  have l: "length (sin6_addr sa) = 16" using assms(2,4) by (rule full_sa_addr)
  have "bl_find b (IPv6_blacklist (blacklist_blacklist_node sa md bl)) \<longleftrightarrow>
        b = sin6_addr sa \<or> bl_find b (IPv6_blacklist bl)" if b: "length b = 16" for b
  proof -
    have ne: "b \<noteq> []" using b by auto
    have "bl_find b (Some (fst (bl_insert (sin6_addr sa) (create_new_leaf (sin_port sa) md)
              (bl_root (IPv6_blacklist bl))))) \<longleftrightarrow>
          b = sin6_addr sa \<or> bl_find b (Some (bl_root (IPv6_blacklist bl)))"
      using l b bl_wf_root(2) [OF assms(1)] by (intro bl_find_insert) auto
    then show ?thesis using assms(3,4) bl_find_root [OF ne] by (simp add: blacklist_node_v6)
  qed
  with l show ?thesis by (auto simp: v6_addrs_def)
qed

lemma blacklisted_iff:
  assumes "full_sa sa" "sa_family sa = AF_INET"
  shows "blacklist_blacklisted sa bl \<longleftrightarrow> bl_enabled bl \<and> sin_addr sa \<in> v4_addrs bl"
  using assms full_sa_addr(1) [OF assms] by (simp add: blacklist_blacklisted_def v4_addrs_def)

lemma v4_addrs_frame [simp]:
  "sa_family sa \<noteq> AF_INET \<Longrightarrow> v4_addrs (blacklist_blacklist_node sa md bl) = v4_addrs bl"
  "sa_family sa \<noteq> AF_INET6 \<Longrightarrow> v6_addrs (blacklist_blacklist_node sa md bl) = v6_addrs bl"
  by (simp_all add: v4_addrs_def v6_addrs_def)

definition node_key :: "mem \<times> mem \<Rightarrow> mem \<Rightarrow> bool" where
  "node_key k q \<longleftrightarrow> sa_family (fst k) = AF_INET \<and> sin_addr (fst k) = sin_addr q"

interpretation bl4: exact_membership
  "\<lambda>k. blacklist_blacklist_node (fst k) (snd k)"
  "\<lambda>bl q. blacklist_blacklisted q bl"
  "\<lambda>bl. bl_inv bl \<and> bl_enabled bl" node_key "\<lambda>k. full_sa (fst k)"
  "\<lambda>q. full_sa q \<and> sa_family q = AF_INET"
proof unfold_locales
  fix bl and k :: "mem \<times> mem" and q
  assume i: "bl_inv bl \<and> bl_enabled bl" and k: "full_sa (fst k)"
  then show "bl_inv (blacklist_blacklist_node (fst k) (snd k) bl) \<and>
      bl_enabled (blacklist_blacklist_node (fst k) (snd k) bl)"
    by (simp add: blacklist_node_inv)
  assume q: "full_sa q \<and> sa_family q = AF_INET"
  have m: "blacklist_blacklisted q (blacklist_blacklist_node (fst k) (snd k) bl)
      \<longleftrightarrow> node_key k q \<or> blacklist_blacklisted q bl"
    using i k q by (cases "sa_family (fst k) = AF_INET")
      (auto simp: blacklisted_iff v4_addrs_insert node_key_def)
  show "node_key k q \<Longrightarrow> blacklist_blacklisted q (blacklist_blacklist_node (fst k) (snd k) bl)"
    "blacklist_blacklisted q bl \<Longrightarrow> blacklist_blacklisted q (blacklist_blacklist_node (fst k) (snd k) bl)"
    "blacklist_blacklisted q (blacklist_blacklist_node (fst k) (snd k) bl) \<Longrightarrow>
       node_key k q \<or> blacklist_blacklisted q bl"
    by (simp_all add: m)
qed

subsection \<open>Trap identifiers\<close>

lemma id_blacklisted_iff:
  "valid_id x \<Longrightarrow> \<forall>y \<in> set ids. valid_id y \<Longrightarrow> blacklist_id_blacklisted x ids \<longleftrightarrow> x \<in> set ids"
  by (induction ids) (auto simp: memcmp_def valid_id_def bytes_cmp_eq_0)

subsection \<open>The counters\<close>

definition bl_counted :: "blacklist \<Rightarrow> bool" where
  "bl_counted bl \<longleftrightarrow> number_of_entries_ipv4 bl = card (v4_addrs bl) \<and>
     number_of_entries_ipv6 bl = card (v6_addrs bl) \<and> finite (v4_addrs bl) \<and> finite (v6_addrs bl)"

lemma bl_counted_initial: "bl_counted bl_initial"
proof -
  have "v4_addrs bl_initial = {}" "v6_addrs bl_initial = {}"
    by (auto simp: v4_addrs_def v6_addrs_def bl_initial_def) (case_tac x; simp)+
  then show ?thesis by (simp add: bl_counted_def) (simp add: bl_initial_def)
qed

lemma count_v4:
  assumes "bl_inv bl" "full_sa sa" "bl_enabled bl" "sa_family sa = AF_INET"
  shows "number_of_entries_ipv4 (blacklist_blacklist_node sa md bl) =
    number_of_entries_ipv4 bl + (if sin_addr sa \<in> v4_addrs bl then 0 else 1)"
proof -
  have l: "length (sin_addr sa) = 4" using assms(2,4) by (rule full_sa_addr)
  then have ne: "sin_addr sa \<noteq> []" by auto
  have "snd (bl_insert (sin_addr sa) (create_new_leaf (sin_port sa) md) (bl_root (IPv4_blacklist bl)))
      \<longleftrightarrow> \<not> bl_find (sin_addr sa) (Some (bl_root (IPv4_blacklist bl)))"
    using l ne bl_wf_root(1) [OF assms(1)] by (intro bl_insert_fresh) auto
  then show ?thesis using assms(3,4) l ne by (simp add: blacklist_node_v4 bl_find_root v4_addrs_def)
qed

lemma count_v6:
  assumes "bl_inv bl" "full_sa sa" "bl_enabled bl" "sa_family sa = AF_INET6"
  shows "number_of_entries_ipv6 (blacklist_blacklist_node sa md bl) =
    number_of_entries_ipv6 bl + (if sin6_addr sa \<in> v6_addrs bl then 0 else 1)"
proof -
  have l: "length (sin6_addr sa) = 16" using assms(2,4) by (rule full_sa_addr)
  then have ne: "sin6_addr sa \<noteq> []" by auto
  have "snd (bl_insert (sin6_addr sa) (create_new_leaf (sin_port sa) md) (bl_root (IPv6_blacklist bl)))
      \<longleftrightarrow> \<not> bl_find (sin6_addr sa) (Some (bl_root (IPv6_blacklist bl)))"
    using l ne bl_wf_root(2) [OF assms(1)] by (intro bl_insert_fresh) auto
  then show ?thesis using assms(3,4) l ne by (simp add: blacklist_node_v6 bl_find_root v6_addrs_def)
qed

lemma bl_counted_node:
  assumes "bl_counted bl" "bl_inv bl" "full_sa sa"
  shows "bl_counted (blacklist_blacklist_node sa md bl)"
proof (cases "bl_enabled bl")
  case False
  then show ?thesis using assms by (simp add: blacklist_node_disabled)
next
  case True
  have ne: "AF_INET \<noteq> AF_INET6" by (simp add: AF_INET_def AF_INET6_def)
  consider "sa_family sa = AF_INET" | "sa_family sa = AF_INET6"
    | "sa_family sa \<noteq> AF_INET" "sa_family sa \<noteq> AF_INET6" by blast
  then show ?thesis
  proof cases
    case 1
    then show ?thesis using assms True ne
      by (auto simp: bl_counted_def v4_addrs_insert count_v4 card_insert_if)
  next
    case 2
    then show ?thesis using assms True ne
      by (auto simp: bl_counted_def v6_addrs_insert count_v6 card_insert_if)
  next
    case 3
    then show ?thesis using assms(1) by (simp add: bl_counted_def)
  qed
qed

subsection \<open>Properties\<close>

lemma full_sa_mk_sin [simp]:
  "length a = 4 \<Longrightarrow> length p = 2 \<Longrightarrow> full_sa (mk_sin a p)"
  "length p = 2 \<Longrightarrow> sa_family (mk_sin a p) = AF_INET"
  "length a = 4 \<Longrightarrow> length p = 2 \<Longrightarrow> sin_addr (mk_sin a p) = a"
  by (auto simp: full_sa_def mk_sin_def sa_family_def AF_INET_def AF_INET6_def
      sin_addr_def slice_def rd_def nth_append)

text \<open>
  C29: the address trie of \<^verbatim>\<open>blacklist.c\<close> is exact for IPv4. After any sequence of
  \<^verbatim>\<open>blacklist_blacklist_node\<close> calls (IPv4, IPv6 and other families mixed), an IPv4 address is
  reported by \<^verbatim>\<open>blacklist_blacklisted\<close> exactly when it was reported before or is the address,
  whatever its port, of one of the IPv4 nodes of the sequence.
\<close>

theorem blacklist_ipv4_exact:
  assumes "bl_inv bl" "bl_enabled bl" "\<forall>n \<in> set ns. full_sa (fst n)" "full_sa q" "sa_family q = AF_INET"
  shows "blacklist_blacklisted q (fold (\<lambda>n. blacklist_blacklist_node (fst n) (snd n)) ns bl) \<longleftrightarrow>
    (\<exists>n \<in> set ns. sa_family (fst n) = AF_INET \<and> sin_addr (fst n) = sin_addr q) \<or> blacklist_blacklisted q bl"
  using bl4.member_fold_iff [of bl ns q] assms by (simp add: node_key_def)

lemma blacklist_ipv4_exact_witness:
  "blacklist_blacklisted (mk_sin [10, 0, 0, 1] [0, 9])
     (fold (\<lambda>n. blacklist_blacklist_node (fst n) (snd n)) [(mk_sin [10, 0, 0, 1] [0, 7], [])]
       (blacklist_enable True bl_initial))"
  using blacklist_ipv4_exact [of "blacklist_enable True bl_initial"
      "[(mk_sin [10, 0, 0, 1] [0, 7], [])]" "mk_sin [10, 0, 0, 1] [0, 9]"]
  by (simp add: bl_inv_def bl_initial_def blacklist_enable_def)

lemma bl_counted_fold:
  "bl_counted bl \<Longrightarrow> bl_inv bl \<Longrightarrow> \<forall>n \<in> set ns. full_sa (fst n) \<Longrightarrow>
     bl_counted (fold (\<lambda>n. blacklist_blacklist_node (fst n) (snd n)) ns bl)"
  by (induction ns arbitrary: bl) (simp_all add: bl_counted_node blacklist_node_inv)

text \<open>
  \<^verbatim>\<open>blacklist_size\<close> reports the numbers of distinct addresses. Starting from the initial
  blacklist, enabled or not, after any sequence of additions the two counters are the
  cardinalities of the sets of IPv4 and IPv6 addresses stored in the tries; adding an address
  again, with another port or identifier, does not count.
\<close>

theorem blacklist_size_counts:
  assumes "\<forall>n \<in> set ns. full_sa (fst n)"
    "bl = fold (\<lambda>n. blacklist_blacklist_node (fst n) (snd n)) ns (blacklist_enable on bl_initial)"
  shows "blacklist_size bl = (card (v4_addrs bl), card (v6_addrs bl), card (v4_addrs bl) + card (v6_addrs bl))"
proof -
  let ?b = "blacklist_enable on bl_initial"
  have "v4_addrs ?b = v4_addrs bl_initial" "v6_addrs ?b = v6_addrs bl_initial"
    by (simp_all add: v4_addrs_def v6_addrs_def blacklist_enable_def)
  then have "bl_counted ?b" "bl_inv ?b"
    using bl_counted_initial bl_inv_initial
    by (simp_all add: bl_counted_def bl_inv_def blacklist_enable_def)
  then have "bl_counted bl" unfolding assms(2) using assms(1) by (rule bl_counted_fold)
  then show ?thesis by (simp add: blacklist_size_def bl_counted_def)
qed

lemma blacklist_size_counts_witness:
  "\<exists>bl. bl = fold (\<lambda>n. blacklist_blacklist_node (fst n) (snd n))
        [(mk_sin [10, 0, 0, 1] [0, 7], []), (mk_sin [10, 0, 0, 1] [0, 9], [])] (blacklist_enable True bl_initial) \<and>
     blacklist_size bl = (card (v4_addrs bl), card (v6_addrs bl), card (v4_addrs bl) + card (v6_addrs bl))"
  by (rule exI, rule conjI [OF refl],
      rule blacklist_size_counts [where ns = "[(mk_sin [10, 0, 0, 1] [0, 7], []), (mk_sin [10, 0, 0, 1] [0, 9], [])]"])
    simp_all

end
