(* ===== verification/Dht_State.thy ===== *)
theory Dht_State
  imports Blacklist
begin

text \<open>
  The static variables of \<^verbatim>\<open>dht.c\<close> as one record, with its structures, and the primitives
  through which it meets its environment. Linked lists are lists, a pointer into one is an
  index. \<^verbatim>\<open>time_t\<close> and the counters are unbounded integers, except where the source stores a
  time in an \<^verbatim>\<open>int\<close>. The record is extensible: \<^verbatim>\<open>dtndht.c\<close> adds its own variables to it.

  Environment: \<open>rand_src\<close>, \<open>calloc_src\<close> and \<open>sendto_src\<close> are the answers the C library and the
  kernel will give to the calls of \<^verbatim>\<open>random\<close> (and \<^verbatim>\<open>rand\<close>), \<^verbatim>\<open>calloc\<close> (does it succeed) and
  \<^verbatim>\<open>sendto\<close>. \<open>trace\<close> is what the program has done visibly: datagrams given to \<^verbatim>\<open>sendto\<close>, and
  calls of the user's call-backs. \<open>aborted\<close> is set by \<^verbatim>\<open>abort()\<close> and by running out of stack;
  from then on nothing is visible any more.
\<close>

record node =
  n_id :: mem
  n_ss :: mem
  n_sslen :: nat
  n_time :: int
  n_reply_time :: int
  n_pinged_time :: int
  n_pinged :: int

record bucket =
  b_af :: nat
  b_first :: mem
  b_count :: int
  b_time :: int
  b_nodes :: "node list"
  b_cached :: mem
  b_cachedlen :: nat

record search_node =
  sn_id :: mem
  sn_ss :: mem
  sn_sslen :: nat
  sn_request_time :: int
  sn_reply_time :: int
  sn_pinged :: int
  sn_token :: mem
  sn_replied :: bool
  sn_acked :: bool

text \<open>The array \<^verbatim>\<open>nodes[SEARCH_NODES]\<close> and \<^verbatim>\<open>numnodes\<close> are the list of its used entries.\<close>

record search =
  sr_tid :: "16 word"
  sr_af :: nat
  sr_step_time :: int
  sr_id :: mem
  sr_port :: nat
  sr_done :: bool
  sr_nodes :: "search_node list"

record peer =
  p_time :: int
  p_ip :: mem
  p_port :: nat

text \<open>\<^verbatim>\<open>numpeers\<close> is the length of the list, \<^verbatim>\<open>maxpeers\<close> the allocated size; \<^verbatim>\<open>len\<close> of a peer is
  the length of its \<open>p_ip\<close>.\<close>

record storage =
  st_id :: mem
  st_maxpeers :: nat
  st_peers :: "peer list"

record cl_arg =
  arg_key :: mem
  arg_value :: mem

record convergence_layer =
  clname :: mem
  cl_args :: "cl_arg list"

record lookup_result =
  lr_eid :: "mem option"
  lr_groups :: "mem list"
  lr_neighbours :: "mem list"
  lr_clayer :: "convergence_layer list"

datatype c_errno = E_OK | EBUSY | EAFNOSUPPORT | ENOSPC | EINVAL | EPERM

datatype action =
    Datagram int mem nat mem   \<comment> \<open>socket, destination, flags, payload\<close>
  | Lookup_result mem lookup_result   \<comment> \<open>the identifier of the result, which is not \<^verbatim>\<open>NULL\<close>, and the result\<close>
  | Operation_done mem

record dht =
  dht_socket :: int
  dht_socket6 :: int
  search_time :: int
  confirm_nodes_time :: int
  rotate_secrets_time :: int
  myid :: mem
  my_v :: "mem option"
  secret :: mem
  oldsecret :: mem
  myneighbours :: "mem list"
  mygroups :: "mem list"
  dtn_my_eid :: mem
  dtn_my_eid_changed :: bool
  buckets :: "bucket list"
  buckets6 :: "bucket list"
  storages :: "storage list"
  numstorage :: int
  searches :: "search list"
  numsearches :: int
  search_id :: "16 word"
  blist :: "mem list"
  next_blacklisted :: nat
  now :: int
  mybucket_grow_time :: int
  mybucket6_grow_time :: int
  expire_stuff_time :: int
  token_bucket_time :: int
  token_bucket_tokens :: int
  extbl :: blacklist
  errno :: c_errno
  rand_src :: "nat answers"
  calloc_src :: "bool answers"
  sendto_src :: "int answers"
  trace :: "action list"
  aborted :: bool

definition DHT_MAX_PEERS :: nat where "DHT_MAX_PEERS = 2048"
definition DHT_MAX_HASHES :: int where "DHT_MAX_HASHES = 16384"
definition DHT_MAX_SEARCHES :: int where "DHT_MAX_SEARCHES = 1024"
definition DHT_SEARCH_EXPIRE_TIME :: int where "DHT_SEARCH_EXPIRE_TIME = 62 * 60"
definition DHT_MAX_BLACKLISTED :: nat where "DHT_MAX_BLACKLISTED = 10"
definition SEARCH_NODES :: nat where "SEARCH_NODES = 14"
definition MAX_TOKEN_BUCKET_TOKENS :: int where "MAX_TOKEN_BUCKET_TOKENS = 400"
definition TOKEN_SIZE :: nat where "TOKEN_SIZE = 8"

subsection \<open>The environment\<close>

definition c_random :: "'a dht_scheme \<Rightarrow> nat \<times> 'a dht_scheme" where
  "c_random s = (rand_src s 0, s\<lparr>rand_src := later (rand_src s)\<rparr>)"

definition c_calloc :: "'a dht_scheme \<Rightarrow> bool \<times> 'a dht_scheme" where
  "c_calloc s = (calloc_src s 0, s\<lparr>calloc_src := later (calloc_src s)\<rparr>)"

definition c_abort :: "'a dht_scheme \<Rightarrow> 'a dht_scheme" where
  "c_abort s = s\<lparr>aborted := True\<rparr>"

definition visible :: "action \<Rightarrow> 'a dht_scheme \<Rightarrow> 'a dht_scheme" where
  "visible a s = (if aborted s then s else s\<lparr>trace := trace s @ [a]\<rparr>)"

definition set_errno :: "c_errno \<Rightarrow> 'a dht_scheme \<Rightarrow> 'a dht_scheme" where
  "set_errno e s = s\<lparr>errno := e\<rparr>"

definition c_sendto :: "int \<Rightarrow> mem \<Rightarrow> nat \<Rightarrow> mem \<Rightarrow> 'a dht_scheme \<Rightarrow> int \<times> 'a dht_scheme" where
  "c_sendto sock to flags buf s =
     (sendto_src s 0,
      (visible (Datagram sock to flags buf) s)\<lparr>sendto_src := later (sendto_src s)\<rparr>)"

text \<open>The bucket list of an address family, read and written.\<close>

definition table :: "nat \<Rightarrow> 'a dht_scheme \<Rightarrow> bucket list" where
  "table af s = (if af = AF_INET then buckets s else buckets6 s)"

definition set_table :: "nat \<Rightarrow> bucket list \<Rightarrow> 'a dht_scheme \<Rightarrow> 'a dht_scheme" where
  "set_table af bs s = (if af = AF_INET then s\<lparr>buckets := bs\<rparr> else s\<lparr>buckets6 := bs\<rparr>)"

text \<open>A bucket as \<^verbatim>\<open>calloc\<close> gives it, with its family.\<close>

definition calloc_bucket :: "nat \<Rightarrow> bucket" where
  "calloc_bucket af = \<lparr>b_af = af, b_first = replicate 20 0, b_count = 0, b_time = 0, b_nodes = [],
     b_cached = replicate 128 0, b_cachedlen = 0\<rparr>"

subsection \<open>Before \<^verbatim>\<open>dht_init\<close>\<close>

text \<open>The static initialisers; what the environment will answer is the parameter.\<close>

definition static_dht :: "nat answers \<Rightarrow> bool answers \<Rightarrow> int answers \<Rightarrow> dht" where
  "static_dht ra ca so =
     \<lparr>dht_socket = - 1, dht_socket6 = - 1, search_time = 0, confirm_nodes_time = 0, rotate_secrets_time = 0,
      myid = replicate 20 0, my_v = None, secret = replicate 8 0, oldsecret = replicate 8 0,
      myneighbours = [], mygroups = [], dtn_my_eid = ascii ''none'', dtn_my_eid_changed = False,
      buckets = [], buckets6 = [], storages = [], numstorage = 0, searches = [], numsearches = 0,
      search_id = 0, blist = replicate DHT_MAX_BLACKLISTED zero_ss, next_blacklisted = 0, now = 0,
      mybucket_grow_time = 0, mybucket6_grow_time = 0, expire_stuff_time = 0, token_bucket_time = 0,
      token_bucket_tokens = 0, extbl = bl_initial, errno = E_OK, rand_src = ra, calloc_src = ca,
      sendto_src = so, trace = [], aborted = False\<rparr>"

end
