(* ===== verification/Messages.thy ===== *)
theory Messages
  imports Dht_State
begin

text \<open>
  The outgoing messages of \<^verbatim>\<open>dht.c\<close>: the bounded buffer under the macros \<^verbatim>\<open>INC\<close>, \<^verbatim>\<open>COPY\<close> and
  \<^verbatim>\<open>ADD_V\<close>, one builder per message, \<^verbatim>\<open>node_blacklisted\<close> and \<^verbatim>\<open>dht_send\<close>. A buffer is the list of
  the bytes before the write offset; \<open>None\<close> is the jump to \<^verbatim>\<open>fail\<close>.
\<close>

subsection \<open>Buffers\<close>

text \<open>
  \<^verbatim>\<open>snprintf(buf + i, size - i, ...)\<close> followed by \<^verbatim>\<open>INC\<close>: the text must fit in what is left;
  when it fills the buffer to the last byte, that byte is the terminating zero instead.
\<close>

definition put_fmt :: "nat \<Rightarrow> mem \<Rightarrow> mem \<Rightarrow> mem option" where
  "put_fmt sz txt buf =
     (if sz < length buf + length txt then None
      else if length buf + length txt = sz \<and> txt \<noteq> [] then Some (buf @ butlast txt @ [0])
      else Some (buf @ txt))"

definition put_mem :: "nat \<Rightarrow> mem \<Rightarrow> mem \<Rightarrow> mem option" where
  "put_mem sz src buf = (if sz < length buf + length src then None else Some (buf @ src))"

definition add_v :: "nat \<Rightarrow> mem option \<Rightarrow> mem \<Rightarrow> mem option" where
  "add_v sz v buf = (case v of None \<Rightarrow> Some buf | Some bs \<Rightarrow> put_mem sz bs buf)"

text \<open>\<^verbatim>\<open>%d\<close> and \<^verbatim>\<open>%u\<close> of a value that is not negative.\<close>

fun dec :: "nat \<Rightarrow> mem" where
  "dec n = (if n < 10 then [word_of_nat (48 + n)] else dec (n div 10) @ [word_of_nat (48 + n mod 10)])"

declare dec.simps [simp del]

definition want_txt :: "int \<Rightarrow> mem" where
  "want_txt want = ascii ''4:wantl'' @ (if want AND 1 \<noteq> 0 then ascii ''2:n4'' else []) @
     (if want AND 2 \<noteq> 0 then ascii ''2:n6'' else []) @ ascii ''e''"

subsection \<open>Sending\<close>

definition node_blacklisted :: "mem \<Rightarrow> nat \<Rightarrow> 'a dht_scheme \<Rightarrow> bool \<times> 'a dht_scheme" where
  "node_blacklisted sa salen s =
     (if sizeof_ss < salen then (False, c_abort s)
      else if blacklist_blacklisted sa (extbl s) then (True, s)
      else ((\<exists>b \<in> set (blist s). memcmp b sa salen = 0), s))"

definition dht_send :: "mem \<Rightarrow> nat \<Rightarrow> mem \<Rightarrow> nat \<Rightarrow> 'a dht_scheme \<Rightarrow> int \<times> 'a dht_scheme" where
  "dht_send buf flags sa salen s =
     (if salen = 0 then (- 1, c_abort s) else
      let (bad, s) = node_blacklisted sa salen s in
      if bad then (- 1, set_errno EPERM s) else
      let sock = (if sa_family sa = AF_INET then dht_socket s
                  else if sa_family sa = AF_INET6 then dht_socket6 s else - 1) in
      if sock < 0 then (- 1, set_errno EAFNOSUPPORT s)
      else c_sendto sock (take salen sa) flags buf s)"

definition MSG_CONFIRM :: nat where "MSG_CONFIRM = 0x800"

text \<open>The common tail of the senders: send the buffer, or fail with \<^verbatim>\<open>ENOSPC\<close>.\<close>

definition send_or_fail ::
  "mem option \<Rightarrow> nat \<Rightarrow> mem \<Rightarrow> nat \<Rightarrow> 'a dht_scheme \<Rightarrow> int \<times> 'a dht_scheme" where
  "send_or_fail buf flags sa salen s =
     (case buf of None \<Rightarrow> (- 1, set_errno ENOSPC s)
      | Some b \<Rightarrow> dht_send b flags sa salen s)"

subsection \<open>Requests and short replies\<close>

definition ping_msg :: "mem \<Rightarrow> mem \<Rightarrow> mem option \<Rightarrow> mem option" where
  "ping_msg tid me v = do {
     b \<leftarrow> put_fmt 512 (ascii ''d1:ad2:id20:'') [];
     b \<leftarrow> put_mem 512 me b;
     b \<leftarrow> put_fmt 512 (ascii ''e1:q4:ping1:t'' @ dec (length tid) @ ascii '':'') b;
     b \<leftarrow> put_mem 512 tid b;
     b \<leftarrow> add_v 512 v b;
     put_fmt 512 (ascii ''1:y1:qe'') b }"

definition send_ping :: "mem \<Rightarrow> nat \<Rightarrow> mem \<Rightarrow> 'a dht_scheme \<Rightarrow> int \<times> 'a dht_scheme" where
  "send_ping sa salen tid s = send_or_fail (ping_msg tid (myid s) (my_v s)) 0 sa salen s"

definition pong_msg :: "mem \<Rightarrow> mem \<Rightarrow> mem option \<Rightarrow> mem option" where
  "pong_msg tid me v = do {
     b \<leftarrow> put_fmt 512 (ascii ''d1:rd2:id20:'') [];
     b \<leftarrow> put_mem 512 me b;
     b \<leftarrow> put_fmt 512 (ascii ''e1:t'' @ dec (length tid) @ ascii '':'') b;
     b \<leftarrow> put_mem 512 tid b;
     b \<leftarrow> add_v 512 v b;
     put_fmt 512 (ascii ''1:y1:re'') b }"

definition send_pong :: "mem \<Rightarrow> nat \<Rightarrow> mem \<Rightarrow> 'a dht_scheme \<Rightarrow> int \<times> 'a dht_scheme" where
  "send_pong sa salen tid s = send_or_fail (pong_msg tid (myid s) (my_v s)) 0 sa salen s"

definition find_node_msg :: "mem \<Rightarrow> mem \<Rightarrow> int \<Rightarrow> mem \<Rightarrow> mem option \<Rightarrow> mem option" where
  "find_node_msg tid target want me v = do {
     b \<leftarrow> put_fmt 512 (ascii ''d1:ad2:id20:'') [];
     b \<leftarrow> put_mem 512 me b;
     b \<leftarrow> put_fmt 512 (ascii ''6:target20:'') b;
     b \<leftarrow> put_mem 512 target b;
     b \<leftarrow> (if want > 0 then put_fmt 512 (want_txt want) b else Some b);
     b \<leftarrow> put_fmt 512 (ascii ''e1:q9:find_node1:t'' @ dec (length tid) @ ascii '':'') b;
     b \<leftarrow> put_mem 512 tid b;
     b \<leftarrow> add_v 512 v b;
     put_fmt 512 (ascii ''1:y1:qe'') b }"

definition send_find_node ::
  "mem \<Rightarrow> nat \<Rightarrow> mem \<Rightarrow> mem \<Rightarrow> int \<Rightarrow> bool \<Rightarrow> 'a dht_scheme \<Rightarrow> int \<times> 'a dht_scheme" where
  "send_find_node sa salen tid target want confirm s =
     send_or_fail (find_node_msg tid target want (myid s) (my_v s))
       (if confirm then MSG_CONFIRM else 0) sa salen s"

definition get_peers_msg :: "mem \<Rightarrow> mem \<Rightarrow> int \<Rightarrow> mem \<Rightarrow> mem option \<Rightarrow> mem option" where
  "get_peers_msg tid infohash want me v = do {
     b \<leftarrow> put_fmt 512 (ascii ''d1:ad2:id20:'') [];
     b \<leftarrow> put_mem 512 me b;
     b \<leftarrow> put_fmt 512 (ascii ''9:info_hash20:'') b;
     b \<leftarrow> put_mem 512 infohash b;
     b \<leftarrow> (if want > 0 then put_fmt 512 (want_txt want) b else Some b);
     b \<leftarrow> put_fmt 512 (ascii ''e1:q9:get_peers1:t'' @ dec (length tid) @ ascii '':'') b;
     b \<leftarrow> put_mem 512 tid b;
     b \<leftarrow> add_v 512 v b;
     put_fmt 512 (ascii ''1:y1:qe'') b }"

definition send_get_peers ::
  "mem \<Rightarrow> nat \<Rightarrow> mem \<Rightarrow> mem \<Rightarrow> int \<Rightarrow> bool \<Rightarrow> 'a dht_scheme \<Rightarrow> int \<times> 'a dht_scheme" where
  "send_get_peers sa salen tid infohash want confirm s =
     send_or_fail (get_peers_msg tid infohash want (myid s) (my_v s))
       (if confirm then MSG_CONFIRM else 0) sa salen s"

definition announce_peer_msg :: "mem \<Rightarrow> mem \<Rightarrow> nat \<Rightarrow> mem \<Rightarrow> mem \<Rightarrow> mem option \<Rightarrow> mem option" where
  "announce_peer_msg tid infohash port token me v = do {
     b \<leftarrow> put_fmt 512 (ascii ''d1:ad2:id20:'') [];
     b \<leftarrow> put_mem 512 me b;
     b \<leftarrow> put_fmt 512 (ascii ''9:info_hash20:'') b;
     b \<leftarrow> put_mem 512 infohash b;
     b \<leftarrow> put_fmt 512 (ascii ''4:porti'' @ dec port @ ascii ''e5:token'' @ dec (length token) @ ascii '':'') b;
     b \<leftarrow> put_mem 512 token b;
     b \<leftarrow> put_fmt 512 (ascii ''e1:q13:announce_peer1:t'' @ dec (length tid) @ ascii '':'') b;
     b \<leftarrow> put_mem 512 tid b;
     b \<leftarrow> add_v 512 v b;
     put_fmt 512 (ascii ''1:y1:qe'') b }"

text \<open>The flag is inverted here, as in the source.\<close>

definition send_announce_peer ::
  "mem \<Rightarrow> nat \<Rightarrow> mem \<Rightarrow> mem \<Rightarrow> nat \<Rightarrow> mem \<Rightarrow> bool \<Rightarrow> 'a dht_scheme \<Rightarrow> int \<times> 'a dht_scheme" where
  "send_announce_peer sa salen tid infohash port token confirm s =
     send_or_fail (announce_peer_msg tid infohash port token (myid s) (my_v s))
       (if confirm then 0 else MSG_CONFIRM) sa salen s"

definition send_peer_announced :: "mem \<Rightarrow> nat \<Rightarrow> mem \<Rightarrow> 'a dht_scheme \<Rightarrow> int \<times> 'a dht_scheme" where
  "send_peer_announced sa salen tid s = send_or_fail (pong_msg tid (myid s) (my_v s)) 0 sa salen s"

definition error_msg :: "mem \<Rightarrow> nat \<Rightarrow> mem \<Rightarrow> mem option \<Rightarrow> mem option" where
  "error_msg tid code message v = do {
     b \<leftarrow> put_fmt 512 (ascii ''d1:eli'' @ dec code @ ascii ''e'' @ dec (length message) @ ascii '':'') [];
     b \<leftarrow> put_mem 512 message b;
     b \<leftarrow> put_fmt 512 (ascii ''e1:t'' @ dec (length tid) @ ascii '':'') b;
     b \<leftarrow> put_mem 512 tid b;
     b \<leftarrow> add_v 512 v b;
     put_fmt 512 (ascii ''1:y1:ee'') b }"

definition send_error ::
  "mem \<Rightarrow> nat \<Rightarrow> mem \<Rightarrow> nat \<Rightarrow> mem \<Rightarrow> 'a dht_scheme \<Rightarrow> int \<times> 'a dht_scheme" where
  "send_error sa salen tid code message s =
     send_or_fail (error_msg tid code message (my_v s)) 0 sa salen s"

subsection \<open>The DTN messages\<close>

definition get_dtninfo_msg :: "mem \<Rightarrow> mem \<Rightarrow> mem option \<Rightarrow> mem option" where
  "get_dtninfo_msg tid eid v = do {
     b \<leftarrow> put_fmt 1076 (ascii ''d1:ad3:eid'' @ dec (length eid) @ ascii '':'') [];
     b \<leftarrow> put_mem 1076 eid b;
     b \<leftarrow> put_fmt 1076 (ascii ''e1:q3:dtn1:t'' @ dec (length tid) @ ascii '':'') b;
     b \<leftarrow> put_mem 1076 tid b;
     b \<leftarrow> add_v 1076 v b;
     put_fmt 1076 (ascii ''1:y1:qe'') b }"

definition send_get_dtninfo ::
  "mem \<Rightarrow> nat \<Rightarrow> mem \<Rightarrow> mem \<Rightarrow> 'a dht_scheme \<Rightarrow> int \<times> 'a dht_scheme" where
  "send_get_dtninfo sa salen tid eid s =
     send_or_fail (get_dtninfo_msg tid eid (my_v s)) 0 sa salen s"

fun put_args :: "nat \<Rightarrow> cl_arg list \<Rightarrow> mem \<Rightarrow> mem option" where
  "put_args sz [] b = Some b"
| "put_args sz (a # as) b = do {
     b \<leftarrow> put_mem sz (arg_key a) b;
     b \<leftarrow> put_mem sz (ascii ''='') b;
     b \<leftarrow> put_mem sz (arg_value a) b;
     b \<leftarrow> put_mem sz (ascii '';'') b;
     put_args sz as b }"

definition args_len :: "cl_arg list \<Rightarrow> nat" where
  "args_len as = (\<Sum>a \<leftarrow> as. length (arg_key a) + 1 + length (arg_value a) + 1)"

fun put_cls :: "nat \<Rightarrow> convergence_layer list \<Rightarrow> mem \<Rightarrow> mem option" where
  "put_cls sz [] b = Some b"
| "put_cls sz (c # cs) b = do {
     b \<leftarrow> put_fmt sz (dec (6 + length (clname c) + args_len (cl_args c)) @ ascii '':name='') b;
     b \<leftarrow> put_mem sz (clname c) b;
     b \<leftarrow> put_mem sz (ascii '';'') b;
     b \<leftarrow> put_args sz (cl_args c) b;
     put_cls sz cs b }"

fun put_eids :: "nat \<Rightarrow> mem list \<Rightarrow> mem \<Rightarrow> mem option" where
  "put_eids sz [] b = Some b"
| "put_eids sz (e # es) b = do {
     b \<leftarrow> put_fmt sz (dec (length e) @ ascii '':'') b;
     b \<leftarrow> put_mem sz e b;
     put_eids sz es b }"

definition dtninfo_msg ::
  "mem \<Rightarrow> mem \<Rightarrow> convergence_layer list \<Rightarrow> mem list \<Rightarrow> mem list \<Rightarrow> mem option" where
  "dtninfo_msg tid eid cls nbs grs = do {
     b \<leftarrow> put_fmt 4096 (ascii ''d1:rd2:cll'') [];
     b \<leftarrow> put_cls 4096 cls b;
     b \<leftarrow> put_fmt 4096 (ascii ''e3:eid'' @ dec (length eid) @ ascii '':'') b;
     b \<leftarrow> put_mem 4096 eid b;
     b \<leftarrow> put_fmt 4096 (ascii ''2:grl'') b;
     b \<leftarrow> put_eids 4096 grs b;
     b \<leftarrow> put_fmt 4096 (ascii ''e2:nbl'') b;
     b \<leftarrow> put_eids 4096 nbs b;
     b \<leftarrow> put_fmt 4096 (ascii ''ee1:t'' @ dec (length tid) @ ascii '':'') b;
     b \<leftarrow> put_mem 4096 tid b;
     put_fmt 4096 (ascii ''1:y1:re'') b }"

definition send_dtninfo ::
  "mem \<Rightarrow> nat \<Rightarrow> mem \<Rightarrow> mem \<Rightarrow> convergence_layer list \<Rightarrow> mem list \<Rightarrow> mem list \<Rightarrow>
     'a dht_scheme \<Rightarrow> int \<times> 'a dht_scheme" where
  "send_dtninfo sa salen tid eid cls nbs grs s =
     send_or_fail (dtninfo_msg tid eid cls nbs grs) 0 sa salen s"

definition dht_ping_node :: "mem \<Rightarrow> nat \<Rightarrow> 'a dht_scheme \<Rightarrow> int \<times> 'a dht_scheme" where
  "dht_ping_node sa salen s = send_ping sa salen (make_tid (ascii ''pn'') 0) s"

definition dht_ping_dtn_node :: "mem \<Rightarrow> nat \<Rightarrow> 'a dht_scheme \<Rightarrow> int \<times> 'a dht_scheme" where
  "dht_ping_dtn_node sa salen s =
     send_get_dtninfo sa salen (make_tid (ascii ''pn'') 0) (dtn_my_eid s) s"


subsection \<open>Sending changes nothing but what is visible\<close>

text \<open>A step that touches only \<^verbatim>\<open>errno\<close>, the visible actions and the answers to \<^verbatim>\<open>sendto\<close>.\<close>

definition quiet :: "'a dht_scheme \<Rightarrow> 'a dht_scheme \<Rightarrow> bool" where
  "quiet s s' \<longleftrightarrow> (\<exists>e a t so. s' = s\<lparr>errno := e, aborted := a, trace := t, sendto_src := so\<rparr>)"

lemma quiet_refl [simp, intro]: "quiet s s"
  unfolding quiet_def
  by (intro exI [of _ "errno s"] exI [of _ "aborted s"] exI [of _ "trace s"] exI [of _ "sendto_src s"]) simp

lemma quiet_trans: "quiet s t \<Longrightarrow> quiet t u \<Longrightarrow> quiet s u"
  unfolding quiet_def by (elim exE) (simp, blast)

lemma quiet_fields [state_simps]:
  assumes "quiet s s'"
  shows "buckets s' = buckets s" "buckets6 s' = buckets6 s" "myid s' = myid s" "now s' = now s"
    "storages s' = storages s" "numstorage s' = numstorage s" "searches s' = searches s"
    "numsearches s' = numsearches s" "blist s' = blist s" "extbl s' = extbl s"
    "next_blacklisted s' = next_blacklisted s" "my_v s' = my_v s" "secret s' = secret s"
    "oldsecret s' = oldsecret s" "rand_src s' = rand_src s" "calloc_src s' = calloc_src s"
    "dht_socket s' = dht_socket s" "dht_socket6 s' = dht_socket6 s"
    "dtn_my_eid s' = dtn_my_eid s" "table af s' = table af s"
    "mygroups s' = mygroups s" "myneighbours s' = myneighbours s"
    "token_bucket_time s' = token_bucket_time s" "token_bucket_tokens s' = token_bucket_tokens s"
    "search_id s' = search_id s" "search_time s' = search_time s"
    "dtn_my_eid_changed s' = dtn_my_eid_changed s"
    "confirm_nodes_time s' = confirm_nodes_time s" "rotate_secrets_time s' = rotate_secrets_time s"
    "expire_stuff_time s' = expire_stuff_time s" "dht.more s' = dht.more s"
  using assms by (auto simp: quiet_def table_def)

lemma quiet_set_errno [simp, intro]: "quiet s (set_errno e s)"
  unfolding quiet_def set_errno_def
  by (intro exI [of _ e] exI [of _ "aborted s"] exI [of _ "trace s"] exI [of _ "sendto_src s"]) simp

lemma quiet_abort [simp, intro]: "quiet s (c_abort s)"
  unfolding quiet_def c_abort_def
  by (intro exI [of _ "errno s"] exI [of _ True] exI [of _ "trace s"] exI [of _ "sendto_src s"]) simp

lemma quiet_visible [simp, intro]: "quiet s (visible a s)"
  unfolding quiet_def visible_def
  by (intro exI [of _ "errno s"] exI [of _ "aborted s"]
      exI [of _ "if aborted s then trace s else trace s @ [a]"] exI [of _ "sendto_src s"]) simp

lemma quiet_sendto [simp, intro]: "quiet s (snd (c_sendto k to fl buf s))"
proof -
  have "quiet (visible a s) ((visible a s)\<lparr>sendto_src := so\<rparr>)" for a so
    unfolding quiet_def
    by (intro exI [of _ "errno (visible a s)"] exI [of _ "aborted (visible a s)"]
        exI [of _ "trace (visible a s)"] exI [of _ so]) simp
  from quiet_trans [OF quiet_visible this] show ?thesis by (simp add: c_sendto_def)
qed

lemma quiet_node_blacklisted [simp, intro]: "quiet s (snd (node_blacklisted sa n s))"
  by (simp add: node_blacklisted_def)

lemma node_blacklisted_state: "n \<le> sizeof_ss \<Longrightarrow> snd (node_blacklisted sa n s) = s"
  by (simp add: node_blacklisted_def)

lemma quiet_dht_send [simp, intro]: "quiet s (snd (dht_send buf fl sa n s))"
proof -
  have q: "quiet s (snd (node_blacklisted sa n s))" by simp
  show ?thesis
    using q quiet_trans [OF q quiet_sendto] quiet_trans [OF q quiet_set_errno]
    by (auto simp: dht_send_def Let_def split: prod.splits)
qed

lemma quiet_send_or_fail [simp, intro]: "quiet s (snd (send_or_fail m fl sa n s))"
  by (simp add: send_or_fail_def split: option.split)

lemma quiet_sends [simp, intro]:
  "quiet s (snd (send_ping sa n tid s))"
  "quiet s (snd (send_pong sa n tid s))"
  "quiet s (snd (send_find_node sa n tid tgt w c s))"
  "quiet s (snd (send_get_peers sa n tid h w c s))"
  "quiet s (snd (send_announce_peer sa n tid h p tok c s))"
  "quiet s (snd (send_peer_announced sa n tid s))"
  "quiet s (snd (send_error sa n tid code m s))"
  "quiet s (snd (send_get_dtninfo sa n tid eid s))"
  "quiet s (snd (send_dtninfo sa n tid eid cls nbs grs s))"
  by (simp_all add: send_ping_def send_pong_def send_find_node_def send_get_peers_def
      send_announce_peer_def send_peer_announced_def send_error_def send_get_dtninfo_def send_dtninfo_def)

lemmas send_frame [simp] =
  quiet_fields [OF quiet_sends(1)] quiet_fields [OF quiet_sends(2)] quiet_fields [OF quiet_sends(3)]
  quiet_fields [OF quiet_sends(4)] quiet_fields [OF quiet_sends(5)] quiet_fields [OF quiet_sends(6)]
  quiet_fields [OF quiet_sends(7)] quiet_fields [OF quiet_sends(8)] quiet_fields [OF quiet_sends(9)]
  quiet_fields [OF quiet_node_blacklisted] quiet_fields [OF quiet_abort] quiet_fields [OF quiet_set_errno]

subsection \<open>No abort\<close>

lemma aborted_visible [simp]: "aborted (visible a s) = aborted s"
  by (simp add: visible_def)

lemma aborted_sendto [simp]: "aborted (snd (c_sendto k to fl buf s)) = aborted s"
  by (simp add: c_sendto_def)

lemma aborted_set_errno [simp]: "aborted (set_errno e s) = aborted s"
  by (simp add: set_errno_def)

lemma aborted_dht_send:
  "0 < n \<Longrightarrow> n \<le> sizeof_ss \<Longrightarrow> aborted (snd (dht_send buf fl sa n s)) = aborted s"
  by (auto simp: dht_send_def Let_def node_blacklisted_def split: prod.splits)

lemma aborted_send_or_fail:
  "0 < n \<Longrightarrow> n \<le> sizeof_ss \<Longrightarrow> aborted (snd (send_or_fail m fl sa n s)) = aborted s"
  by (simp add: send_or_fail_def aborted_dht_send split: option.split)

lemma aborted_sends [simp]:
  assumes "0 < n" "n \<le> sizeof_ss"
  shows "aborted (snd (send_ping sa n tid s)) = aborted s"
    "aborted (snd (send_pong sa n tid s)) = aborted s"
    "aborted (snd (send_find_node sa n tid tgt w c s)) = aborted s"
    "aborted (snd (send_get_peers sa n tid h w c s)) = aborted s"
    "aborted (snd (send_announce_peer sa n tid h p tok c s)) = aborted s"
    "aborted (snd (send_peer_announced sa n tid s)) = aborted s"
    "aborted (snd (send_error sa n tid code m s)) = aborted s"
    "aborted (snd (send_get_dtninfo sa n tid eid s)) = aborted s"
    "aborted (snd (send_dtninfo sa n tid eid cls nbs grs s)) = aborted s"
  using assms
  by (simp_all add: send_ping_def send_pong_def send_find_node_def send_get_peers_def aborted_send_or_fail
      send_announce_peer_def send_peer_announced_def send_error_def send_get_dtninfo_def send_dtninfo_def)

end
