(* ===== verification/Routing.thy ===== *)
theory Routing
  imports Messages
begin

text \<open>
  The routing table of \<^verbatim>\<open>dht.c\<close>: the two sorted lists of buckets and their nodes. A bucket
  pointer is the position in the list of its address family, a node pointer the positions
  of the bucket and of the node in it.
\<close>

subsection \<open>Finding\<close>

fun find_bucket_in :: "mem \<Rightarrow> bucket list \<Rightarrow> nat option" where
  "find_bucket_in x [] = None"
| "find_bucket_in x [b] = Some 0"
| "find_bucket_in x (b # b' # bs) =
     (if id_cmp x (b_first b') < 0 then Some 0 else map_option Suc (find_bucket_in x (b' # bs)))"

definition find_bucket :: "mem \<Rightarrow> nat \<Rightarrow> 'a dht_scheme \<Rightarrow> nat option" where
  "find_bucket x af s = find_bucket_in x (table af s)"

definition in_bucket :: "mem \<Rightarrow> bucket list \<Rightarrow> nat \<Rightarrow> bool" where
  "in_bucket x bs i \<longleftrightarrow> id_cmp (b_first (bs ! i)) x \<le> 0 \<and>
     (Suc i = length bs \<or> id_cmp x (b_first (bs ! Suc i)) < 0)"

definition previous_bucket :: "nat \<Rightarrow> nat option" where
  "previous_bucket i = (if i = 0 then None else Some (i - 1))"

definition find_node :: "mem \<Rightarrow> nat \<Rightarrow> 'a dht_scheme \<Rightarrow> (nat \<times> nat) option" where
  "find_node x af s =
     (case find_bucket x af s of None \<Rightarrow> None
      | Some i \<Rightarrow> map_option (Pair i)
          (find_index (\<lambda>n. id_cmp (n_id n) x = 0) (b_nodes (table af s ! i))))"

definition random_node :: "bucket \<Rightarrow> 'a dht_scheme \<Rightarrow> nat option \<times> 'a dht_scheme" where
  "random_node b s =
     (if b_count b = 0 then (None, s)
      else let (r, s) = c_random s; nn = nat (int r mod b_count b)
           in (if nn < length (b_nodes b) then Some nn else None, s))"

text \<open>\<open>nxt\<close> is the first identifier of the next bucket, if there is one.\<close>

definition split_bit :: "mem \<Rightarrow> mem option \<Rightarrow> int" where
  "split_bit first nxt =
     max (lowbit first) (case nxt of None \<Rightarrow> - 1 | Some f \<Rightarrow> lowbit f) + 1"

definition bucket_middle :: "mem \<Rightarrow> mem option \<Rightarrow> mem option" where
  "bucket_middle first nxt =
     (let bit = split_bit first nxt in
      if 160 \<le> bit then None
      else let k = nat bit in
        Some (update_at (k div 8) (\<lambda>b. b OR drop_bit (k mod 8) 0x80) (take 20 first)))"

fun random_bytes :: "nat \<Rightarrow> 'a dht_scheme \<Rightarrow> mem \<times> 'a dht_scheme" where
  "random_bytes 0 s = ([], s)"
| "random_bytes (Suc n) s =
     (let (r, s) = c_random s; (rs, s) = random_bytes n s in (word_of_nat r # rs, s))"

definition bucket_random :: "mem \<Rightarrow> mem option \<Rightarrow> 'a dht_scheme \<Rightarrow> mem \<times> 'a dht_scheme" where
  "bucket_random first nxt s =
     (let bit = split_bit first nxt in
      if 160 \<le> bit then (take 20 first, s)
      else let k = nat bit; (r, s) = c_random s;
               byte = (rd first (k div 8) AND word_of_nat (0xFF00 div 2 ^ (k mod 8))) OR
                      (word_of_nat r AND word_of_nat (0xFF div 2 ^ (k mod 8)));
               (rs, s) = random_bytes (19 - k div 8) s
           in (take (k div 8) first @ [byte] @ rs, s))"

definition next_first :: "bucket list \<Rightarrow> nat \<Rightarrow> mem option" where
  "next_first bs i = (if Suc i < length bs then Some (b_first (bs ! Suc i)) else None)"

definition node_good :: "int \<Rightarrow> node \<Rightarrow> bool" where
  "node_good t n \<longleftrightarrow> n_pinged n \<le> 2 \<and> n_reply_time n \<ge> t - 7200 \<and> n_time n \<ge> t - 900"

subsection \<open>Updating buckets and nodes\<close>

definition upd_bucket :: "nat \<Rightarrow> nat \<Rightarrow> (bucket \<Rightarrow> bucket) \<Rightarrow> 'a dht_scheme \<Rightarrow> 'a dht_scheme" where
  "upd_bucket af i f s = set_table af (update_at i f (table af s)) s"

definition upd_node :: "nat \<Rightarrow> nat \<Rightarrow> nat \<Rightarrow> (node \<Rightarrow> node) \<Rightarrow> 'a dht_scheme \<Rightarrow> 'a dht_scheme" where
  "upd_node af i j f = upd_bucket af i (\<lambda>b. b\<lparr>b_nodes := update_at j f (b_nodes b)\<rparr>)"

definition push_node :: "node \<Rightarrow> bucket \<Rightarrow> bucket" where
  "push_node n b = b\<lparr>b_nodes := n # b_nodes b, b_count := b_count b + 1\<rparr>"

definition insert_node :: "node \<Rightarrow> 'a dht_scheme \<Rightarrow> 'a dht_scheme" where
  "insert_node n s =
     (case find_bucket (n_id n) (sa_family (n_ss n)) s of None \<Rightarrow> s
      | Some i \<Rightarrow> upd_bucket (sa_family (n_ss n)) i (push_node n) s)"

definition send_cached_ping :: "nat \<Rightarrow> nat \<Rightarrow> 'a dht_scheme \<Rightarrow> int \<times> 'a dht_scheme" where
  "send_cached_ping af i s =
     (let b = table af s ! i in
      if sa_family (b_cached b) = 0 then (0, s)
      else let (rc, s) = send_ping (b_cached b) (b_cachedlen b) (make_tid (ascii ''pn'') 0) s
           in (rc, upd_bucket af i (\<lambda>b. b\<lparr>b_cached := set_family 0 (b_cached b), b_cachedlen := 0\<rparr>) s))"

text \<open>
  \<^verbatim>\<open>pinged(n, b)\<close> for the node at position \<open>(i, j)\<close>; \<open>q\<close> is the bucket argument. A null bucket
  would be dereferenced.
\<close>

definition pinged :: "nat \<Rightarrow> nat \<Rightarrow> nat \<Rightarrow> nat option \<Rightarrow> 'a dht_scheme \<Rightarrow> 'a dht_scheme" where
  "pinged af i j q s =
     (let s = upd_node af i j (\<lambda>n. n\<lparr>n_pinged := n_pinged n + 1, n_pinged_time := now s\<rparr>) s;
          n = b_nodes (table af s ! i) ! j
      in if n_pinged n \<ge> 3 then
           (case q of Some k \<Rightarrow> snd (send_cached_ping af k s)
            | None \<Rightarrow> (case find_bucket (n_id n) (sa_family (n_ss n)) s of
                 None \<Rightarrow> c_abort s
               | Some k \<Rightarrow> snd (send_cached_ping (sa_family (n_ss n)) k s)))
         else s)"

subsection \<open>Splitting\<close>

definition split_bucket :: "nat \<Rightarrow> nat \<Rightarrow> 'a dht_scheme \<Rightarrow> bool \<times> 'a dht_scheme" where
  "split_bucket af i s =
     (let b = table af s ! i in
      case bucket_middle (b_first b) (next_first (table af s) i) of
        None \<Rightarrow> (False, s)
      | Some new_id \<Rightarrow>
         (let (ok, s) = c_calloc s in
          if \<not> ok then (False, s) else
          let s = snd (send_cached_ping af i s);
              b = table af s ! i;
              new = \<lparr>b_af = b_af b, b_first = new_id, b_count = 0, b_time = b_time b,
                     b_nodes = [], b_cached = zero_ss, b_cachedlen = 0\<rparr>;
              nodes = b_nodes b;
              bs = table af s;
              s = set_table af (take i bs @ b\<lparr>b_nodes := [], b_count := 0\<rparr> # new # drop (Suc i) bs) s
          in (True, fold insert_node nodes s)))"

subsection \<open>Learning about a node\<close>

text \<open>The scan for a dubious node: whether there is one, and the position of the one to ping.\<close>

fun dubious_scan :: "int \<Rightarrow> node list \<Rightarrow> bool \<times> nat option" where
  "dubious_scan t [] = (False, None)"
| "dubious_scan t (n # ns) =
     (if \<not> node_good t n then
        (if n_pinged_time n < t - 15 then (True, Some 0)
         else (True, map_option Suc (snd (dubious_scan t ns))))
      else (case dubious_scan t ns of (d, p) \<Rightarrow> (d, map_option Suc p)))"

definition ping_dubious :: "nat \<Rightarrow> nat \<Rightarrow> 'a dht_scheme \<Rightarrow> bool \<times> 'a dht_scheme" where
  "ping_dubious af i s =
     (let ns = b_nodes (table af s ! i); (dubious, p) = dubious_scan (now s) ns in
      case p of None \<Rightarrow> (dubious, s)
      | Some j \<Rightarrow>
         (let (_, s) = send_ping (n_ss (ns ! j)) (n_sslen (ns ! j)) (make_tid (ascii ''pn'') 0) s
          in (dubious, upd_node af i j
                (\<lambda>n. n\<lparr>n_pinged := n_pinged n + 1, n_pinged_time := now s\<rparr>) s)))"

definition confirm_known :: "mem \<Rightarrow> nat \<Rightarrow> int \<Rightarrow> int \<Rightarrow> node \<Rightarrow> node" where
  "confirm_known sa salen confirm t n =
     (if confirm \<noteq> 0 \<or> n_time n < t - 15 * 60 then
        (let n = n\<lparr>n_ss := memcpy (n_ss n) 0 sa salen\<rparr>;
             n = (if confirm \<noteq> 0 then n\<lparr>n_time := t\<rparr> else n)
         in if confirm \<ge> 2 then n\<lparr>n_reply_time := t, n_pinged := 0, n_pinged_time := 0\<rparr> else n)
      else n)"

definition replace_bad :: "mem \<Rightarrow> mem \<Rightarrow> nat \<Rightarrow> int \<Rightarrow> int \<Rightarrow> node \<Rightarrow> node" where
  "replace_bad x sa salen confirm t n =
     n\<lparr>n_id := take 20 x, n_ss := memcpy (n_ss n) 0 sa salen,
       n_time := (if confirm \<noteq> 0 then t else 0),
       n_reply_time := (if confirm \<ge> 2 then t else 0), n_pinged_time := 0, n_pinged := 0\<rparr>"

definition fresh_node :: "mem \<Rightarrow> mem \<Rightarrow> nat \<Rightarrow> int \<Rightarrow> int \<Rightarrow> node" where
  "fresh_node x sa salen confirm t =
     \<lparr>n_id = take 20 x, n_ss = memcpy zero_ss 0 sa salen, n_sslen = salen,
      n_time = (if confirm \<noteq> 0 then t else 0),
      n_reply_time = (if confirm \<ge> 2 then t else 0), n_pinged_time = 0, n_pinged = 0\<rparr>"

text \<open>
  \<^verbatim>\<open>new_node\<close> calls itself after a split. The first argument bounds the depth of that
  recursion; using it up is the stack overflow of a recursion that never ends.
\<close>

fun new_node_rec ::
  "nat \<Rightarrow> mem \<Rightarrow> mem \<Rightarrow> nat \<Rightarrow> int \<Rightarrow> 'a dht_scheme \<Rightarrow> (nat \<times> nat) option \<times> 'a dht_scheme" where
  "new_node_rec 0 x sa salen confirm s = (None, c_abort s)"
| "new_node_rec (Suc fuel) x sa salen confirm s =
     (let af = sa_family sa in
      case find_bucket x af s of None \<Rightarrow> (None, s)
      | Some i \<Rightarrow>
        if id_cmp x (myid s) = 0 then (None, s)
        else if is_martian sa then (None, s)
        else
          let (bad, s) = node_blacklisted sa salen s in
          if bad then (None, s)
          else
            let mybucket = in_bucket (myid s) (table af s) i;
                s = (if confirm = 2 then upd_bucket af i (\<lambda>b. b\<lparr>b_time := c_int (now s)\<rparr>) s else s);
                b = table af s ! i
            in case find_index (\<lambda>n. id_cmp (n_id n) x = 0) (b_nodes b) of
                 Some j \<Rightarrow> (Some (i, j), upd_node af i j (confirm_known sa salen confirm (now s)) s)
               | None \<Rightarrow>
                 let s = (if mybucket then
                            (if af = AF_INET then s\<lparr>mybucket_grow_time := now s\<rparr>
                             else s\<lparr>mybucket6_grow_time := now s\<rparr>) else s)
                 in case find_index (\<lambda>n. n_pinged n \<ge> 3 \<and> n_pinged_time n < now s - 15) (b_nodes b) of
                      Some j \<Rightarrow> (Some (i, j), upd_node af i j (replace_bad x sa salen confirm (now s)) s)
                    | None \<Rightarrow>
                      if b_count b \<ge> 8 then
                        let (dubious, s) = ping_dubious af i s;
                            split = (mybucket \<and>
                              (\<not> dubious \<or> (b_af b = AF_INET \<and> length (buckets s) = 1) \<or>
                               (b_af b = AF_INET6 \<and> length (buckets6 s) = 1)))
                        in if split then
                             let (_, s) = split_bucket af i s
                             in new_node_rec fuel x sa salen confirm s
                           else
                             (None,
                              if confirm \<noteq> 0 \<or> sa_family (b_cached (table af s ! i)) = 0
                              then upd_bucket af i (\<lambda>b. b\<lparr>b_cached := memcpy (b_cached b) 0 sa salen,
                                     b_cachedlen := salen\<rparr>) s
                              else s)
                      else
                        let (ok, s) = c_calloc s in
                        if \<not> ok then (None, s)
                        else (Some (i, 0), upd_bucket af i (push_node (fresh_node x sa salen confirm (now s))) s))"

declare new_node_rec.simps [simp del]

definition new_node_depth :: nat where "new_node_depth = 200"

definition new_node ::
  "mem \<Rightarrow> mem \<Rightarrow> nat \<Rightarrow> int \<Rightarrow> 'a dht_scheme \<Rightarrow> (nat \<times> nat) option \<times> 'a dht_scheme" where
  "new_node = new_node_rec new_node_depth"

definition dht_insert_node :: "mem \<Rightarrow> mem \<Rightarrow> nat \<Rightarrow> 'a dht_scheme \<Rightarrow> int \<times> 'a dht_scheme" where
  "dht_insert_node x sa salen s =
     (if sa_family sa \<noteq> AF_INET then (- 1, set_errno EAFNOSUPPORT s)
      else let (n, s) = new_node x sa salen 0 s in (if n = None then 0 else 1, s))"

subsection \<open>Expiry\<close>

text \<open>The two loops that unlink the nodes with four unanswered pings are one filter.\<close>

definition expire_bucket :: "bucket \<Rightarrow> bucket" where
  "expire_bucket b =
     (let keep = filter (\<lambda>n. n_pinged n < 4) (b_nodes b)
      in b\<lparr>b_nodes := keep, b_count := b_count b - int (length (b_nodes b) - length keep)\<rparr>)"

fun expire_from :: "nat \<Rightarrow> nat list \<Rightarrow> 'a dht_scheme \<Rightarrow> 'a dht_scheme" where
  "expire_from af [] s = s"
| "expire_from af (i # is) s =
     (let changed = (\<exists>n \<in> set (b_nodes (table af s ! i)). n_pinged n \<ge> 4);
          s = upd_bucket af i expire_bucket s;
          s = (if changed then snd (send_cached_ping af i s) else s)
      in expire_from af is s)"

definition expire_buckets :: "nat \<Rightarrow> 'a dht_scheme \<Rightarrow> 'a dht_scheme" where
  "expire_buckets af s =
     (let s = expire_from af [0..<length (table af s)] s; (r, s) = c_random s
      in s\<lparr>expire_stuff_time := now s + 120 + int (r mod 240)\<rparr>)"

subsection \<open>Counting and listing\<close>

definition dht_nodes :: "nat \<Rightarrow> 'a dht_scheme \<Rightarrow> nat \<times> nat \<times> nat \<times> nat \<times> nat" where
  "dht_nodes af s =
     (let ns = concat (map b_nodes (table af s));
          good = length (filter (node_good (now s)) ns);
          dubious = length (filter (\<lambda>n. \<not> node_good (now s) n) ns);
          cached = length (filter (\<lambda>b. sa_family (b_cached b) > 0) (table af s));
          incoming = length (filter (\<lambda>n. node_good (now s) n \<and> n_time n > n_reply_time n) ns)
      in (good, dubious, cached, incoming, good + dubious))"

text \<open>One address family of \<^verbatim>\<open>dht_get_nodes\<close>: our own bucket first, then the others in order.\<close>

definition get_nodes_af :: "nat \<Rightarrow> nat \<Rightarrow> 'a dht_scheme \<Rightarrow> mem list" where
  "get_nodes_af af num s =
     (case find_bucket (myid s) af s of None \<Rightarrow> []
      | Some i \<Rightarrow>
         (let bs = table af s;
              good = (\<lambda>b. filter (node_good (now s)) (b_nodes b));
              others = map (\<lambda>k. bs ! k) (filter (\<lambda>k. \<not> in_bucket (myid s) bs k) [0..<length bs])
          in map n_ss (take num (good (bs ! i) @ concat (map good others)))))"

definition dht_get_nodes :: "nat \<Rightarrow> nat \<Rightarrow> 'a dht_scheme \<Rightarrow> mem list \<times> mem list" where
  "dht_get_nodes num num6 s =
     (map (take sizeof_sin) (get_nodes_af AF_INET num s),
      map (take sizeof_sin6) (get_nodes_af AF_INET6 num6 s))"

end
