(* ===== verification/Searches.thy ===== *)
theory Searches
  imports Routing Interfaces
begin

text \<open>
  The searches of \<^verbatim>\<open>dht.c\<close>: their candidate lists, the requests they send, their steps, and the
  internal blacklist, which also cleans them. A pointer to a search is its position in the
  list, a pointer to one of its nodes the position in the used part of its array.
\<close>

subsection \<open>The candidate list\<close>

definition find_search :: "16 word \<Rightarrow> nat \<Rightarrow> 'a dht_scheme \<Rightarrow> nat option" where
  "find_search tid af s = find_index (\<lambda>sr. sr_tid sr = tid \<and> sr_af sr = af) (searches s)"

text \<open>The first loop of \<^verbatim>\<open>insert_search_node\<close>: found, or the place of the new node.\<close>

fun search_slot :: "mem \<Rightarrow> mem \<Rightarrow> search_node list \<Rightarrow> bool \<times> nat" where
  "search_slot x ref [] = (False, 0)"
| "search_slot x ref (n # ns) =
     (if id_cmp x (sn_id n) = 0 then (True, 0)
      else if xorcmp x (sn_id n) ref < 0 then (False, 0)
      else let (found, i) = search_slot x ref ns in (found, Suc i))"

definition fresh_search_node :: "mem \<Rightarrow> search_node" where
  "fresh_search_node x = \<lparr>sn_id = take 20 x, sn_ss = zero_ss, sn_sslen = 0, sn_request_time = 0,
     sn_reply_time = 0, sn_pinged = 0, sn_token = [], sn_replied = False, sn_acked = False\<rparr>"

text \<open>The part behind the label \<^verbatim>\<open>found\<close>.\<close>

definition fill_search_node ::
  "mem \<Rightarrow> nat \<Rightarrow> bool \<Rightarrow> mem option \<Rightarrow> int \<Rightarrow> search_node \<Rightarrow> search_node" where
  "fill_search_node sa salen replied token t n =
     (let n = n\<lparr>sn_ss := memcpy (sn_ss n) 0 sa salen, sn_sslen := salen\<rparr>;
          n = (if replied then n\<lparr>sn_replied := True, sn_reply_time := t, sn_request_time := 0, sn_pinged := 0\<rparr>
               else n)
      in case token of None \<Rightarrow> n
         | Some tk \<Rightarrow> if 40 \<le> length tk then n else n\<lparr>sn_token := tk\<rparr>)"

definition place_search_node ::
  "mem \<Rightarrow> mem \<Rightarrow> nat \<Rightarrow> bool \<Rightarrow> mem option \<Rightarrow> int \<Rightarrow> mem \<Rightarrow> search_node list \<Rightarrow> int \<times> search_node list" where
  "place_search_node x sa salen replied token t ref ns =
     (let fill = fill_search_node sa salen replied token t; (found, i) = search_slot x ref ns in
      if found then (1, update_at i fill ns)
      else if i = SEARCH_NODES then (0, ns)
      else (1, take (if length ns < SEARCH_NODES then Suc (length ns) else length ns)
             (take i ns @ fill (fresh_search_node x) # drop i ns)))"

definition insert_search_node ::
  "mem \<Rightarrow> mem \<Rightarrow> nat \<Rightarrow> bool \<Rightarrow> mem option \<Rightarrow> int \<Rightarrow> search \<Rightarrow> int \<times> search" where
  "insert_search_node x sa salen replied token t sr =
     (if sa_family sa \<noteq> sr_af sr then (0, sr)
      else
        let (r, ns) = place_search_node x sa salen replied token t (sr_id sr) (sr_nodes sr)
        in (r, sr\<lparr>sr_nodes := ns\<rparr>))"

definition flush_at :: "nat \<Rightarrow> search_node list \<Rightarrow> search_node list" where
  "flush_at i ns = take i ns @ drop (Suc i) ns"

definition flush_search_node :: "nat \<Rightarrow> search \<Rightarrow> search" where
  "flush_search_node i sr = sr\<lparr>sr_nodes := flush_at i (sr_nodes sr)\<rparr>"

definition expire_searches :: "'a dht_scheme \<Rightarrow> 'a dht_scheme" where
  "expire_searches s =
     (let keep = filter (\<lambda>sr. \<not> sr_step_time sr < now s - DHT_SEARCH_EXPIRE_TIME) (searches s)
      in s\<lparr>searches := keep, numsearches := numsearches s - int (length (searches s) - length keep)\<rparr>)"

definition upd_search :: "nat \<Rightarrow> (search \<Rightarrow> search) \<Rightarrow> 'a dht_scheme \<Rightarrow> 'a dht_scheme" where
  "upd_search k f s = s\<lparr>searches := update_at k f (searches s)\<rparr>"

definition upd_search_node :: "nat \<Rightarrow> nat \<Rightarrow> (search_node \<Rightarrow> search_node) \<Rightarrow> 'a dht_scheme \<Rightarrow> 'a dht_scheme" where
  "upd_search_node k i f = upd_search k (\<lambda>sr. sr\<lparr>sr_nodes := update_at i f (sr_nodes sr)\<rparr>)"

subsection \<open>Requests\<close>

text \<open>The loop of \<^verbatim>\<open>search_send_get_peers\<close> over all nodes does not stop: the last one is taken.\<close>

definition askable :: "int \<Rightarrow> search_node \<Rightarrow> bool" where
  "askable t n \<longleftrightarrow> sn_pinged n < 3 \<and> \<not> sn_replied n \<and> sn_request_time n < t - 15"

fun last_askable :: "int \<Rightarrow> nat \<Rightarrow> search_node list \<Rightarrow> nat option \<Rightarrow> nat option" where
  "last_askable t i [] r = r"
| "last_askable t i (n # ns) r = last_askable t (Suc i) ns (if askable t n then Some i else r)"

text \<open>A request to a node that is also in the routing table counts as a ping there.\<close>

definition mark_pinged :: "mem \<Rightarrow> nat \<Rightarrow> 'a dht_scheme \<Rightarrow> 'a dht_scheme" where
  "mark_pinged x af s =
     (case find_node x af s of None \<Rightarrow> s | Some (i, j) \<Rightarrow> pinged af i j None s)"

definition search_send_get_peers :: "nat \<Rightarrow> nat option \<Rightarrow> 'a dht_scheme \<Rightarrow> nat \<times> 'a dht_scheme" where
  "search_send_get_peers k n s =
     (let sr = searches s ! k;
          n = (case n of None \<Rightarrow> last_askable (now s) 0 (sr_nodes sr) None | Some i \<Rightarrow> Some i)
      in case n of None \<Rightarrow> (0, s)
         | Some i \<Rightarrow>
             let n = sr_nodes sr ! i in
             if sn_pinged n \<ge> 3 \<or> sn_replied n \<or> sn_request_time n \<ge> now s - 15 then (0, s)
             else
               let (_, s) = send_get_peers (sn_ss n) (sn_sslen n) (make_tid (ascii ''gp'') (sr_tid sr))
                              (sr_id sr) (- 1) (sn_reply_time n \<ge> now s - 15) s;
                   s = upd_search_node k i
                         (\<lambda>n. n\<lparr>sn_pinged := sn_pinged n + 1, sn_request_time := now s\<rparr>) s
               in (1, mark_pinged (sn_id n) (sa_family (sn_ss n)) s))"

subsection \<open>Steps\<close>

text \<open>
  The user's call-back: event, identifier, data, sender. The data of a search that ends is
  the null pointer.
\<close>

datatype dht_event = DHT_EVENT_VALUES | DHT_EVENT_VALUES6 | DHT_EVENT_SEARCH_DONE | DHT_EVENT_SEARCH_DONE6

type_synonym 'a callback = "dht_event \<Rightarrow> mem \<Rightarrow> mem \<Rightarrow> mem \<Rightarrow> nat \<Rightarrow> 'a dht_scheme \<Rightarrow> 'a dht_scheme"

text \<open>Have the first eight live nodes replied?\<close>

fun first_replied :: "nat \<Rightarrow> search_node list \<Rightarrow> bool" where
  "first_replied j [] = True"
| "first_replied j (n # ns) =
     (if 8 \<le> j then True
      else if sn_pinged n \<ge> 3 then first_replied j ns
      else if \<not> sn_replied n then False
      else first_replied (Suc j) ns)"

definition send_announce :: "nat \<Rightarrow> nat \<Rightarrow> 'a dht_scheme \<Rightarrow> 'a dht_scheme" where
  "send_announce k i s =
     (let sr = searches s ! k; n = sr_nodes sr ! i;
          (_, s) = send_announce_peer (sn_ss n) sizeof_ss (make_tid (ascii ''ap'') (sr_tid sr))
                     (sr_id sr) (sr_port sr) (sn_token n) (sn_reply_time n \<ge> now s - 15) s;
          s = upd_search_node k i (\<lambda>n. n\<lparr>sn_pinged := sn_pinged n + 1, sn_request_time := now s\<rparr>) s
      in mark_pinged (sn_id n) (sa_family (sn_ss n)) s)"

fun announce_loop :: "nat \<Rightarrow> nat list \<Rightarrow> nat \<Rightarrow> bool \<Rightarrow> 'a dht_scheme \<Rightarrow> bool \<times> 'a dht_scheme" where
  "announce_loop k [] j all_acked s = (all_acked, s)"
| "announce_loop k (i # is) j all_acked s =
     (if 8 \<le> j then (all_acked, s)
      else
        let n = sr_nodes (searches s ! k) ! i in
        if sn_pinged n \<ge> 3 then announce_loop k is j all_acked s
        else
          let acked = (sn_token n = [] \<or> sn_acked n);
              s = upd_search_node k i (\<lambda>n. n\<lparr>sn_acked := acked\<rparr>) s
          in if acked then announce_loop k is (Suc j) all_acked s
             else announce_loop k is (Suc j) False (send_announce k i s))"

fun get_peers_loop :: "nat \<Rightarrow> nat list \<Rightarrow> nat \<Rightarrow> 'a dht_scheme \<Rightarrow> 'a dht_scheme" where
  "get_peers_loop k [] j s = s"
| "get_peers_loop k (i # is) j s =
     (let (r, s) = search_send_get_peers k (Some i) s in
      if 3 \<le> j + r then s else get_peers_loop k is (j + r) s)"

definition stamp_search :: "nat \<Rightarrow> 'a dht_scheme \<Rightarrow> 'a dht_scheme" where
  "stamp_search k s = upd_search k (\<lambda>sr. sr\<lparr>sr_step_time := now s\<rparr>) s"

definition search_is_done :: "nat \<Rightarrow> 'a callback option \<Rightarrow> 'a dht_scheme \<Rightarrow> 'a dht_scheme" where
  "search_is_done k cb s =
     (let s = upd_search k (\<lambda>sr. sr\<lparr>sr_done := True\<rparr>) s; sr = searches s ! k;
          ev = (if sr_af sr = AF_INET then DHT_EVENT_SEARCH_DONE else DHT_EVENT_SEARCH_DONE6);
          s = (case cb of None \<Rightarrow> s | Some f \<Rightarrow> f ev (sr_id sr) [] [] 0 s)
      in stamp_search k s)"

definition search_step :: "nat \<Rightarrow> 'a callback option \<Rightarrow> 'a dht_scheme \<Rightarrow> 'a dht_scheme" where
  "search_step k cb s =
     (let sr = searches s ! k in
      if first_replied 0 (sr_nodes sr) then
        if sr_port sr = 0 then search_is_done k cb s
        else
          let (all_acked, s) = announce_loop k [0..<length (sr_nodes sr)] 0 True s
          in if all_acked then search_is_done k cb s else stamp_search k s
      else if sr_step_time sr + 15 \<ge> now s then s
      else stamp_search k (get_peers_loop k [0..<length (sr_nodes sr)] 0 s))"

subsection \<open>Starting a search\<close>

text \<open>The first one with the least time among the searches that are done.\<close>

fun oldest_done :: "nat \<Rightarrow> search list \<Rightarrow> (nat \<times> int) option \<Rightarrow> (nat \<times> int) option" where
  "oldest_done i [] r = r"
| "oldest_done i (sr # srs) r =
     oldest_done (Suc i) srs
       (if sr_done sr \<and> (case r of None \<Rightarrow> True | Some (_, t) \<Rightarrow> t > sr_step_time sr)
        then Some (i, sr_step_time sr) else r)"

definition calloc_search :: search where
  "calloc_search = \<lparr>sr_tid = 0, sr_af = 0, sr_step_time = 0, sr_id = replicate 20 0, sr_port = 0,
     sr_done = False, sr_nodes = []\<rparr>"

definition new_search :: "'a dht_scheme \<Rightarrow> nat option \<times> 'a dht_scheme" where
  "new_search s =
     (let oldest = oldest_done 0 (searches s) None in
      if (case oldest of None \<Rightarrow> False | Some (_, t) \<Rightarrow> t < now s - DHT_SEARCH_EXPIRE_TIME)
      then (map_option fst oldest, s)
      else if numsearches s < DHT_MAX_SEARCHES then
        let (ok, s) = c_calloc s in
        if ok then (Some 0, s\<lparr>searches := calloc_search # searches s, numsearches := numsearches s + 1\<rparr>)
        else (map_option fst oldest, s)
      else (map_option fst oldest, s))"

definition insert_search_bucket :: "int \<Rightarrow> bucket \<Rightarrow> search \<Rightarrow> search" where
  "insert_search_bucket t b sr =
     fold (\<lambda>n sr. snd (insert_search_node (n_id n) (n_ss n) (n_sslen n) False None t sr)) (b_nodes b) sr"

text \<open>The loop of \<^verbatim>\<open>dht_search\<close> over the nodes of an old search: after a flush it skips a node.\<close>

function reuse_nodes :: "int \<Rightarrow> nat \<Rightarrow> search_node list \<Rightarrow> search_node list" where
  "reuse_nodes t i ns =
     (if i < length ns then
        if sn_pinged (ns ! i) \<ge> 3 \<or> sn_reply_time (ns ! i) < t - 7200
        then reuse_nodes t (Suc i) (flush_at i ns)
        else reuse_nodes t (Suc i)
               (ns[i := (ns ! i)\<lparr>sn_pinged := 0, sn_token := [], sn_replied := False, sn_acked := False\<rparr>])
      else ns)"
  by pat_completeness auto
termination by (relation "measure (\<lambda>(t, i, ns). length ns - i)") (auto simp: flush_at_def)

declare reuse_nodes.simps [simp del]

definition insert_buckets :: "mem \<Rightarrow> nat \<Rightarrow> nat \<Rightarrow> 'a dht_scheme \<Rightarrow> search \<Rightarrow> search" where
  "insert_buckets me af i s sr =
     (let bs = table af s; t = now s;
          sr = insert_search_bucket t (bs ! i) sr;
          sr = (if length (sr_nodes sr) < SEARCH_NODES then
                  let sr = (if Suc i < length bs then insert_search_bucket t (bs ! Suc i) sr else sr)
                  in case previous_bucket i of None \<Rightarrow> sr | Some p \<Rightarrow> insert_search_bucket t (bs ! p) sr
                else sr)
      in if length (sr_nodes sr) < SEARCH_NODES then
           case find_bucket me af s of None \<Rightarrow> sr | Some m \<Rightarrow> insert_search_bucket t (bs ! m) sr
         else sr)"

definition dht_search :: "mem \<Rightarrow> nat \<Rightarrow> nat \<Rightarrow> 'a callback option \<Rightarrow> 'a dht_scheme \<Rightarrow> int \<times> 'a dht_scheme" where
  "dht_search x port af cb s =
     (case find_bucket x af s of
        None \<Rightarrow> (- 1, set_errno EAFNOSUPPORT s)
      | Some i \<Rightarrow>
          let (k, s) =
            (case find_index (\<lambda>sr. sr_af sr = af \<and> id_cmp (sr_id sr) x = 0) (searches s) of
               Some k \<Rightarrow> (Some k, upd_search k (\<lambda>sr. sr\<lparr>sr_done := False,
                            sr_nodes := reuse_nodes (now s) 0 (sr_nodes sr)\<rparr>) s)
             | None \<Rightarrow>
                 (case new_search s of (None, s) \<Rightarrow> (None, s)
                  | (Some k, s) \<Rightarrow> (Some k,
                      upd_search k (\<lambda>sr. sr\<lparr>sr_af := af, sr_tid := search_id s, sr_step_time := 0,
                          sr_id := take 20 x, sr_done := False, sr_nodes := []\<rparr>)
                        (s\<lparr>search_id := search_id s + 1\<rparr>))))
          in case k of None \<Rightarrow> (- 1, set_errno ENOSPC s)
             | Some k \<Rightarrow>
                 let s = upd_search k (\<lambda>sr. insert_buckets (myid s) af i s (sr\<lparr>sr_port := port mod 65536\<rparr>)) s;
                     s = search_step k cb s
                 in (1, s\<lparr>search_time := now s\<rparr>))"

subsection \<open>The internal blacklist\<close>

text \<open>The loop over the nodes of a search skips the one behind a flushed one, too.\<close>

function flush_id :: "mem \<Rightarrow> nat \<Rightarrow> search_node list \<Rightarrow> search_node list" where
  "flush_id x i ns =
     (if i < length ns then flush_id x (Suc i) (if id_cmp (sn_id (ns ! i)) x = 0 then flush_at i ns else ns)
      else ns)"
  by pat_completeness auto
termination by (relation "measure (\<lambda>(x, i, ns). length ns - i)") (auto simp: flush_at_def)

declare flush_id.simps [simp del]

definition blacklist_node :: "mem option \<Rightarrow> mem \<Rightarrow> nat \<Rightarrow> 'a dht_scheme \<Rightarrow> 'a dht_scheme" where
  "blacklist_node x sa salen s =
     (let s = (case x of None \<Rightarrow> s
               | Some x \<Rightarrow>
                   let af = sa_family sa;
                       s = (case find_node x af s of None \<Rightarrow> s
                            | Some (i, j) \<Rightarrow> pinged af i j None (upd_node af i j (\<lambda>n. n\<lparr>n_pinged := 3\<rparr>) s))
                   in s\<lparr>searches := map (\<lambda>sr. sr\<lparr>sr_nodes := flush_id x 0 (sr_nodes sr)\<rparr>) (searches s)\<rparr>)
      in s\<lparr>blist := update_at (next_blacklisted s) (\<lambda>b. memcpy b 0 sa salen) (blist s),
           next_blacklisted := (next_blacklisted s + 1) mod DHT_MAX_BLACKLISTED\<rparr>)"

end
