(* ===== verification/Routing_Inv.thy ===== *)
theory Routing_Inv
  imports Routing
begin

text \<open>
  The invariant of the routing table: the buckets of a family cut the space of 160-bit
  identifiers into aligned intervals whose sizes are powers of two, each bucket holds at
  most eight nodes with distinct identifiers of its interval, none of them our own, and its
  counter counts them. Every operation keeps it, and the recursion of \<^verbatim>\<open>new_node\<close> ends.
\<close>

subsection \<open>Aligned intervals\<close>

definition dyadic :: "nat \<Rightarrow> nat \<Rightarrow> nat \<Rightarrow> bool" where
  "dyadic d lo hi \<longleftrightarrow> d \<le> 160 \<and> 2 ^ (160 - d) dvd lo \<and> hi = lo + 2 ^ (160 - d)"

lemma dyadic_less: "dyadic d lo hi \<Longrightarrow> lo < hi"
  by (simp add: dyadic_def)

lemma dyadic_unique: "dyadic d lo hi \<Longrightarrow> dyadic e lo hi \<Longrightarrow> d = e"
proof -
  assume a: "dyadic d lo hi" "dyadic e lo hi"
  then have "(2 :: nat) ^ (160 - d) = 2 ^ (160 - e)" by (simp add: dyadic_def)
  then have "160 - d = 160 - e" by (simp add: power_inject_exp)
  with a show ?thesis by (auto simp: dyadic_def)
qed

lemma dyadic_halves:
  assumes "dyadic d lo hi" "d < 160"
  shows "dyadic (Suc d) lo (lo + 2 ^ (159 - d))" "dyadic (Suc d) (lo + 2 ^ (159 - d)) hi"
proof -
  have e: "160 - d = Suc (159 - d)" "160 - Suc d = 159 - d" using assms(2) by auto
  have p: "(2 :: nat) ^ (160 - d) = 2 ^ (159 - d) + 2 ^ (159 - d)" unfolding e by simp
  have "2 ^ (159 - d) dvd lo"
    using assms(1) unfolding dyadic_def e(1) power_Suc by (auto dest: dvd_mult_right)
  then show "dyadic (Suc d) lo (lo + 2 ^ (159 - d))" "dyadic (Suc d) (lo + 2 ^ (159 - d)) hi"
    using assms p unfolding dyadic_def e(2) by (auto simp: dvd_add)
qed

text \<open>\<^verbatim>\<open>lowbit\<close> of the two ends of an aligned interval gives its depth.\<close>

definition end_ok :: "nat \<Rightarrow> mem option \<Rightarrow> bool" where
  "end_ok hi nxt \<longleftrightarrow> (case nxt of None \<Rightarrow> hi = 2 ^ 160 | Some f \<Rightarrow> valid_id f \<and> be_val f = hi)"

lemma end_lowbit:
  assumes "end_ok hi nxt" "d \<le> 160"
  shows "(case nxt of None \<Rightarrow> - 1 | Some f \<Rightarrow> lowbit f) < int d \<longleftrightarrow>
    (2 ^ (160 - d) dvd hi)"
proof (cases nxt)
  case None
  then have "hi = 2 ^ 160" using assms(1) by (simp add: end_ok_def)
  then have "2 ^ (160 - d) dvd hi" by (simp only: le_imp_power_dvd diff_le_self)
  with None show ?thesis by simp
next
  case (Some f)
  then show ?thesis using assms by (simp add: end_ok_def lowbit_less_iff_dvd)
qed

lemma split_bit_dyadic:
  assumes "dyadic d (be_val first) hi" "valid_id first" "end_ok hi nxt"
  shows "split_bit first nxt = int d"
proof -
  let ?m = "max (lowbit first) (case nxt of None \<Rightarrow> - 1 | Some f \<Rightarrow> lowbit f)"
  have d: "d \<le> 160" and al: "2 ^ (160 - d) dvd be_val first" and hi: "hi = be_val first + 2 ^ (160 - d)"
    using assms(1) by (auto simp: dyadic_def)
  have lt: "?m < int e \<longleftrightarrow> 2 ^ (160 - e) dvd be_val first \<and> 2 ^ (160 - e) dvd hi" if "e \<le> 160" for e
    using end_lowbit [OF assms(3) that] lowbit_less_iff_dvd [OF assms(2) that] by auto
  have up: "?m < int d" using lt [OF d] al hi by (simp add: dvd_add)
  have "\<not> ?m < int (d - 1)" if "0 < d"
  proof
    assume "?m < int (d - 1)"
    then have "2 ^ (160 - (d - 1)) dvd be_val first" "2 ^ (160 - (d - 1)) dvd hi"
      using lt [of "d - 1"] d by auto
    then have "2 ^ (160 - (d - 1)) dvd (2 :: nat) ^ (160 - d)"
      using hi by (simp add: dvd_add_right_iff)
    then have "160 - (d - 1) \<le> 160 - d" by (simp add: power_dvd_imp_le)
    with that d show False by simp
  qed
  moreover have "- 1 \<le> ?m" using lowbit_range(1) [of first] by (simp add: le_max_iff_disj)
  ultimately show ?thesis using up unfolding split_bit_def by (cases "d = 0") auto
qed

lemma valid_id_update_at [simp]: "valid_id (update_at i f x) = valid_id x"
  by (simp add: valid_id_def)

lemma id_bit_set:
  assumes "valid_id x" "k < 160" "m < 160"
  shows "id_bit (update_at (k div 8) (\<lambda>b. b OR drop_bit (k mod 8) 0x80) x) m \<longleftrightarrow> m = k \<or> id_bit x m"
proof -
  have l: "k div 8 < 20" "m div 8 < 20" using assms by auto
  have mk: "m = k \<longleftrightarrow> m div 8 = k div 8 \<and> m mod 8 = k mod 8" by (metis div_mult_mod_eq)
  have b: "bit (drop_bit (k mod 8) (0x80 :: byte)) (7 - m mod 8) \<longleftrightarrow> m mod 8 = k mod 8"
  proof -
    have "bit (0x80 :: byte) j \<longleftrightarrow> j = 7" for j
      using bit_exp_iff [where ?'a = byte, of 7 j] by auto
    then have "bit (drop_bit (k mod 8) (0x80 :: byte)) (7 - m mod 8) \<longleftrightarrow> k mod 8 + (7 - m mod 8) = 7"
      by (simp only: bit_drop_bit_eq comp_def)
    moreover have "k mod 8 < 8" "m mod 8 < 8" by simp_all
    ultimately show ?thesis by auto
  qed
  show ?thesis
    using assms(1) l mk b by (auto simp: id_bit_def valid_id_def nth_update_at bit_or_iff)
qed

lemma be_val_set_bit:
  assumes "valid_id x" "k < 160"
  shows "be_val (update_at (k div 8) (\<lambda>b. b OR drop_bit (k mod 8) 0x80) x) = set_bit (159 - k) (be_val x)"
    (is "be_val ?y = _")
proof (rule bit_eqI)
  fix n
  have v: "valid_id ?y" using assms(1) by simp
  have small: "\<not> bit a n" if "160 \<le> n" "a < 2 ^ 160" for a :: nat
    using that by (metis bit_take_bit_iff not_less take_bit_nat_eq_self)
  show "bit (be_val ?y) n = bit (set_bit (159 - k) (be_val x)) n"
  proof (cases "n < 160")
    case True
    have nk: "159 - (159 - n) = n" "159 - n < 160" using True by auto
    have "bit (be_val ?y) n \<longleftrightarrow> id_bit ?y (159 - n)" using id_bit_be_val [OF v nk(2)] nk(1) by simp
    also have "\<dots> \<longleftrightarrow> 159 - n = k \<or> id_bit x (159 - n)" using assms nk by (intro id_bit_set) auto
    also have "\<dots> \<longleftrightarrow> n = 159 - k \<or> bit (be_val x) n"
      using id_bit_be_val [OF assms(1) nk(2)] nk(1) assms(2) True by auto
    finally show ?thesis by (auto simp: bit_set_bit_iff)
  next
    case False
    then show ?thesis
      using small be_val_id_less [OF v] be_val_id_less [OF assms(1)] assms(2)
      by (auto simp: bit_set_bit_iff)
  qed
qed

lemma bucket_middle_dyadic:
  assumes "dyadic d (be_val first) hi" "valid_id first" "end_ok hi nxt" "d < 160"
  obtains m where "bucket_middle first nxt = Some m" "valid_id m" "be_val m = be_val first + 2 ^ (159 - d)"
proof
  let ?m = "update_at (d div 8) (\<lambda>b. b OR drop_bit (d mod 8) 0x80) first"
  show "bucket_middle first nxt = Some ?m"
    using split_bit_dyadic [OF assms(1-3)] assms(2,4) by (simp add: bucket_middle_def Let_def valid_id_def)
  show "valid_id ?m" using assms(2) by simp
  have "\<not> bit (be_val first) (159 - d)"
    using assms(1,4) by (auto simp: dyadic_def pow2_dvd_iff_bits)
  then show "be_val ?m = be_val first + 2 ^ (159 - d)"
    using be_val_set_bit [OF assms(2,4)] by (simp add: set_bit_eq)
qed


subsection \<open>The invariant\<close>

definition inet :: "nat \<Rightarrow> bool" where
  "inet af \<longleftrightarrow> af = AF_INET \<or> af = AF_INET6"

text \<open>
  What the callers of \<^verbatim>\<open>new_node\<close> pass: an address of one of the two families, whose length
  covers the port and the address and fits in a \<^verbatim>\<open>sockaddr_storage\<close>.
\<close>

definition good_sa :: "mem \<Rightarrow> nat \<Rightarrow> bool" where
  "good_sa sa salen \<longleftrightarrow> salen \<le> length sa \<and> salen \<le> sizeof_ss \<and>
     (sa_family sa = AF_INET \<and> 8 \<le> salen \<or> sa_family sa = AF_INET6 \<and> 24 \<le> salen)"

definition node_ok :: "nat \<Rightarrow> mem \<Rightarrow> nat \<Rightarrow> nat \<Rightarrow> node \<Rightarrow> bool" where
  "node_ok af me lo hi n \<longleftrightarrow> valid_id (n_id n) \<and> n_id n \<noteq> me \<and> lo \<le> be_val (n_id n) \<and> be_val (n_id n) < hi \<and>
     length (n_ss n) = sizeof_ss \<and> sa_family (n_ss n) = af \<and> \<not> is_martian (n_ss n) \<and>
     good_sa (n_ss n) (n_sslen n)"

definition bucket_ok :: "nat \<Rightarrow> mem \<Rightarrow> nat \<Rightarrow> nat \<Rightarrow> bucket \<Rightarrow> bool" where
  "bucket_ok af me lo hi b \<longleftrightarrow> valid_id (b_first b) \<and> b_af b = af \<and>
     b_count b = int (length (b_nodes b)) \<and> length (b_nodes b) \<le> 8 \<and>
     distinct (map n_id (b_nodes b)) \<and> (\<forall>n \<in> set (b_nodes b). node_ok af me lo hi n) \<and>
     length (b_cached b) = sizeof_ss \<and>
     (sa_family (b_cached b) \<noteq> 0 \<longrightarrow> 0 < b_cachedlen b \<and> b_cachedlen b \<le> sizeof_ss)"

definition bkt_lo :: "bucket list \<Rightarrow> nat \<Rightarrow> nat" where
  "bkt_lo bs i = be_val (b_first (bs ! i))"

definition bkt_hi :: "bucket list \<Rightarrow> nat \<Rightarrow> nat" where
  "bkt_hi bs i = (if Suc i < length bs then be_val (b_first (bs ! Suc i)) else 2 ^ 160)"

definition wf_table :: "nat \<Rightarrow> mem \<Rightarrow> bucket list \<Rightarrow> bool" where
  "wf_table af me bs \<longleftrightarrow> (bs \<noteq> [] \<longrightarrow> bkt_lo bs 0 = 0) \<and>
     (\<forall>i < length bs. (\<exists>d. dyadic d (bkt_lo bs i) (bkt_hi bs i)) \<and>
        bucket_ok af me (bkt_lo bs i) (bkt_hi bs i) (bs ! i))"

definition rt_inv :: "'a dht_scheme \<Rightarrow> bool" where
  "rt_inv s \<longleftrightarrow> valid_id (myid s) \<and> wf_table AF_INET (myid s) (buckets s) \<and>
     wf_table AF_INET6 (myid s) (buckets6 s)"

lemma rt_inv_table: "rt_inv s \<Longrightarrow> inet af \<Longrightarrow> wf_table af (myid s) (table af s)"
  by (auto simp: rt_inv_def table_def inet_def AF_INET_def AF_INET6_def)

lemma rt_inv_set_table:
  "rt_inv s \<Longrightarrow> inet af \<Longrightarrow> wf_table af (myid s) bs \<Longrightarrow> rt_inv (set_table af bs s)"
  by (auto simp: rt_inv_def set_table_def inet_def AF_INET_def AF_INET6_def)

lemma quiet_rt_inv: "quiet s s' \<Longrightarrow> rt_inv s' = rt_inv s"
  by (simp add: rt_inv_def quiet_fields)

lemma table_set_table [simp]: "table af (set_table af bs s) = bs"
  by (simp add: table_def set_table_def)

lemma set_table_fields [simp]:
  "myid (set_table af bs s) = myid s" "now (set_table af bs s) = now s"
  "calloc_src (set_table af bs s) = calloc_src s" "aborted (set_table af bs s) = aborted s"
  "extbl (set_table af bs s) = extbl s" "blist (set_table af bs s) = blist s"
  "searches (set_table af bs s) = searches s" "storages (set_table af bs s) = storages s"
  "numstorage (set_table af bs s) = numstorage s" "numsearches (set_table af bs s) = numsearches s"
  "next_blacklisted (set_table af bs s) = next_blacklisted s"
  "dht_socket (set_table af bs s) = dht_socket s" "dht_socket6 (set_table af bs s) = dht_socket6 s"
  "rand_src (set_table af bs s) = rand_src s" "secret (set_table af bs s) = secret s"
  "oldsecret (set_table af bs s) = oldsecret s" "trace (set_table af bs s) = trace s"
  "token_bucket_tokens (set_table af bs s) = token_bucket_tokens s"
  by (simp_all add: set_table_def)

lemma table_upd_bucket [simp]: "table af (upd_bucket af i f s) = update_at i f (table af s)"
  by (simp add: upd_bucket_def)

lemma upd_bucket_fields [simp]:
  "myid (upd_bucket af i f s) = myid s" "now (upd_bucket af i f s) = now s"
  "calloc_src (upd_bucket af i f s) = calloc_src s" "aborted (upd_bucket af i f s) = aborted s"
  "extbl (upd_bucket af i f s) = extbl s" "blist (upd_bucket af i f s) = blist s"
  "searches (upd_bucket af i f s) = searches s" "storages (upd_bucket af i f s) = storages s"
  "numstorage (upd_bucket af i f s) = numstorage s" "numsearches (upd_bucket af i f s) = numsearches s"
  "next_blacklisted (upd_bucket af i f s) = next_blacklisted s"
  "dht_socket (upd_bucket af i f s) = dht_socket s" "dht_socket6 (upd_bucket af i f s) = dht_socket6 s"
  "rand_src (upd_bucket af i f s) = rand_src s" "secret (upd_bucket af i f s) = secret s"
  "oldsecret (upd_bucket af i f s) = oldsecret s" "trace (upd_bucket af i f s) = trace s"
  "token_bucket_tokens (upd_bucket af i f s) = token_bucket_tokens s"
  by (simp_all add: upd_bucket_def)

lemma upd_bucket_other [simp]:
  "inet af \<Longrightarrow> inet af' \<Longrightarrow> af' \<noteq> af \<Longrightarrow> table af' (upd_bucket af i f s) = table af' s"
  by (auto simp: upd_bucket_def set_table_def table_def inet_def AF_INET_def AF_INET6_def)

lemma wf_tableD:
  assumes "wf_table af me bs" "i < length bs"
  shows "\<exists>d. dyadic d (bkt_lo bs i) (bkt_hi bs i)" "bucket_ok af me (bkt_lo bs i) (bkt_hi bs i) (bs ! i)"
    "valid_id (b_first (bs ! i))"
  using assms by (auto simp: wf_table_def bucket_ok_def)

lemma bkt_update_at:
  assumes "\<And>b. b_first (f b) = b_first b"
  shows "bkt_lo (update_at i f bs) k = bkt_lo bs k" "bkt_hi (update_at i f bs) k = bkt_hi bs k"
  using assms by (auto simp: bkt_lo_def bkt_hi_def update_at_def nth_list_update)

text \<open>The rule by which every update of one bucket keeps the invariant.\<close>

lemma wf_table_update:
  assumes "wf_table af me bs" "\<And>b. b_first (f b) = b_first b"
    "i < length bs \<Longrightarrow> bucket_ok af me (bkt_lo bs i) (bkt_hi bs i) (bs ! i) \<Longrightarrow>
       bucket_ok af me (bkt_lo bs i) (bkt_hi bs i) (f (bs ! i))"
  shows "wf_table af me (update_at i f bs)"
proof -
  have "bs \<noteq> [] \<Longrightarrow> update_at i f bs \<noteq> []" by (metis length_0_conv length_update_at)
  then show ?thesis
    using assms bkt_update_at [OF assms(2), of i bs]
    by (auto simp: wf_table_def nth_update_at) (metis length_0_conv length_update_at)
qed

lemma rt_inv_upd_bucket:
  assumes "rt_inv s" "inet af" "\<And>b. b_first (f b) = b_first b"
    "\<And>lo hi b. bucket_ok af (myid s) lo hi b \<Longrightarrow> bucket_ok af (myid s) lo hi (f b)"
  shows "rt_inv (upd_bucket af i f s)"
  unfolding upd_bucket_def
  using assms by (intro rt_inv_set_table wf_table_update rt_inv_table) auto

lemma node_ok_upd:
  assumes "bucket_ok af me lo hi b" "\<And>n. n_id (f n) = n_id n"
    "\<And>n. node_ok af me lo hi n \<Longrightarrow> node_ok af me lo hi (f n)"
  shows "bucket_ok af me lo hi (b\<lparr>b_nodes := update_at j f (b_nodes b)\<rparr>)"
proof -
  have "map n_id (update_at j f (b_nodes b)) = map n_id (b_nodes b)"
    by (rule map_update_at) (rule assms(2))
  moreover have "node_ok af me lo hi n" if "n \<in> set (update_at j f (b_nodes b))" for n
    using assms(1) by (intro ball_update_at [where P = "node_ok af me lo hi" and f = f and xs = "b_nodes b" and i = j, OF _ assms(3) that]) (simp add: bucket_ok_def)
  ultimately show ?thesis using assms(1) by (simp add: bucket_ok_def)
qed

lemma rt_inv_upd_node:
  assumes "rt_inv s" "inet af" "\<And>n. n_id (f n) = n_id n"
    "\<And>lo hi n. node_ok af (myid s) lo hi n \<Longrightarrow> node_ok af (myid s) lo hi (f n)"
  shows "rt_inv (upd_node af i j f s)"
  unfolding upd_node_def
  using assms by (intro rt_inv_upd_bucket node_ok_upd) auto

subsection \<open>Finding the bucket of an identifier\<close>

lemma find_bucket_in_spec:
  "bs \<noteq> [] \<Longrightarrow> valid_id x \<Longrightarrow> \<forall>b \<in> set bs. valid_id (b_first b) \<Longrightarrow>
     \<exists>i < length bs. find_bucket_in x bs = Some i \<and>
       (i = 0 \<or> be_val (b_first (bs ! i)) \<le> be_val x) \<and>
       (Suc i < length bs \<longrightarrow> be_val x < be_val (b_first (bs ! Suc i)))"
proof (induction x bs rule: find_bucket_in.induct)
  case (3 x b b' bs)
  show ?case
  proof (cases "id_cmp x (b_first b') < 0")
    case True
    then show ?thesis using 3 by (auto simp: id_cmp_be_val)
  next
    case False
    then have ge: "be_val (b_first b') \<le> be_val x" using 3 by (simp add: id_cmp_be_val)
    from "3.IH" [OF False] "3.prems" obtain i where
      i: "i < length (b' # bs)" "find_bucket_in x (b' # bs) = Some i"
        "i = 0 \<or> be_val (b_first ((b' # bs) ! i)) \<le> be_val x"
        "Suc i < length (b' # bs) \<longrightarrow> be_val x < be_val (b_first ((b' # bs) ! Suc i))"
      by auto
    then show ?thesis using False ge
      by (intro exI [of _ "Suc i"]) auto
  qed
qed auto

lemma wf_table_valid: "wf_table af me bs \<Longrightarrow> \<forall>b \<in> set bs. valid_id (b_first b)"
  by (auto simp: in_set_conv_nth dest: wf_tableD(3))

lemma find_bucket_wf:
  assumes "wf_table af me bs" "valid_id x"
  shows "bs = [] \<and> find_bucket_in x bs = None \<or>
    (\<exists>i < length bs. find_bucket_in x bs = Some i \<and> bkt_lo bs i \<le> be_val x \<and> be_val x < bkt_hi bs i)"
proof (cases "bs = []")
  case False
  from find_bucket_in_spec [OF False assms(2) wf_table_valid [OF assms(1)]] obtain i where
    i: "i < length bs" "find_bucket_in x bs = Some i" "i = 0 \<or> bkt_lo bs i \<le> be_val x"
      "Suc i < length bs \<longrightarrow> be_val x < be_val (b_first (bs ! Suc i))"
    by (auto simp: bkt_lo_def)
  moreover have "bkt_lo bs 0 = 0" using assms(1) False by (simp add: wf_table_def)
  moreover have "be_val x < 2 ^ 160" using assms(2) by (rule be_val_id_less)
  ultimately show ?thesis by (intro disjI2 exI [of _ i]) (auto simp: bkt_hi_def)
qed simp

end
