(* ===== verification/Routing_Split.thy ===== *)
theory Routing_Split
  imports Routing_Inv
begin

text \<open>
  Addresses that may enter the table, the steps that change nothing but the table, and the
  split of a bucket: its closed form, and that it keeps the invariant.
\<close>

subsection \<open>Addresses\<close>

lemma good_sa_inet [simp, intro]: "good_sa sa salen \<Longrightarrow> inet (sa_family sa)"
  by (auto simp: good_sa_def inet_def)

lemma good_sa_len: "good_sa sa salen \<Longrightarrow> 0 < salen" "good_sa sa salen \<Longrightarrow> salen \<le> sizeof_ss"
  by (auto simp: good_sa_def)

lemma rd_memcpy_head: "i < n \<Longrightarrow> n \<le> length sa \<Longrightarrow> rd (memcpy m 0 sa n) i = rd sa i"
  by (simp add: rd_def memcpy_def nth_append)

lemma slice_memcpy_head:
  "off + k \<le> n \<Longrightarrow> n \<le> length sa \<Longrightarrow> slice off k (memcpy m 0 sa n) = slice off k sa"
  by (simp add: slice_def memcpy_def drop_take)

lemma memcpy_good_sa:
  assumes "good_sa sa salen" "length m = sizeof_ss"
  shows "length (memcpy m 0 sa salen) = sizeof_ss" "sa_family (memcpy m 0 sa salen) = sa_family sa"
    "is_martian (memcpy m 0 sa salen) = is_martian sa"
proof -
  show "length (memcpy m 0 sa salen) = sizeof_ss" using assms by (simp add: good_sa_def)
  show f: "sa_family (memcpy m 0 sa salen) = sa_family sa"
    using assms by (simp add: sa_family_def) (auto simp: good_sa_def rd_memcpy_head simp del: rd_nth)
  have p: "rd (memcpy m 0 sa salen) 2 = rd sa 2" "rd (memcpy m 0 sa salen) 3 = rd sa 3"
    using assms by (auto simp: good_sa_def rd_memcpy_head simp del: rd_nth)
  have a: "sa_family sa = AF_INET \<Longrightarrow> sin_addr (memcpy m 0 sa salen) = sin_addr sa"
    "sa_family sa = AF_INET6 \<Longrightarrow> sin6_addr (memcpy m 0 sa salen) = sin6_addr sa"
    using assms by (auto simp: good_sa_def sin_addr_def sin6_addr_def slice_memcpy_head
        AF_INET_def AF_INET6_def)
  show "is_martian (memcpy m 0 sa salen) = is_martian sa"
    using a by (simp add: is_martian_def f p)
qed

lemma good_sa_swap:
  "good_sa ss n \<Longrightarrow> sa_family ss' = sa_family ss \<Longrightarrow> length ss' = length ss \<Longrightarrow> good_sa ss' n"
  by (simp add: good_sa_def)

lemma good_sa_memcpy: "good_sa sa salen \<Longrightarrow> length m = sizeof_ss \<Longrightarrow> good_sa (memcpy m 0 sa salen) salen"
  using memcpy_good_sa [of sa salen m] by (simp add: good_sa_def)

lemma length_zero_ss [simp]: "length zero_ss = sizeof_ss"
  by (simp add: zero_ss_def sizeof_ss_def)

lemma sa_family_zero_ss [simp]: "sa_family zero_ss = 0"
  by (simp add: zero_ss_def sa_family_def)

lemma set_family_0 [simp]:
  "length m = sizeof_ss \<Longrightarrow> sa_family (set_family 0 m) = 0"
  "length m = sizeof_ss \<Longrightarrow> length (set_family 0 m) = sizeof_ss"
  by (simp_all add: set_family_def sa_family_def memcpy_def rd_def sizeof_ss_def)

subsection \<open>Steps of the table\<close>

definition table_step :: "'a dht_scheme \<Rightarrow> 'a dht_scheme \<Rightarrow> bool" where
  "table_step s t \<longleftrightarrow> (\<exists>bs bs6 g g6 x ra ca e a tr so. t = s\<lparr>buckets := bs, buckets6 := bs6,
     mybucket_grow_time := g, mybucket6_grow_time := g6, expire_stuff_time := x, rand_src := ra,
     calloc_src := ca, errno := e, aborted := a, trace := tr, sendto_src := so\<rparr>)"

lemma table_stepI:
  "t = s\<lparr>buckets := bs, buckets6 := bs6, mybucket_grow_time := g, mybucket6_grow_time := g6,
     expire_stuff_time := x, rand_src := ra, calloc_src := ca, errno := e, aborted := a,
     trace := tr, sendto_src := so\<rparr> \<Longrightarrow> table_step s t"
  unfolding table_step_def by blast

lemma table_step_trans [trans]: "table_step s t \<Longrightarrow> table_step t u \<Longrightarrow> table_step s u"
  unfolding table_step_def by (elim exE) (simp, blast)

lemma quiet_table_step: "quiet s t \<Longrightarrow> table_step s t"
  unfolding quiet_def
  by (elim exE, rule table_stepI [where bs = "buckets s" and ?bs6.0 = "buckets6 s"
        and g = "mybucket_grow_time s" and ?g6.0 = "mybucket6_grow_time s"
        and x = "expire_stuff_time s" and ra = "rand_src s" and ca = "calloc_src s"]) simp

lemma table_step_set_table [simp, intro]: "table_step s (set_table af bs s)"
  unfolding table_step_def set_table_def
  by (rule exI [of _ "if af = AF_INET then bs else buckets s"],
      rule exI [of _ "if af = AF_INET then buckets6 s else bs"],
      rule exI [of _ "mybucket_grow_time s"], rule exI [of _ "mybucket6_grow_time s"],
      rule exI [of _ "expire_stuff_time s"], rule exI [of _ "rand_src s"], rule exI [of _ "calloc_src s"],
      rule exI [of _ "errno s"], rule exI [of _ "aborted s"], rule exI [of _ "trace s"],
      rule exI [of _ "sendto_src s"]) simp

lemma table_step_refl [simp, intro]: "table_step s s"
  using quiet_table_step [OF quiet_refl] .

lemma table_step_env:
  "table_step s (s\<lparr>mybucket_grow_time := g, mybucket6_grow_time := g6, expire_stuff_time := x,
     rand_src := ra, calloc_src := ca\<rparr>)"
  by (rule table_stepI [where bs = "buckets s" and ?bs6.0 = "buckets6 s" and g = g and ?g6.0 = g6
        and x = x and ra = ra and ca = ca and e = "errno s" and a = "aborted s" and tr = "trace s"
        and so = "sendto_src s"]) simp

lemma table_step_env_fields [simp, intro]:
  "table_step s (s\<lparr>calloc_src := ca\<rparr>)" "table_step s (s\<lparr>rand_src := ra\<rparr>)"
  "table_step s (s\<lparr>mybucket_grow_time := g\<rparr>)" "table_step s (s\<lparr>mybucket6_grow_time := g6\<rparr>)"
  "table_step s (s\<lparr>expire_stuff_time := x\<rparr>)"
  using table_step_env [of s ca "rand_src s" "expire_stuff_time s" "mybucket6_grow_time s" "mybucket_grow_time s"]
    table_step_env [of s "calloc_src s" ra "expire_stuff_time s" "mybucket6_grow_time s" "mybucket_grow_time s"]
    table_step_env [of s "calloc_src s" "rand_src s" "expire_stuff_time s" "mybucket6_grow_time s" g]
    table_step_env [of s "calloc_src s" "rand_src s" "expire_stuff_time s" g6 "mybucket_grow_time s"]
    table_step_env [of s "calloc_src s" "rand_src s" x "mybucket6_grow_time s" "mybucket_grow_time s"]
  by simp_all

lemma table_step_upd [simp, intro]:
  "table_step s (upd_bucket af i f s)" "table_step s (upd_node af i j h s)"
  by (simp_all add: upd_bucket_def upd_node_def)

lemma table_step_fields:
  assumes "table_step s t"
  shows "myid t = myid s" "now t = now s" "storages t = storages s" "numstorage t = numstorage s"
    "searches t = searches s" "numsearches t = numsearches s" "blist t = blist s" "extbl t = extbl s"
    "next_blacklisted t = next_blacklisted s" "my_v t = my_v s" "secret t = secret s"
    "oldsecret t = oldsecret s" "dht_socket t = dht_socket s" "dht_socket6 t = dht_socket6 s"
    "dtn_my_eid t = dtn_my_eid s" "mygroups t = mygroups s" "myneighbours t = myneighbours s"
    "token_bucket_time t = token_bucket_time s" "token_bucket_tokens t = token_bucket_tokens s"
    "search_id t = search_id s" "search_time t = search_time s"
    "dtn_my_eid_changed t = dtn_my_eid_changed s"
    "confirm_nodes_time t = confirm_nodes_time s" "rotate_secrets_time t = rotate_secrets_time s"
    "dht.more t = dht.more s"
  using assms by (auto simp: table_step_def)

subsection \<open>Pinging the cached address\<close>

lemma send_cached_ping_cases:
  obtains "send_cached_ping af i s = (0, s)" "sa_family (b_cached (table af s ! i)) = 0"
  | rc u where "quiet s u" "send_cached_ping af i s =
        (rc, upd_bucket af i (\<lambda>b. b\<lparr>b_cached := set_family 0 (b_cached b), b_cachedlen := 0\<rparr>) u)"
      "u = snd (send_ping (b_cached (table af s ! i)) (b_cachedlen (table af s ! i)) (make_tid (ascii ''pn'') 0) s)"
      "sa_family (b_cached (table af s ! i)) \<noteq> 0"
proof (cases "sa_family (b_cached (table af s ! i)) = 0")
  case True
  then show ?thesis using that(1) by (simp add: send_cached_ping_def)
next
  case False
  obtain rc u where u: "send_ping (b_cached (table af s ! i)) (b_cachedlen (table af s ! i))
      (make_tid (ascii ''pn'') 0) s = (rc, u)" by fastforce
  then have q: "quiet s u" using quiet_sends(1) by (metis snd_conv)
  show ?thesis
    by (rule that(2) [OF q, of rc]) (simp_all add: send_cached_ping_def u False)
qed

lemma bucket_ok_uncache:
  "bucket_ok af me lo hi b \<Longrightarrow>
     bucket_ok af me lo hi (b\<lparr>b_cached := set_family 0 (b_cached b), b_cachedlen := 0\<rparr>)"
  by (simp add: bucket_ok_def)

lemma send_cached_ping_rt_inv:
  assumes "rt_inv s" "inet af"
  shows "rt_inv (snd (send_cached_ping af i s))"
proof (cases rule: send_cached_ping_cases [of af i s])
  case (2 rc u)
  then have "rt_inv u" using assms(1) quiet_rt_inv by blast
  then have "rt_inv (upd_bucket af i (\<lambda>b. b\<lparr>b_cached := set_family 0 (b_cached b), b_cachedlen := 0\<rparr>) u)"
    using assms(2) by (rule rt_inv_upd_bucket) (auto intro: bucket_ok_uncache)
  with 2 show ?thesis by simp
qed (use assms in simp)

lemma send_cached_ping_step [simp, intro]: "table_step s (snd (send_cached_ping af i s))"
proof (cases rule: send_cached_ping_cases [of af i s])
  case (2 rc u)
  show ?thesis using table_step_trans [OF quiet_table_step [OF 2(1)] table_step_upd(1)] 2(2) by simp
qed simp

lemma send_cached_ping_calloc [simp]: "calloc_src (snd (send_cached_ping af i s)) = calloc_src s"
  by (cases rule: send_cached_ping_cases [of af i s]) (auto simp: quiet_fields)

lemma send_cached_ping_frame:
  "b_first (table af (snd (send_cached_ping af i s)) ! k) = b_first (table af s ! k)"
  "b_nodes (table af (snd (send_cached_ping af i s)) ! k) = b_nodes (table af s ! k)"
  "length (table af (snd (send_cached_ping af i s))) = length (table af s)"
  by (cases rule: send_cached_ping_cases [of af i s];
      auto simp: quiet_fields update_at_def nth_list_update)+

lemma send_cached_ping_aborted:
  assumes "rt_inv s" "inet af" "i < length (table af s)"
  shows "aborted (snd (send_cached_ping af i s)) = aborted s"
proof (cases rule: send_cached_ping_cases [of af i s])
  case (2 rc u)
  have "bucket_ok af (myid s) (bkt_lo (table af s) i) (bkt_hi (table af s) i) (table af s ! i)"
    using wf_tableD(2) [OF rt_inv_table [OF assms(1,2)] assms(3)] .
  then show ?thesis using 2 by (simp add: bucket_ok_def)
qed simp

subsection \<open>The bucket of an identifier is unique\<close>

lemma bkt_hi_lo: "Suc i < length bs \<Longrightarrow> bkt_hi bs i = bkt_lo bs (Suc i)"
  by (simp add: bkt_hi_def bkt_lo_def)

lemma wf_lo_hi: "wf_table af me bs \<Longrightarrow> i < length bs \<Longrightarrow> bkt_lo bs i < bkt_hi bs i"
  using wf_tableD(1) dyadic_less by blast

lemma wf_hi_le_lo:
  assumes "wf_table af me bs" "i < j" "j < length bs"
  shows "bkt_hi bs i \<le> bkt_lo bs j"
  using assms(2,3)
proof (induction j)
  case (Suc j)
  show ?case
  proof (cases "i = j")
    case True
    then show ?thesis using Suc.prems by (simp add: bkt_hi_lo)
  next
    case False
    then have "bkt_hi bs i \<le> bkt_lo bs j" using Suc by simp
    moreover have "bkt_lo bs j < bkt_hi bs j" using assms(1) Suc.prems by (simp add: wf_lo_hi)
    ultimately show ?thesis using Suc.prems by (simp add: bkt_hi_lo)
  qed
qed simp

lemma wf_interval_unique:
  assumes "wf_table af me bs" "i < length bs" "j < length bs"
    "bkt_lo bs i \<le> v" "v < bkt_hi bs i" "bkt_lo bs j \<le> v" "v < bkt_hi bs j"
  shows "i = j"
proof (rule ccontr)
  assume "i \<noteq> j"
  then consider "i < j" | "j < i" by linarith
  then show False using wf_hi_le_lo [OF assms(1)] assms(2-) by cases fastforce+
qed

lemma find_bucket_unique:
  assumes "wf_table af me bs" "valid_id x" "i < length bs"
    "bkt_lo bs i \<le> be_val x" "be_val x < bkt_hi bs i"
  shows "find_bucket_in x bs = Some i"
  using find_bucket_wf [OF assms(1,2)] wf_interval_unique [OF assms(1)] assms(3-) by fastforce

lemma in_bucket_wf:
  assumes "wf_table af me bs" "valid_id x" "i < length bs"
  shows "in_bucket x bs i \<longleftrightarrow> bkt_lo bs i \<le> be_val x \<and> be_val x < bkt_hi bs i"
proof -
  have "be_val x < 2 ^ 160" using assms(2) by (rule be_val_id_less)
  moreover have "Suc i \<noteq> length bs \<Longrightarrow> valid_id (b_first (bs ! Suc i))"
    using wf_tableD(3) [OF assms(1), of "Suc i"] assms(3) by simp
  ultimately show ?thesis
    using wf_tableD(3) [OF assms(1,3)] assms(2,3)
    by (auto simp: in_bucket_def bkt_lo_def bkt_hi_def id_cmp_be_val)
qed

lemma find_bucket_in_cong:
  "map b_first bs = map b_first bs' \<Longrightarrow> find_bucket_in x bs = find_bucket_in x bs'"
proof (induction x bs arbitrary: bs' rule: find_bucket_in.induct)
  case (2 x b)
  then show ?case by (cases bs') auto
next
  case (3 x b b' bs)
  then obtain c c' cs where "bs' = c # c' # cs" "b_first c = b_first b" "b_first c' = b_first b'"
    "map b_first bs = map b_first cs"
    by (cases bs'; cases "tl bs'") auto
  with "3.IH" [of "c' # cs"] show ?case by simp
qed simp

subsection \<open>The split in closed form\<close>

lemma set_table_set_table [simp]: "set_table af bs (set_table af bs' s) = set_table af bs s"
  by (simp add: set_table_def)

lemma set_table_table [simp]: "set_table af (table af s) s = s"
  by (simp add: set_table_def table_def)

lemma b_first_push_node [simp]: "b_first (push_node n b) = b_first b"
  by (simp add: push_node_def)

lemma fold_push_node:
  "fold push_node ns b = b\<lparr>b_nodes := rev ns @ b_nodes b, b_count := b_count b + int (length ns)\<rparr>"
  by (induction ns arbitrary: b) (simp_all add: push_node_def)

lemma fold_update_at_nth:
  "k < length bs \<Longrightarrow>
     fold (\<lambda>n. update_at (g n) (h n)) ns bs ! k = fold h (filter (\<lambda>n. g n = k) ns) (bs ! k)"
  by (induction ns arbitrary: bs) (simp_all add: nth_update_at)

lemma length_fold_update_at: "length (fold (\<lambda>n. update_at (g n) (h n)) ns bs) = length bs"
  by (induction ns arbitrary: bs) simp_all

lemma fold_insert_node:
  assumes "\<forall>n \<in> set ns. sa_family (n_ss n) = af \<and> find_bucket_in (n_id n) (table af s) = Some (g n)"
  shows "fold insert_node ns s =
    set_table af (fold (\<lambda>n. update_at (g n) (push_node n)) ns (table af s)) s"
  using assms
proof (induction ns arbitrary: s)
  case (Cons n ns)
  let ?bs = "update_at (g n) (push_node n) (table af s)"
  have "insert_node n s = set_table af ?bs s"
    using Cons.prems by (simp add: insert_node_def find_bucket_def upd_bucket_def)
  moreover have "find_bucket_in x ?bs = find_bucket_in x (table af s)" for x
    by (rule find_bucket_in_cong) (simp add: map_update_at)
  ultimately show ?case using Cons by simp
qed simp

text \<open>The two halves of a bucket \<open>b\<close> cut at \<open>m\<close>.\<close>

definition low_half :: "mem \<Rightarrow> bucket \<Rightarrow> bucket" where
  "low_half m b = (let ns = filter (\<lambda>n. be_val (n_id n) < be_val m) (b_nodes b) in
     b\<lparr>b_nodes := rev ns, b_count := int (length ns)\<rparr>)"

definition high_half :: "mem \<Rightarrow> bucket \<Rightarrow> bucket" where
  "high_half m b = (let ns = filter (\<lambda>n. \<not> be_val (n_id n) < be_val m) (b_nodes b) in
     \<lparr>b_af = b_af b, b_first = m, b_count = int (length ns), b_time = b_time b,
      b_nodes = rev ns, b_cached = zero_ss, b_cachedlen = 0\<rparr>)"

definition cut_table :: "nat \<Rightarrow> bucket \<Rightarrow> bucket \<Rightarrow> bucket list \<Rightarrow> bucket list" where
  "cut_table i b b' bs = take i bs @ b # b' # drop (Suc i) bs"

lemma length_cut_table [simp]: "i < length bs \<Longrightarrow> length (cut_table i b b' bs) = Suc (length bs)"
  by (simp add: cut_table_def)

lemma nth_cut_table:
  "i < length bs \<Longrightarrow> k < Suc (length bs) \<Longrightarrow> cut_table i b b' bs ! k =
     (if k < i then bs ! k else if k = i then b else if k = Suc i then b' else bs ! (k - 1))"
proof -
  assume a: "i < length bs" "k < Suc (length bs)"
  have "(b # b' # drop (Suc i) bs) ! (k - i) = bs ! (k - 1)" if "Suc i < k"
  proof -
    have e: "k - i = Suc (Suc (k - i - 2))" "Suc i + (k - i - 2) = k - 1" using that by linarith+
    have "(b # b' # drop (Suc i) bs) ! (k - i) = bs ! (Suc i + (k - i - 2))"
      using a by (subst e(1)) simp
    then show ?thesis unfolding e(2) .
  qed
  then show ?thesis using a by (auto simp: cut_table_def nth_append nth_Cons')
qed

lemma bkt_lo_cut:
  assumes "i < length bs" "k < Suc (length bs)" "b_first b = b_first (bs ! i)"
  shows "bkt_lo (cut_table i b b' bs) k =
    (if k \<le> i then bkt_lo bs k else if k = Suc i then be_val (b_first b') else bkt_lo bs (k - 1))"
  using assms by (auto simp: bkt_lo_def nth_cut_table)

lemma bkt_hi_cut:
  assumes "i < length bs" "k < Suc (length bs)" "b_first b = b_first (bs ! i)"
  shows "bkt_hi (cut_table i b b' bs) k =
    (if k < i then bkt_hi bs k else if k = i then be_val (b_first b') else bkt_hi bs (k - 1))"
proof -
  consider "Suc k < i" | "Suc k = i" | "i \<le> k" by linarith
  then show ?thesis using assms by cases (auto simp: bkt_hi_def nth_cut_table Suc_diff_Suc)
qed

lemma wf_cut_table:
  assumes wf: "wf_table af me bs" and i: "i < length bs"
    and d: "dyadic e (bkt_lo bs i) (be_val m)" "dyadic e' (be_val m) (bkt_hi bs i)"
    and ok: "b_first b = b_first (bs ! i)" "b_first b' = m"
      "bucket_ok af me (bkt_lo bs i) (be_val m) b" "bucket_ok af me (be_val m) (bkt_hi bs i) b'"
  shows "wf_table af me (cut_table i b b' bs)"
proof -
  have lo0: "bkt_lo bs 0 = 0" using wf i by (auto simp: wf_table_def)
  let ?c = "cut_table i b b' bs"
  have "(\<exists>d. dyadic d (bkt_lo ?c k) (bkt_hi ?c k)) \<and> bucket_ok af me (bkt_lo ?c k) (bkt_hi ?c k) (?c ! k)"
    if k: "k < Suc (length bs)" for k
  proof -
    consider "k < i" | "k = i" | "k = Suc i" | "Suc i < k" by linarith
    then show ?thesis
    proof cases
      case 1
      then show ?thesis using wf_tableD(1,2) [OF wf, of k] i k ok(1)
        by (simp add: bkt_lo_cut bkt_hi_cut nth_cut_table)
    next
      case 4
      then show ?thesis using wf_tableD(1,2) [OF wf, of "k - 1"] i k ok(1)
        by (simp add: bkt_lo_cut bkt_hi_cut nth_cut_table)
    qed (use d ok i k in \<open>auto simp: bkt_lo_cut bkt_hi_cut nth_cut_table\<close>)
  qed
  then show ?thesis using lo0 i ok(1) by (auto simp: wf_table_def bkt_lo_cut)
qed

lemma bucket_ok_empty:
  "bucket_ok af me lo hi b \<Longrightarrow> bucket_ok af me lo' hi' (b\<lparr>b_nodes := [], b_count := 0\<rparr>)"
  by (simp add: bucket_ok_def)

lemma bucket_ok_halves:
  assumes "bucket_ok af me lo hi b" "valid_id m"
  shows "bucket_ok af me lo (be_val m) (low_half m b)" "bucket_ok af me (be_val m) hi (high_half m b)"
  using assms le_trans [OF length_filter_le]
  by (auto simp: bucket_ok_def low_half_def high_half_def Let_def rev_map [symmetric] distinct_map_filter
      node_ok_def)

lemma end_ok_next:
  assumes "wf_table af me bs" "i < length bs"
  shows "end_ok (bkt_hi bs i) (next_first bs i)"
  using wf_tableD(3) [OF assms(1), of "Suc i"] by (simp add: end_ok_def next_first_def bkt_hi_def)

lemma wf_bucket_middle:
  assumes "wf_table af me bs" "i < length bs" "dyadic d (bkt_lo bs i) (bkt_hi bs i)" "d < 160"
  obtains m where "bucket_middle (b_first (bs ! i)) (next_first bs i) = Some m" "valid_id m"
    "be_val m = bkt_lo bs i + 2 ^ (159 - d)"
  using bucket_middle_dyadic [of d "b_first (bs ! i)" "bkt_hi bs i" "next_first bs i"]
    end_ok_next [OF assms(1,2)] wf_tableD(3) [OF assms(1,2)] assms(3,4)
  by (auto simp: bkt_lo_def)

text \<open>The nodes of the bucket that is cut go to the half of their identifier.\<close>

lemma fold_insert_halves:
  fixes bs :: "bucket list"
  assumes wf: "wf_table af me bs" and i: "i < length bs"
    and d: "dyadic e (bkt_lo bs i) (be_val m)" "dyadic e' (be_val m) (bkt_hi bs i)" and m: "valid_id m"
  defines "b \<equiv> bs ! i"
  defines "new \<equiv> \<lparr>b_af = b_af b, b_first = m, b_count = 0, b_time = b_time b,
                     b_nodes = [], b_cached = zero_ss, b_cachedlen = 0\<rparr>"
  shows "fold insert_node (b_nodes b) (set_table af (cut_table i (b\<lparr>b_nodes := [], b_count := 0\<rparr>) new bs) s)
     = set_table af (cut_table i (low_half m b) (high_half m b) bs) s"
proof -
  let ?c = "cut_table i (b\<lparr>b_nodes := [], b_count := 0\<rparr>) new bs"
  let ?g = "\<lambda>n. if be_val (n_id n) < be_val m then i else Suc i"
  have ok: "bucket_ok af me (bkt_lo bs i) (bkt_hi bs i) b" using wf_tableD(2) [OF wf i] by (simp add: b_def)
  have new: "bucket_ok af me (be_val m) (bkt_hi bs i) new"
    using ok m by (simp add: bucket_ok_def new_def)
  have wfc: "wf_table af me ?c"
    using ok new by (intro wf_cut_table [OF wf i d]) (auto simp: b_def new_def intro: bucket_ok_empty)
  have fb: "b_first (b\<lparr>b_nodes := [], b_count := 0\<rparr>) = b_first (bs ! i)" "b_first new = m"
    by (simp_all add: b_def new_def)
  have idx: "sa_family (n_ss n) = af \<and> find_bucket_in (n_id n) ?c = Some (?g n)" if "n \<in> set (b_nodes b)" for n
  proof -
    have "node_ok af me (bkt_lo bs i) (bkt_hi bs i) n" using ok that by (auto simp: bucket_ok_def)
    then show ?thesis
      using i fb by (auto simp: node_ok_def bkt_lo_cut bkt_hi_cut intro!: find_bucket_unique [OF wfc])
  qed
  have "fold (\<lambda>n. update_at (?g n) (push_node n)) (b_nodes b) ?c = cut_table i (low_half m b) (high_half m b) bs"
  proof (rule nth_equalityI, goal_cases)
    case 1
    then show ?case using i by (simp add: length_fold_update_at)
  next
    case (2 k)
    then have k: "k < Suc (length bs)" using i by (simp add: length_fold_update_at)
    consider "k = i" | "k = Suc i" | "k \<noteq> i" "k \<noteq> Suc i" by blast
    then show ?case
    proof cases
      case 3
      then have "filter (\<lambda>n. ?g n = k) (b_nodes b) = []" by (auto simp: filter_empty_conv)
      then show ?thesis using i k 3 by (simp add: fold_update_at_nth nth_cut_table)
    qed (use i k in \<open>simp_all add: fold_update_at_nth nth_cut_table fold_push_node low_half_def
          high_half_def Let_def new_def if_distrib [of "\<lambda>x. x = _"] cong: if_cong\<close>)
  qed
  then show ?thesis
    using fold_insert_node [of "b_nodes b" af "set_table af ?c s" ?g] idx by simp
qed

lemma split_bucket_eq:
  assumes inv: "rt_inv s" "inet af" and i: "i < length (table af s)"
    and d: "dyadic d (bkt_lo (table af s) i) (bkt_hi (table af s) i)" "d < 160"
  obtains m where "valid_id m" "be_val m = bkt_lo (table af s) i + 2 ^ (159 - d)"
    "split_bucket af i s =
       (let s' = s\<lparr>calloc_src := later (calloc_src s)\<rparr>; u = snd (send_cached_ping af i s');
            b = table af u ! i
        in if calloc_src s 0
           then (True, set_table af (cut_table i (low_half m b) (high_half m b) (table af u)) u)
           else (False, s'))"
proof -
  note wf = rt_inv_table [OF inv]
  from wf_bucket_middle [OF wf i d] obtain m where
    m: "bucket_middle (b_first (table af s ! i)) (next_first (table af s) i) = Some m" "valid_id m"
      "be_val m = bkt_lo (table af s) i + 2 ^ (159 - d)" .
  define s' where "s' = s\<lparr>calloc_src := later (calloc_src s)\<rparr>"
  define u where "u = snd (send_cached_ping af i s')"
  have s': "table af s' = table af s" "myid s' = myid s" by (simp_all add: s'_def table_def)
  have "rt_inv s'" using inv(1) by (simp add: rt_inv_def s'_def)
  then have iu: "rt_inv u" using inv(2) by (simp add: u_def send_cached_ping_rt_inv)
  have lu: "length (table af u) = length (table af s)" by (simp add: u_def send_cached_ping_frame s')
  have bk: "bkt_lo (table af u) i = bkt_lo (table af s) i" "bkt_hi (table af u) i = bkt_hi (table af s) i"
    by (simp_all add: bkt_lo_def bkt_hi_def u_def send_cached_ping_frame s')
  note h = dyadic_halves [OF d, folded m(3)]
  have "fold insert_node (b_nodes (table af u ! i))
      (set_table af (take i (table af u) @ (table af u ! i)\<lparr>b_nodes := [], b_count := 0\<rparr> #
         \<lparr>b_af = b_af (table af u ! i), b_first = m, b_count = 0, b_time = b_time (table af u ! i),
          b_nodes = [], b_cached = zero_ss, b_cachedlen = 0\<rparr> # drop (Suc i) (table af u)) u)
    = set_table af (cut_table i (low_half m (table af u ! i)) (high_half m (table af u ! i)) (table af u)) u"
    using fold_insert_halves [OF rt_inv_table [OF iu inv(2)], of i "Suc d" m "Suc d" u] i lu bk h m(2)
    by (simp add: cut_table_def)
  then show ?thesis
    by (intro that [OF m(2,3)])
      (simp add: split_bucket_def m(1) c_calloc_def Let_def s'_def [symmetric] u_def [symmetric])
qed

lemma split_bucket_step [simp, intro]: "rt_inv s \<Longrightarrow> inet af \<Longrightarrow> i < length (table af s) \<Longrightarrow>
    dyadic d (bkt_lo (table af s) i) (bkt_hi (table af s) i) \<Longrightarrow> d < 160 \<Longrightarrow>
    table_step s (snd (split_bucket af i s))"
proof (erule (4) split_bucket_eq)
  fix m
  let ?s = "s\<lparr>calloc_src := later (calloc_src s)\<rparr>"
  have a: "table_step s ?s" by simp
  assume "split_bucket af i s = (let s' = ?s; u = snd (send_cached_ping af i s'); b = table af u ! i
    in if calloc_src s 0
       then (True, set_table af (cut_table i (low_half m b) (high_half m b) (table af u)) u)
       else (False, s'))"
  moreover have "table_step s (set_table af bs (snd (send_cached_ping af i ?s)))" for bs
    using table_step_trans [OF a table_step_trans [OF send_cached_ping_step table_step_set_table]] .
  ultimately show ?thesis using a by (simp add: Let_def)
qed

text \<open>The split keeps the invariant, and both halves are one level deeper.\<close>

lemma split_bucket_ok:
  assumes inv: "rt_inv s" "inet af" and i: "i < length (table af s)"
    and d: "dyadic d (bkt_lo (table af s) i) (bkt_hi (table af s) i)" "d < 160"
    and t: "split_bucket af i s = (ok, t)"
  shows "rt_inv t" "ok = calloc_src s 0" "calloc_src t = later (calloc_src s)" "aborted t = aborted s"
    "ok \<Longrightarrow> dyadic (Suc d) (bkt_lo (table af t) i) (bkt_hi (table af t) i)"
    "ok \<Longrightarrow> dyadic (Suc d) (bkt_lo (table af t) (Suc i)) (bkt_hi (table af t) (Suc i))"
    "ok \<Longrightarrow> length (table af t) = Suc (length (table af s))"
    "ok \<Longrightarrow> bkt_lo (table af t) i = bkt_lo (table af s) i \<and> bkt_hi (table af t) (Suc i) = bkt_hi (table af s) i
       \<and> bkt_hi (table af t) i = bkt_lo (table af t) (Suc i)"
proof -
  define s' where "s' = s\<lparr>calloc_src := later (calloc_src s)\<rparr>"
  define u where "u = snd (send_cached_ping af i s')"
  define b where "b = table af u ! i"
  have s': "table af s' = table af s" "myid s' = myid s" "calloc_src s' = later (calloc_src s)"
    "aborted s' = aborted s" by (simp_all add: s'_def table_def)
  have is': "rt_inv s'" using inv(1) by (simp add: rt_inv_def s'_def)
  have lu: "length (table af u) = length (table af s)" by (simp add: u_def send_cached_ping_frame s')
  have bk: "bkt_lo (table af u) i = bkt_lo (table af s) i" "bkt_hi (table af u) i = bkt_hi (table af s) i"
    by (simp_all add: bkt_lo_def bkt_hi_def u_def send_cached_ping_frame s')
  have iu: "rt_inv u" "aborted u = aborted s" "calloc_src u = later (calloc_src s)"
    using is' inv(2) i by (simp_all add: u_def send_cached_ping_rt_inv send_cached_ping_aborted s')
  from split_bucket_eq [OF inv i d] obtain m where m: "valid_id m"
    "be_val m = bkt_lo (table af s) i + 2 ^ (159 - d)"
    "split_bucket af i s = (if calloc_src s 0
      then (True, set_table af (cut_table i (low_half m b) (high_half m b) (table af u)) u) else (False, s'))"
    unfolding s'_def u_def b_def Let_def by blast
  note h = dyadic_halves [OF d, folded m(2)]
  note wfu = rt_inv_table [OF iu(1) inv(2)]
  have bok: "bucket_ok af (myid u) (bkt_lo (table af u) i) (bkt_hi (table af u) i) b"
    unfolding b_def using wf_tableD(2) [OF wfu] i lu by simp
  have f: "b_first (low_half m b) = b_first (table af u ! i)" "b_first (high_half m b) = m"
    by (simp_all add: low_half_def high_half_def Let_def b_def)
  have wfc: "wf_table af (myid u) (cut_table i (low_half m b) (high_half m b) (table af u))"
    using i lu h bk bok m(1) f by (intro wf_cut_table [OF wfu]) (auto intro: bucket_ok_halves)
  show "rt_inv t" using t m(3) is' rt_inv_set_table [OF iu(1) inv(2) wfc] by (auto split: if_splits)
  show "ok = calloc_src s 0" "calloc_src t = later (calloc_src s)" "aborted t = aborted s"
    using t m(3) iu s' by (auto split: if_splits)
  assume ok
  then have tt: "table af t = cut_table i (low_half m b) (high_half m b) (table af u)"
    using t m(3) by (auto split: if_splits)
  show "dyadic (Suc d) (bkt_lo (table af t) i) (bkt_hi (table af t) i)"
    "dyadic (Suc d) (bkt_lo (table af t) (Suc i)) (bkt_hi (table af t) (Suc i))"
    "length (table af t) = Suc (length (table af s))"
    "bkt_lo (table af t) i = bkt_lo (table af s) i \<and> bkt_hi (table af t) (Suc i) = bkt_hi (table af s) i
       \<and> bkt_hi (table af t) i = bkt_lo (table af t) (Suc i)"
    using i lu f h bk by (simp_all add: tt bkt_lo_cut bkt_hi_cut)
qed

end
