(* ===== verification/Routing_Steps.thy ===== *)
theory Routing_Steps
  imports Routing_Split "HOL-Library.Multiset"
begin

text \<open>
  The operations on the routing table keep its invariant: learning about a node
  (\<^verbatim>\<open>new_node\<close>, with its recursion after a split), pinging, and expiry.
\<close>

subsection \<open>One node more, one node changed\<close>

lemma inet_family [simp]: "inet AF_INET" "inet AF_INET6"
  by (simp_all add: inet_def)

lemma node_ok_confirm_known:
  "good_sa sa salen \<Longrightarrow> \<not> is_martian sa \<Longrightarrow> node_ok (sa_family sa) me lo hi n \<Longrightarrow>
     node_ok (sa_family sa) me lo hi (confirm_known sa salen c t n)"
  using good_sa_swap [of "n_ss n" "n_sslen n" "memcpy (n_ss n) 0 sa salen"]
  by (simp add: node_ok_def confirm_known_def Let_def memcpy_good_sa)

lemma n_id_confirm_known [simp]: "n_id (confirm_known sa salen c t n) = n_id n"
  by (simp add: confirm_known_def Let_def)

lemma node_ok_replace_bad:
  "good_sa sa salen \<Longrightarrow> \<not> is_martian sa \<Longrightarrow> valid_id x \<Longrightarrow> x \<noteq> me \<Longrightarrow> lo \<le> be_val x \<Longrightarrow> be_val x < hi \<Longrightarrow>
     node_ok (sa_family sa) me lo' hi' n \<Longrightarrow> node_ok (sa_family sa) me lo hi (replace_bad x sa salen c t n)"
  using good_sa_swap [of "n_ss n" "n_sslen n" "memcpy (n_ss n) 0 sa salen"]
  by (simp add: node_ok_def replace_bad_def memcpy_good_sa valid_id_def)

lemma node_ok_fresh_node:
  "good_sa sa salen \<Longrightarrow> \<not> is_martian sa \<Longrightarrow> valid_id x \<Longrightarrow> x \<noteq> me \<Longrightarrow> lo \<le> be_val x \<Longrightarrow> be_val x < hi \<Longrightarrow>
     node_ok (sa_family sa) me lo hi (fresh_node x sa salen c t)"
  by (simp add: node_ok_def fresh_node_def memcpy_good_sa good_sa_memcpy valid_id_def)

lemma bucket_ok_push:
  "bucket_ok af me lo hi b \<Longrightarrow> node_ok af me lo hi n \<Longrightarrow> n_id n \<notin> n_id ` set (b_nodes b) \<Longrightarrow>
     length (b_nodes b) < 8 \<Longrightarrow> bucket_ok af me lo hi (push_node n b)"
  by (simp add: bucket_ok_def push_node_def)

lemma bucket_ok_replace:
  assumes "bucket_ok af me lo hi b" "j < length (b_nodes b)" "node_ok af me lo hi (f (b_nodes b ! j))"
    "n_id (f (b_nodes b ! j)) \<notin> n_id ` set (b_nodes b)"
  shows "bucket_ok af me lo hi (b\<lparr>b_nodes := update_at j f (b_nodes b)\<rparr>)"
proof -
  have u: "update_at j f (b_nodes b) = (b_nodes b)[j := f (b_nodes b ! j)]"
    using assms(2) by (simp add: update_at_def)
  have "distinct (map n_id ((b_nodes b)[j := f (b_nodes b ! j)]))"
    using assms(1,4) by (simp add: map_update bucket_ok_def distinct_list_update)
  moreover have "node_ok af me lo hi n" if "n \<in> set ((b_nodes b)[j := f (b_nodes b ! j)])" for n
    using that assms(1,3) set_update_subset_insert [of "b_nodes b" j "f (b_nodes b ! j)"]
    by (auto simp: bucket_ok_def)
  ultimately show ?thesis using assms(1) unfolding u by (simp add: bucket_ok_def)
qed

text \<open>The rule for an update of the bucket at a known position.\<close>

lemma rt_inv_upd_bucket_at:
  assumes "rt_inv s" "inet af" "\<And>b. b_first (f b) = b_first b"
    "i < length (table af s) \<Longrightarrow>
     bucket_ok af (myid s) (bkt_lo (table af s) i) (bkt_hi (table af s) i) (table af s ! i) \<Longrightarrow>
     bucket_ok af (myid s) (bkt_lo (table af s) i) (bkt_hi (table af s) i) (f (table af s ! i))"
  shows "rt_inv (upd_bucket af i f s)"
  unfolding upd_bucket_def
  using assms by (intro rt_inv_set_table wf_table_update rt_inv_table) auto

lemma rt_inv_grow_time [simp]:
  "rt_inv (s\<lparr>mybucket_grow_time := g\<rparr>) = rt_inv s" "rt_inv (s\<lparr>mybucket6_grow_time := g\<rparr>) = rt_inv s"
  "rt_inv (s\<lparr>calloc_src := ca\<rparr>) = rt_inv s" "rt_inv (s\<lparr>rand_src := ra\<rparr>) = rt_inv s"
  "rt_inv (s\<lparr>expire_stuff_time := x\<rparr>) = rt_inv s"
  by (simp_all add: rt_inv_def)

lemma table_env [simp]:
  "table af (s\<lparr>mybucket_grow_time := g\<rparr>) = table af s" "table af (s\<lparr>mybucket6_grow_time := g\<rparr>) = table af s"
  "table af (s\<lparr>calloc_src := ca\<rparr>) = table af s" "table af (s\<lparr>rand_src := ra\<rparr>) = table af s"
  "table af (s\<lparr>expire_stuff_time := x\<rparr>) = table af s"
  by (simp_all add: table_def)

lemma rt_inv_touch:
  "rt_inv s \<Longrightarrow> inet af \<Longrightarrow> rt_inv (upd_bucket af i (\<lambda>b. b\<lparr>b_time := t\<rparr>) s)"
  by (rule rt_inv_upd_bucket) (auto simp: bucket_ok_def)

lemma rt_inv_pinged_mark:
  "rt_inv s \<Longrightarrow> inet af \<Longrightarrow> rt_inv (upd_node af i j (\<lambda>n. n\<lparr>n_pinged := p n, n_pinged_time := t\<rparr>) s)"
  by (rule rt_inv_upd_node) (auto simp: node_ok_def)

lemma rt_inv_cache:
  assumes "rt_inv s" "good_sa sa salen" "af = sa_family sa"
  shows "rt_inv (upd_bucket af i (\<lambda>b. b\<lparr>b_cached := memcpy (b_cached b) 0 sa salen, b_cachedlen := salen\<rparr>) s)"
  using assms good_sa_len [OF assms(2)]
  by (intro rt_inv_upd_bucket) (auto simp: bucket_ok_def memcpy_good_sa)

lemma rt_bucket:
  assumes "rt_inv s" "inet af" "i < length (table af s)"
  shows "bucket_ok af (myid s) (bkt_lo (table af s) i) (bkt_hi (table af s) i) (table af s ! i)"
  using wf_tableD(2) [OF rt_inv_table [OF assms(1,2)] assms(3)] .

subsection \<open>Dubious nodes\<close>

lemma nth_update_at_if:
  "update_at i f xs ! j = (if i = j \<and> i < length xs then f (xs ! j) else xs ! j)"
  by (auto simp: update_at_def)

lemma dubious_scan_position: "snd (dubious_scan t ns) = Some j \<Longrightarrow> j < length ns"
  by (induction t ns arbitrary: j rule: dubious_scan.induct) (auto split: if_splits prod.splits)

lemma ping_dubious_cases:
  obtains d where "ping_dubious af i s = (d, s)"
  | d j u where "ping_dubious af i s = (d, upd_node af i j
        (\<lambda>n. n\<lparr>n_pinged := n_pinged n + 1, n_pinged_time := now u\<rparr>) u)"
      "u = snd (send_ping (n_ss (b_nodes (table af s ! i) ! j)) (n_sslen (b_nodes (table af s ! i) ! j))
         (make_tid (ascii ''pn'') 0) s)"
      "j < length (b_nodes (table af s ! i))"
proof -
  obtain d p where dp: "dubious_scan (now s) (b_nodes (table af s ! i)) = (d, p)" by fastforce
  show ?thesis
  proof (cases p)
    case None
    then show ?thesis using that(1) [of d] by (simp add: ping_dubious_def dp)
  next
    case (Some j)
    have "j < length (b_nodes (table af s ! i))" using dubious_scan_position [of "now s" _ j] dp Some by simp
    then show ?thesis
      by (intro that(2) [of d j, OF _ refl]) (simp_all add: ping_dubious_def dp Some Let_def case_prod_unfold)
  qed
qed

lemma ping_dubious_ok:
  assumes "rt_inv s" "inet af" "i < length (table af s)" "ping_dubious af i s = (d, t)"
  shows "rt_inv t" "aborted t = aborted s" "calloc_src t = calloc_src s" "table_step s t"
    "length (table af t) = length (table af s)"
    "b_first (table af t ! k) = b_first (table af s ! k)"
    "map n_id (b_nodes (table af t ! k)) = map n_id (b_nodes (table af s ! k))"
proof -
  have "rt_inv t \<and> aborted t = aborted s \<and> calloc_src t = calloc_src s \<and> table_step s t \<and>
    length (table af t) = length (table af s) \<and> b_first (table af t ! k) = b_first (table af s ! k) \<and>
    map n_id (b_nodes (table af t ! k)) = map n_id (b_nodes (table af s ! k))"
  proof (cases rule: ping_dubious_cases [of af i s])
    case (2 d' j u)
    let ?n = "b_nodes (table af s ! i) ! j"
    have "node_ok af (myid s) (bkt_lo (table af s) i) (bkt_hi (table af s) i) ?n"
      using rt_bucket [OF assms(1-3)] 2(3) by (auto simp: bucket_ok_def)
    then have "good_sa (n_ss ?n) (n_sslen ?n)" by (simp add: node_ok_def)
    from aborted_sends(1) [OF good_sa_len [OF this]] have ab: "aborted u = aborted s" by (simp add: 2(2))
    have q: "quiet s u" by (simp add: 2(2))
    have t: "t = upd_node af i j (\<lambda>n. n\<lparr>n_pinged := n_pinged n + 1, n_pinged_time := now u\<rparr>) u"
      using assms(4) 2(1) by simp
    have "rt_inv t" unfolding t
      using assms(1,2) quiet_rt_inv [OF q] by (intro rt_inv_pinged_mark) auto
    moreover have "table_step s t" unfolding t
      using quiet_table_step [OF q] table_step_upd(2) by (rule table_step_trans)
    moreover have "map n_id (update_at j (\<lambda>n. n\<lparr>n_pinged := n_pinged n + 1, n_pinged_time := now u\<rparr>) ns)
        = map n_id ns" for ns :: "node list" by (rule map_update_at) simp
    ultimately show ?thesis
      using ab q assms(3) unfolding t
      by (simp add: upd_node_def quiet_fields nth_update_at_if)
  qed (use assms in auto)
  then show "rt_inv t" "aborted t = aborted s" "calloc_src t = calloc_src s" "table_step s t"
    "length (table af t) = length (table af s)"
    "b_first (table af t ! k) = b_first (table af s ! k)"
    "map n_id (b_nodes (table af t ! k)) = map n_id (b_nodes (table af s ! k))"
    by blast+
qed

subsection \<open>Learning about a node\<close>

text \<open>What \<^verbatim>\<open>new_node\<close> promises: the invariant, and a pointer to a node with the identifier.\<close>

definition node_at :: "nat \<Rightarrow> mem \<Rightarrow> nat \<times> nat \<Rightarrow> 'a dht_scheme \<Rightarrow> bool" where
  "node_at af x p s \<longleftrightarrow> (case p of (i, j) \<Rightarrow> i < length (table af s) \<and>
     j < length (b_nodes (table af s ! i)) \<and> n_id (b_nodes (table af s ! i) ! j) = x)"

definition touched :: "nat \<Rightarrow> nat \<Rightarrow> int \<Rightarrow> 'a dht_scheme \<Rightarrow> 'a dht_scheme" where
  "touched af i confirm s =
     (if confirm = 2 then upd_bucket af i (\<lambda>b. b\<lparr>b_time := c_int (now s)\<rparr>) s else s)"

definition grown :: "nat \<Rightarrow> bool \<Rightarrow> 'a dht_scheme \<Rightarrow> 'a dht_scheme" where
  "grown af mine s = (if mine then
     (if af = AF_INET then s\<lparr>mybucket_grow_time := now s\<rparr> else s\<lparr>mybucket6_grow_time := now s\<rparr>) else s)"

lemma touched_props:
  assumes "rt_inv s" "inet af"
  shows "rt_inv (touched af i c s)" "table_step s (touched af i c s)" "aborted (touched af i c s) = aborted s"
    "calloc_src (touched af i c s) = calloc_src s" "length (table af (touched af i c s)) = length (table af s)"
    "myid (touched af i c s) = myid s" "now (touched af i c s) = now s"
    "b_first (table af (touched af i c s) ! k) = b_first (table af s ! k)"
    "b_nodes (table af (touched af i c s) ! k) = b_nodes (table af s ! k)"
  using assms by (auto simp: touched_def rt_inv_touch nth_update_at_if)

lemma grown_props [simp]:
  "rt_inv (grown af m s) = rt_inv s" "aborted (grown af m s) = aborted s"
  "calloc_src (grown af m s) = calloc_src s" "table af' (grown af m s) = table af' s"
  "myid (grown af m s) = myid s" "now (grown af m s) = now s" "table_step s (grown af m s)"
  by (simp_all add: grown_def)

text \<open>The call in a known bucket: its outcomes, over the state after the unconditional updates.\<close>

lemma new_node_rec_go:
  fixes c :: int
  assumes "find_bucket x (sa_family sa) s = Some i" "id_cmp x (myid s) \<noteq> 0" "\<not> is_martian sa"
    "node_blacklisted sa salen s = (False, s)"
  defines "af \<equiv> sa_family sa"
  defines "mine \<equiv> in_bucket (myid s) (table af s) i"
  defines "s1 \<equiv> touched af i c s"
  defines "s2 \<equiv> grown af mine s1"
  defines "ns \<equiv> b_nodes (table af s1 ! i)"
  shows "new_node_rec (Suc fuel) x sa salen c s =
    (case find_index (\<lambda>n. id_cmp (n_id n) x = 0) ns of
       Some j \<Rightarrow> (Some (i, j), upd_node af i j (confirm_known sa salen c (now s1)) s1)
     | None \<Rightarrow>
       case find_index (\<lambda>n. n_pinged n \<ge> 3 \<and> n_pinged_time n < now s2 - 15) ns of
         Some j \<Rightarrow> (Some (i, j), upd_node af i j (replace_bad x sa salen c (now s2)) s2)
       | None \<Rightarrow>
         if b_count (table af s1 ! i) \<ge> 8 then
           case ping_dubious af i s2 of (dubious, u) \<Rightarrow>
             if mine \<and> (\<not> dubious \<or> (b_af (table af s1 ! i) = AF_INET \<and> length (buckets u) = 1) \<or>
                  (b_af (table af s1 ! i) = AF_INET6 \<and> length (buckets6 u) = 1))
             then new_node_rec fuel x sa salen c (snd (split_bucket af i u))
             else (None,
               if c \<noteq> 0 \<or> sa_family (b_cached (table af u ! i)) = 0
               then upd_bucket af i (\<lambda>b. b\<lparr>b_cached := memcpy (b_cached b) 0 sa salen, b_cachedlen := salen\<rparr>) u
               else u)
         else if calloc_src s2 0
           then (Some (i, 0), upd_bucket af i (push_node (fresh_node x sa salen c (now s2)))
                   (s2\<lparr>calloc_src := later (calloc_src s2)\<rparr>))
         else (None, s2\<lparr>calloc_src := later (calloc_src s2)\<rparr>))"
  using assms(1-4)
  by (simp add: new_node_rec.simps Let_def touched_def [symmetric] grown_def [symmetric]
      c_calloc_def case_prod_unfold af_def mine_def s1_def s2_def ns_def cong: if_cong option.case_cong)

lemma new_node_rec_stop:
  assumes "find_bucket x (sa_family sa) s = None \<or> id_cmp x (myid s) = 0 \<or> is_martian sa \<or> bad"
    "node_blacklisted sa salen s = (bad, s)"
  shows "new_node_rec (Suc fuel) x sa salen c s = (None, s)"
  using assms by (cases "find_bucket x (sa_family sa) s") (auto simp: new_node_rec.simps Let_def)

lemma find_bucket_interval:
  assumes "rt_inv s" "inet af" "valid_id x" "find_bucket x af s = Some i"
  shows "i < length (table af s)" "bkt_lo (table af s) i \<le> be_val x" "be_val x < bkt_hi (table af s) i"
  using find_bucket_wf [OF rt_inv_table [OF assms(1,2)] assms(3)] assms(4) by (auto simp: find_bucket_def)

lemma bkt_cong:
  assumes "length bs = length bs'" "\<And>k. b_first (bs ! k) = b_first (bs' ! k)"
  shows "bkt_lo bs i = bkt_lo bs' i" "bkt_hi bs i = bkt_hi bs' i"
  using assms by (simp_all add: bkt_lo_def bkt_hi_def)

lemma confirm_known_rt_inv:
  assumes "rt_inv s" "good_sa sa salen" "\<not> is_martian sa"
  shows "rt_inv (upd_node (sa_family sa) i j (confirm_known sa salen c t) s)"
  using assms by (intro rt_inv_upd_node) (auto intro: node_ok_confirm_known)

lemma new_id_bucket:
  assumes "rt_inv s" "good_sa sa salen" "valid_id x" "x \<noteq> myid s" "\<not> is_martian sa"
    "find_bucket x (sa_family sa) s = Some i" "x \<notin> n_id ` set (b_nodes (table (sa_family sa) s ! i))"
  shows "j < length (b_nodes (table (sa_family sa) s ! i)) \<Longrightarrow>
      rt_inv (upd_node (sa_family sa) i j (replace_bad x sa salen c t) s)"
    and "length (b_nodes (table (sa_family sa) s ! i)) < 8 \<Longrightarrow>
      rt_inv (upd_bucket (sa_family sa) i (push_node (fresh_node x sa salen c t)) s)"
proof -
  let ?af = "sa_family sa"
  note fi = find_bucket_interval [OF assms(1) good_sa_inet [OF assms(2)] assms(3,6)]
  note ok = rt_bucket [OF assms(1) good_sa_inet [OF assms(2)] fi(1)]
  have id: "n_id (replace_bad x sa salen c t n) = x" "n_id (fresh_node x sa salen c t) = x" for n
    using assms(3) by (simp_all add: replace_bad_def fresh_node_def valid_id_def)
  show "rt_inv (upd_node ?af i j (replace_bad x sa salen c t) s)" if j: "j < length (b_nodes (table ?af s ! i))"
    unfolding upd_node_def
  proof (rule rt_inv_upd_bucket_at [OF assms(1) good_sa_inet [OF assms(2)]])
    have "node_ok ?af (myid s) (bkt_lo (table ?af s) i) (bkt_hi (table ?af s) i) (b_nodes (table ?af s ! i) ! j)"
      using ok j by (auto simp: bucket_ok_def)
    then show "bucket_ok ?af (myid s) (bkt_lo (table ?af s) i) (bkt_hi (table ?af s) i)
      ((table ?af s ! i)\<lparr>b_nodes := update_at j (replace_bad x sa salen c t) (b_nodes (table ?af s ! i))\<rparr>)"
      using assms fi ok j by (intro bucket_ok_replace) (auto simp: id intro: node_ok_replace_bad)
  qed simp
  show "rt_inv (upd_bucket ?af i (push_node (fresh_node x sa salen c t)) s)"
    if "length (b_nodes (table ?af s ! i)) < 8"
    using assms fi ok that
    by (intro rt_inv_upd_bucket_at [OF assms(1) good_sa_inet [OF assms(2)]] bucket_ok_push)
      (auto simp: id intro: node_ok_fresh_node)
qed

text \<open>A bucket with two nodes or more is not a single point, so it can be cut.\<close>

lemma dyadic_room:
  assumes "bucket_ok af me lo hi b" "dyadic d lo hi" "2 \<le> length (b_nodes b)"
  shows "d < 160"
proof (rule ccontr)
  assume "\<not> d < 160"
  then have hi: "hi = Suc lo" using assms(2) by (simp add: dyadic_def)
  have "length (n_id n) = 20 \<and> be_val (n_id n) = lo" if "n \<in> set (b_nodes b)" for n
  proof -
    have "node_ok af me lo hi n" using that assms(1) by (simp add: bucket_ok_def)
    then show ?thesis using hi by (simp add: node_ok_def valid_id_def)
  qed
  then have eq: "n_id n = n_id n'" if "n \<in> set (b_nodes b)" "n' \<in> set (b_nodes b)" for n n'
    using that be_val_inject [of "n_id n" "n_id n'"] by simp
  have "0 < length (b_nodes b)" "1 < length (b_nodes b)" using assms(3) by linarith+
  then have "b_nodes b ! 0 \<in> set (b_nodes b)" "b_nodes b ! 1 \<in> set (b_nodes b)"
    by (simp_all only: nth_mem)
  from eq [OF this] have "map n_id (b_nodes b) ! 0 = map n_id (b_nodes b) ! 1"
    using \<open>0 < length (b_nodes b)\<close> \<open>1 < length (b_nodes b)\<close> by (simp only: nth_map)
  moreover have "distinct (map n_id (b_nodes b))" using assms(1) by (simp add: bucket_ok_def)
  moreover have "0 < length (map n_id (b_nodes b))" "1 < length (map n_id (b_nodes b))"
    using \<open>0 < length (b_nodes b)\<close> \<open>1 < length (b_nodes b)\<close> by (simp_all only: length_map)
  ultimately have "(0 :: nat) = 1" by (simp only: nth_eq_iff_index_eq)
  then show False by simp
qed

text \<open>The level of the bucket of an identifier.\<close>

definition at_depth :: "nat \<Rightarrow> mem \<Rightarrow> nat \<Rightarrow> 'a dht_scheme \<Rightarrow> bool" where
  "at_depth af x d s \<longleftrightarrow> (\<forall>i. find_bucket x af s = Some i \<longrightarrow>
     dyadic d (bkt_lo (table af s) i) (bkt_hi (table af s) i))"

lemma split_depth:
  assumes "rt_inv s" "inet af" "valid_id x" "find_bucket x af s = Some i" "at_depth af x d s" "d < 160"
    "split_bucket af i s = (True, t)"
  shows "at_depth af x (Suc d) t"
proof -
  note fi = find_bucket_interval [OF assms(1-4)]
  have d: "dyadic d (bkt_lo (table af s) i) (bkt_hi (table af s) i)"
    using assms(4,5) by (simp add: at_depth_def)
  note sp = split_bucket_ok [OF assms(1,2) fi(1) d assms(6,7)]
  note wf = rt_inv_table [OF sp(1) assms(2)]
  have len: "length (table af t) = Suc (length (table af s))"
    and iv: "bkt_lo (table af t) i = bkt_lo (table af s) i" "bkt_hi (table af t) (Suc i) = bkt_hi (table af s) i"
      "bkt_hi (table af t) i = bkt_lo (table af t) (Suc i)"
    using sp(7,8) by auto
  consider "find_bucket x af t = Some i" | "find_bucket x af t = Some (Suc i)"
  proof (cases "be_val x < bkt_hi (table af t) i")
    case True
    then have "find_bucket_in x (table af t) = Some i"
      using fi iv len by (intro find_bucket_unique [OF wf assms(3)]) auto
    then show ?thesis using that(1) by (simp add: find_bucket_def)
  next
    case False
    then have "find_bucket_in x (table af t) = Some (Suc i)"
      using fi iv len by (intro find_bucket_unique [OF wf assms(3)]) auto
    then show ?thesis using that(2) by (simp add: find_bucket_def)
  qed
  then show ?thesis using sp(5,6) by cases (auto simp: at_depth_def)
qed

lemma node_at_upd_node:
  assumes "i < length (table af s)" "j < length (b_nodes (table af s ! i))"
    "n_id (f (b_nodes (table af s ! i) ! j)) = x"
  shows "node_at af x (i, j) (upd_node af i j f s)"
  using assms by (simp add: node_at_def upd_node_def nth_update_at)

lemma node_at_push:
  "i < length (table af s) \<Longrightarrow> n_id n = x \<Longrightarrow> node_at af x (i, 0) (upd_bucket af i (push_node n) s)"
  by (simp add: node_at_def nth_update_at push_node_def)

lemma find_bucket_cong:
  assumes "length (table af t) = length (table af s)" "\<And>k. b_first (table af t ! k) = b_first (table af s ! k)"
  shows "find_bucket x af t = find_bucket x af s" "at_depth af x d t = at_depth af x d s"
proof -
  have "map b_first (table af t) = map b_first (table af s)"
    using assms by (intro nth_equalityI) auto
  then show "find_bucket x af t = find_bucket x af s"
    unfolding find_bucket_def by (rule find_bucket_in_cong)
  then show "at_depth af x d t = at_depth af x d s"
    by (simp add: at_depth_def bkt_cong [OF assms])
qed

lemma id_cmp_notin:
  "valid_id x \<Longrightarrow> \<forall>n \<in> set ns. valid_id (n_id n) \<Longrightarrow>
     find_index (\<lambda>n. id_cmp (n_id n) x = 0) ns = None \<longleftrightarrow> x \<notin> n_id ` set ns"
  by (auto simp: find_index_None id_cmp_eq)

lemma bucket_ok_valid: "bucket_ok af me lo hi b \<Longrightarrow> \<forall>n \<in> set (b_nodes b). valid_id (n_id n)"
  by (simp add: bucket_ok_def node_ok_def)

lemma node_blacklisted_pair:
  "salen \<le> sizeof_ss \<Longrightarrow> node_blacklisted sa salen s = (fst (node_blacklisted sa salen s), s)"
  using node_blacklisted_state by (metis prod.collapse)

text \<open>
  The heart of the argument: with enough depth left for the levels under the bucket, the
  recursion ends, whatever the table holds.
\<close>

lemma new_node_rec_ok:
  assumes "rt_inv s" "good_sa sa salen" "valid_id x" "new_node_rec fuel x sa salen c s = (r, t)"
  shows "rt_inv t \<and> table_step s t \<and> (\<forall>p. r = Some p \<longrightarrow> node_at (sa_family sa) x p t) \<and>
    ((\<forall>k. calloc_src s k) \<longrightarrow> (\<forall>k. calloc_src t k)) \<and>
    ((\<forall>k. calloc_src s k) \<longrightarrow> at_depth (sa_family sa) x d s \<longrightarrow> d \<le> 160 \<longrightarrow> 160 - d < fuel \<longrightarrow>
       aborted t = aborted s)"
  using assms(1,4)
proof (induction fuel arbitrary: s d)
  case 0
  then have "t = c_abort s" "r = None" by (simp_all add: new_node_rec.simps)
  then show ?case using 0 quiet_rt_inv [OF quiet_abort, of s] quiet_table_step [OF quiet_abort, of s] by simp
next
  case (Suc fuel)
  define af where "af = sa_family sa"
  have af: "inet af" using assms(2) by (simp add: af_def)
  have nb: "node_blacklisted sa salen s = (fst (node_blacklisted sa salen s), s)"
    using assms(2) by (intro node_blacklisted_pair) (simp add: good_sa_def)
  show ?case
  proof (cases "find_bucket x af s = None \<or> id_cmp x (myid s) = 0 \<or> is_martian sa \<or> fst (node_blacklisted sa salen s)")
    case True
    then have "(r, t) = (None, s)"
      using Suc.prems(2) new_node_rec_stop [OF _ nb, of x fuel c] by (simp add: af_def)
    then show ?thesis using Suc.prems(1) by simp
  next
    case False
    then obtain i where i: "find_bucket x af s = Some i" by auto
    note fi = find_bucket_interval [OF Suc.prems(1) af assms(3) i]
    have pre: "id_cmp x (myid s) \<noteq> 0" "\<not> is_martian sa" "node_blacklisted sa salen s = (False, s)"
      using False nb by auto
    have xm: "x \<noteq> myid s" using pre(1) by auto
    define mine where "mine = in_bucket (myid s) (table af s) i"
    define s1 where "s1 = touched af i c s"
    define s2 where "s2 = grown af mine s1"
    define ns where "ns = b_nodes (table af s1 ! i)"
    note tp = touched_props [OF Suc.prems(1) af, where i = i and c = c, folded s1_def]
    have s2: "rt_inv s2" "table_step s s2" "aborted s2 = aborted s" "calloc_src s2 = calloc_src s"
      "table af s2 = table af s1" "myid s2 = myid s" "now s2 = now s" "rt_inv s1"
      using tp table_step_trans [OF tp(2) grown_props(7)] by (simp_all add: s2_def)
    have c21: "find_bucket x af s2 = find_bucket x af s1" "at_depth af x d s2 = at_depth af x d s1"
      by (simp_all only: find_bucket_def at_depth_def s2(5))
    have fb2: "find_bucket x af s2 = Some i" "at_depth af x d s2 = at_depth af x d s"
      using c21 find_bucket_cong [of af s1 s x, OF tp(5,8)] i by simp_all
    note fi2 = find_bucket_interval [OF s2(1) af assms(3) fb2(1)]
    note ok2 = rt_bucket [OF s2(1) af fi2(1)]
    have ns: "ns = b_nodes (table af s2 ! i)" using s2(5) by (simp add: ns_def)
    note go = new_node_rec_go [OF i [unfolded af_def] pre, where c = c and fuel = fuel, folded af_def,
        folded s1_def mine_def, folded s2_def ns_def, unfolded Suc.prems(2)]
    consider (known) j where "find_index (\<lambda>n. id_cmp (n_id n) x = 0) ns = Some j"
      | (bad) j where "find_index (\<lambda>n. id_cmp (n_id n) x = 0) ns = None"
          "find_index (\<lambda>n. n_pinged n \<ge> 3 \<and> n_pinged_time n < now s2 - 15) ns = Some j"
      | (full) "find_index (\<lambda>n. id_cmp (n_id n) x = 0) ns = None" "b_count (table af s1 ! i) \<ge> 8"
          "find_index (\<lambda>n. n_pinged n \<ge> 3 \<and> n_pinged_time n < now s2 - 15) ns = None"
      | (room) "find_index (\<lambda>n. id_cmp (n_id n) x = 0) ns = None" "\<not> b_count (table af s1 ! i) \<ge> 8"
          "find_index (\<lambda>n. n_pinged n \<ge> 3 \<and> n_pinged_time n < now s2 - 15) ns = None"
      by (cases "find_index (\<lambda>n. id_cmp (n_id n) x = 0) ns";
          cases "find_index (\<lambda>n. n_pinged n \<ge> 3 \<and> n_pinged_time n < now s2 - 15) ns";
          cases "b_count (table af s1 ! i) \<ge> 8") blast+
    then show ?thesis
    proof cases
      case known
      then have rt: "r = Some (i, j)" "t = upd_node af i j (confirm_known sa salen c (now s1)) s1"
        using go by simp_all
      have j: "j < length (b_nodes (table af s1 ! i))" "n_id (b_nodes (table af s1 ! i) ! j) = x"
        using find_index_SomeD [OF known] bucket_ok_valid [OF ok2] assms(3) s2(5) unfolding ns
        by (auto simp: id_cmp_eq)
      have "node_at af x (i, j) t" unfolding rt using fi2(1) s2(5) j by (intro node_at_upd_node) auto
      moreover have "rt_inv t" unfolding rt af_def using s2(8) assms(2) pre(2) by (rule confirm_known_rt_inv)
      moreover have "table_step s t" unfolding rt using tp(2) table_step_upd(2) by (rule table_step_trans)
      ultimately show ?thesis using tp(3,4) by (simp add: rt upd_node_def af_def)
    next
      case bad
      then have rt: "r = Some (i, j)" "t = upd_node af i j (replace_bad x sa salen c (now s2)) s2"
        using go by simp_all
      have nin: "x \<notin> n_id ` set (b_nodes (table af s2 ! i))"
        using bad(1) id_cmp_notin [OF assms(3) bucket_ok_valid [OF ok2]] unfolding ns by simp
      have j: "j < length (b_nodes (table af s2 ! i))" using find_index_Some_less [OF bad(2)] by (simp add: ns)
      have "node_at af x (i, j) t" unfolding rt using fi2(1) j assms(3)
        by (intro node_at_upd_node) (auto simp: replace_bad_def valid_id_def)
      moreover have "rt_inv t" unfolding rt af_def
        using new_id_bucket(1) [OF s2(1) assms(2,3)] xm pre(2) fb2(1) nin j s2(6) by (simp add: af_def)
      moreover have "table_step s t" unfolding rt using s2(2) table_step_upd(2) by (rule table_step_trans)
      ultimately show ?thesis using s2(3,4) by (simp add: rt upd_node_def af_def)
    next
      case room
      define s3 where "s3 = s2\<lparr>calloc_src := later (calloc_src s2)\<rparr>"
      have s3: "rt_inv s3" "table af s3 = table af s2" "myid s3 = myid s" "aborted s3 = aborted s"
        "find_bucket x af s3 = Some i" "calloc_src s3 = later (calloc_src s)"
        using s2 fb2(1) by (simp_all add: s3_def find_bucket_def)
      have t3: "table_step s s3" unfolding s3_def using s2(2) table_step_env_fields(1) by (rule table_step_trans)
      have rt: "(r, t) = (if calloc_src s2 0
          then (Some (i, 0), upd_bucket af i (push_node (fresh_node x sa salen c (now s2))) s3) else (None, s3))"
        using go room by (simp add: s3_def)
      have nin: "x \<notin> n_id ` set (b_nodes (table af s3 ! i))"
        using room(1) id_cmp_notin [OF assms(3) bucket_ok_valid [OF ok2]] s3(2) unfolding ns by simp
      have "length (b_nodes (table af s3 ! i)) < 8"
        using room(2) ok2 s3(2) s2(5) by (simp add: bucket_ok_def)
      then have "rt_inv (upd_bucket af i (push_node (fresh_node x sa salen c (now s2))) s3)"
        unfolding af_def using new_id_bucket(2) [OF s3(1) assms(2,3)] xm pre(2) s3 nin by (simp add: af_def)
      moreover have "node_at af x (i, 0) (upd_bucket af i (push_node (fresh_node x sa salen c (now s2))) s3)"
        using fi2(1) s3(2) assms(3) by (intro node_at_push) (auto simp: fresh_node_def valid_id_def)
      moreover have "table_step s (upd_bucket af i (push_node (fresh_node x sa salen c (now s2))) s3)"
        using t3 table_step_upd(1) by (rule table_step_trans)
      ultimately show ?thesis using rt s3 t3 by (auto simp: af_def later_def split: if_splits)
    next
      case full
      obtain dub u where u: "ping_dubious af i s2 = (dub, u)" by fastforce
      note pd = ping_dubious_ok [OF s2(1) af fi2(1) u]
      have tu: "table_step s u" using s2(2) pd(4) by (rule table_step_trans)
      have fbu: "find_bucket x af u = Some i" "at_depth af x d u = at_depth af x d s2" for d
        using find_bucket_cong [OF pd(5,6)] fb2(1) by simp_all
      note fiu = find_bucket_interval [OF pd(1) af assms(3) fbu(1)]
      note oku = rt_bucket [OF pd(1) af fiu(1)]
      have two: "2 \<le> length (b_nodes (table af u ! i))"
        using full(2) ok2 s2(5) map_eq_imp_length_eq [OF pd(7) [of i]] by (simp add: bucket_ok_def)
      let ?split = "mine \<and> (\<not> dub \<or> (b_af (table af s1 ! i) = AF_INET \<and> length (buckets u) = 1) \<or>
                  (b_af (table af s1 ! i) = AF_INET6 \<and> length (buckets6 u) = 1))"
      let ?v = "upd_bucket af i (\<lambda>b. b\<lparr>b_cached := memcpy (b_cached b) 0 sa salen, b_cachedlen := salen\<rparr>) u"
      have g: "(r, t) = (if ?split then new_node_rec fuel x sa salen c (snd (split_bucket af i u))
          else (None, if c \<noteq> 0 \<or> sa_family (b_cached (table af u ! i)) = 0 then ?v else u))"
        using go by (simp only: full u option.case prod.case if_True)
      show ?thesis
      proof (cases ?split)
        case True
        obtain okk v where v: "split_bucket af i u = (okk, v)" by fastforce
        obtain e where e: "dyadic e (bkt_lo (table af u) i) (bkt_hi (table af u) i)"
          using wf_tableD(1) [OF rt_inv_table [OF pd(1) af] fiu(1)] by blast
        have e160: "e < 160" using dyadic_room [OF oku e two] .
        note sp = split_bucket_ok [OF pd(1) af fiu(1) e e160 v]
        have rec: "new_node_rec fuel x sa salen c v = (r, t)"
          using g unfolding if_P [OF True] v by simp
        have tv: "table_step s v"
          using tu split_bucket_step [OF pd(1) af fiu(1) e e160] v by (metis snd_conv table_step_trans)
        have fin: "aborted t = aborted s"
          if "\<forall>k. calloc_src s k" "at_depth af x d s" "d \<le> 160" "160 - d < Suc fuel"
        proof -
          have ca: "calloc_src u = calloc_src s" using pd(3) s2(4) by simp
          then have okk using sp(2) that(1) by simp
          have du: "at_depth af x d u" using that(2) fb2(2) fbu(2) by simp
          then have "d = e" using e fbu(1) dyadic_unique by (auto simp: at_depth_def)
          then have "at_depth af x (Suc d) v"
            using split_depth [OF pd(1) af assms(3) fbu(1) du] e160 v \<open>okk\<close> by simp
          moreover have "\<forall>k. calloc_src v k" using sp(3) ca that(1) by (simp add: later_def)
          ultimately have "aborted t = aborted v"
            using Suc.IH [OF sp(1) rec, of "Suc d"] that e160 \<open>d = e\<close> by (simp add: af_def)
          then show ?thesis using sp(4) pd(2) s2(3) by simp
        qed
        have ih: "rt_inv t" "table_step v t" "\<forall>p. r = Some p \<longrightarrow> node_at (sa_family sa) x p t"
          "(\<forall>k. calloc_src v k) \<longrightarrow> (\<forall>k. calloc_src t k)"
          using Suc.IH [OF sp(1) rec] by blast+
        moreover have "(\<forall>k. calloc_src s k) \<longrightarrow> (\<forall>k. calloc_src v k)"
          using sp(3) pd(3) s2(4) by (simp add: later_def)
        ultimately show ?thesis using fin table_step_trans [OF tv ih(2)] unfolding af_def by blast
      next
        case False
        have rt: "r = None" "t = (if c \<noteq> 0 \<or> sa_family (b_cached (table af u ! i)) = 0 then ?v else u)"
          using g unfolding if_not_P [OF False] by simp_all
        have "rt_inv ?v" using rt_inv_cache [OF pd(1) assms(2)] by (simp add: af_def)
        moreover have "table_step s ?v" using tu table_step_upd(1) by (rule table_step_trans)
        ultimately show ?thesis using pd(1,2,3) tu s2(3,4) by (auto simp: rt)
      qed
    qed
  qed
qed

lemma some_depth:
  assumes "rt_inv s" "inet af" "valid_id x"
  shows "\<exists>d \<le> 160. at_depth af x d s"
proof (cases "find_bucket x af s")
  case None
  then show ?thesis by (auto simp: at_depth_def)
next
  case (Some i)
  then obtain d where "dyadic d (bkt_lo (table af s) i) (bkt_hi (table af s) i)"
    using wf_tableD(1) [OF rt_inv_table [OF assms(1,2)] find_bucket_interval(1) [OF assms Some]] by blast
  then show ?thesis using Some by (intro exI [of _ d]) (auto simp: at_depth_def dyadic_def)
qed

lemma new_node_ok:
  assumes "rt_inv s" "good_sa sa salen" "valid_id x" "new_node x sa salen c s = (r, t)"
  shows "rt_inv t" "table_step s t" "\<And>p. r = Some p \<Longrightarrow> node_at (sa_family sa) x p t"
    "(\<And>k. calloc_src s k) \<Longrightarrow> aborted t = aborted s" "(\<And>k. calloc_src s k) \<Longrightarrow> calloc_src t k"
  using new_node_rec_ok [OF assms(1-3) assms(4) [unfolded new_node_def]]
    some_depth [OF assms(1) good_sa_inet [OF assms(2)] assms(3)]
  by (auto simp: new_node_depth_def)

text \<open>
  One level of the recursion either ends with a result that does not depend on the depth left, or
  calls itself once; so a call that ends within some depth gives the same result at any greater one.
\<close>

definition one_call :: "(nat \<Rightarrow> 's \<Rightarrow> 'r) \<Rightarrow> (nat \<Rightarrow> 'r) \<Rightarrow> bool" where
  "one_call rec F \<longleftrightarrow> (\<exists>q. \<forall>n. F n = q) \<or> (\<exists>v. \<forall>n. F n = rec n v)"

lemma one_call_case:
  "one_call rec F \<Longrightarrow> (\<And>i. one_call rec (H i)) \<Longrightarrow> one_call rec (\<lambda>n. case m of None \<Rightarrow> F n | Some i \<Rightarrow> H i n)"
  by (cases m) auto

lemma one_call_rules:
  "one_call rec (\<lambda>n. q)"
  "one_call rec (\<lambda>n. rec n v)"
  "one_call rec F \<Longrightarrow> one_call rec G \<Longrightarrow> one_call rec (\<lambda>n. if b then F n else G n)"
  "(\<And>i j. one_call rec (K i j)) \<Longrightarrow> one_call rec (\<lambda>n. case p of (i, j) \<Rightarrow> K i j n)"
  "(\<And>i. one_call rec (H i)) \<Longrightarrow> one_call rec (\<lambda>n. let i = e in H i n)"
proof -
  show "one_call rec (\<lambda>n. q)" "one_call rec (\<lambda>n. rec n v)" by (auto simp: one_call_def)
qed (cases b; simp add: case_prod_unfold Let_def)+

lemma new_node_rec_level:
  "one_call (\<lambda>n. new_node_rec n x sa salen c) (\<lambda>n. new_node_rec (Suc n) x sa salen c s)"
  unfolding new_node_rec.simps Let_def by (intro one_call_rules one_call_case)

lemma new_node_rec_Suc:
  "\<not> aborted (snd (new_node_rec fuel x sa salen c s)) \<Longrightarrow>
   new_node_rec (Suc fuel) x sa salen c s = new_node_rec fuel x sa salen c s"
proof (induction fuel arbitrary: s)
  case 0
  then show ?case by (simp add: new_node_rec.simps c_abort_def)
next
  case (Suc fuel)
  then show ?case using new_node_rec_level [of x sa salen c s] unfolding one_call_def by metis
qed

lemma new_node_rec_more:
  "\<not> aborted (snd (new_node_rec fuel x sa salen c s)) \<Longrightarrow> fuel \<le> n \<Longrightarrow>
   new_node_rec n x sa salen c s = new_node_rec fuel x sa salen c s"
proof (induction n)
  case (Suc n)
  then show ?case using new_node_rec_Suc [of n x sa salen c s] by (cases "fuel = Suc n") auto
qed simp

text \<open>
  The other side: a node without memory whose own bucket is full of good nodes. \<^verbatim>\<open>split_bucket\<close>
  fails and changes nothing, \<^verbatim>\<open>new_node\<close> ignores that and calls itself with the same arguments.
\<close>

definition split_stuck :: "mem \<Rightarrow> mem \<Rightarrow> nat \<Rightarrow> nat \<Rightarrow> 'a dht_scheme \<Rightarrow> bool" where
  "split_stuck x sa salen i s \<longleftrightarrow>
     find_bucket x (sa_family sa) s = Some i \<and> i < length (table (sa_family sa) s) \<and>
     in_bucket (myid s) (table (sa_family sa) s) i \<and>
     id_cmp x (myid s) \<noteq> 0 \<and> \<not> is_martian sa \<and> \<not> fst (node_blacklisted sa salen s) \<and>
     b_count (table (sa_family sa) s ! i) \<ge> 8 \<and>
     (\<forall>n \<in> set (b_nodes (table (sa_family sa) s ! i)). node_good (now s) n \<and> id_cmp (n_id n) x \<noteq> 0) \<and>
     (\<forall>k. \<not> calloc_src s k)"

lemma dubious_scan_good: "\<forall>n \<in> set ns. node_good t n \<Longrightarrow> dubious_scan t ns = (False, None)"
  by (induction ns) auto

lemma split_bucket_no_memory:
  "\<forall>k. \<not> calloc_src s k \<Longrightarrow>
   snd (split_bucket af i s) = s \<or> snd (split_bucket af i s) = s\<lparr>calloc_src := later (calloc_src s)\<rparr>"
  by (simp add: split_bucket_def Let_def c_calloc_def split: option.split)

lemma node_blacklisted_cong:
  "blist t = blist s \<Longrightarrow> extbl t = extbl s \<Longrightarrow> fst (node_blacklisted sa salen t) = fst (node_blacklisted sa salen s)"
  by (simp add: node_blacklisted_def)

lemma new_node_rec_ends:
  assumes "rt_inv s" "good_sa sa salen" "valid_id x" "\<And>k. calloc_src s k" "160 < n"
  shows "aborted (snd (new_node_rec n x sa salen c s)) = aborted s"
  using new_node_rec_ok [OF assms(1-3) surjective_pairing] some_depth [OF assms(1) good_sa_inet [OF assms(2)] assms(3)]
    assms(4,5) by fastforce

lemma split_stuck_kept:
  assumes "split_stuck x sa salen i s" "salen \<le> sizeof_ss" "now t = now s" "myid t = myid s" "blist t = blist s"
    "extbl t = extbl s" "\<forall>k. \<not> calloc_src t k" "length (table (sa_family sa) t) = length (table (sa_family sa) s)"
    "\<And>k. b_first (table (sa_family sa) t ! k) = b_first (table (sa_family sa) s ! k)"
    "b_count (table (sa_family sa) t ! i) = b_count (table (sa_family sa) s ! i)"
    "b_nodes (table (sa_family sa) t ! i) = b_nodes (table (sa_family sa) s ! i)"
  shows "split_stuck x sa salen i t"
  using assms find_bucket_cong(1) [OF assms(8,9), of x] node_blacklisted_cong [of t s sa salen]
  by (auto simp: split_stuck_def in_bucket_def)

lemma new_node_rec_stuck:
  fixes s :: "'a dht_scheme"
  assumes "split_stuck x sa salen i s" "salen \<le> sizeof_ss"
  shows "\<exists>v. split_stuck x sa salen i v \<and>
    (new_node_rec (Suc fuel) x sa salen c s = new_node_rec fuel x sa salen c v)"
proof -
  define af where "af = sa_family sa"
  define u where "u = grown af True (touched af i c s)"
  have st: "find_bucket x af s = Some i" "id_cmp x (myid s) \<noteq> 0" "\<not> is_martian sa"
    "node_blacklisted sa salen s = (False, s)" "in_bucket (myid s) (table af s) i"
    "b_count (table af s ! i) \<ge> 8" "\<forall>k. \<not> calloc_src s k"
    and good: "\<forall>n \<in> set (b_nodes (table af s ! i)). node_good (now s) n \<and> id_cmp (n_id n) x \<noteq> 0"
    using assms(1) node_blacklisted_pair [OF assms(2), of sa s] by (simp_all add: split_stuck_def af_def)
  have t: "b_nodes (table af (touched af i c s) ! k) = b_nodes (table af s ! k)"
    "b_count (table af (touched af i c s) ! k) = b_count (table af s ! k)"
    "b_first (table af (touched af i c s) ! k) = b_first (table af s ! k)"
    "length (table af (touched af i c s)) = length (table af s)"
    "now (touched af i c s) = now s" "myid (touched af i c s) = myid s" "blist (touched af i c s) = blist s"
    "extbl (touched af i c s) = extbl s" "calloc_src (touched af i c s) = calloc_src s" for k
    by (auto simp: touched_def nth_update_at_if)
  have gr: "blist (grown af True z) = blist z" "extbl (grown af True z) = extbl z" for z :: "'a dht_scheme"
    by (simp_all add: grown_def)
  have u: "now u = now s" "calloc_src u = calloc_src s" "b_nodes (table af u ! i) = b_nodes (table af s ! i)"
    using t by (simp_all add: u_def)
  have pd: "ping_dubious af i u = (False, u)"
    using good u dubious_scan_good [of "b_nodes (table af s ! i)" "now s"] by (simp add: ping_dubious_def)
  have fi: "find_index (\<lambda>n. id_cmp (n_id n) x = 0) (b_nodes (table af s ! i)) = None"
    "find_index (\<lambda>n. n_pinged n \<ge> 3 \<and> n_pinged_time n < now s - 15) (b_nodes (table af s ! i)) = None"
    using good by (auto simp: find_index_None node_good_def)
  note go = new_node_rec_go [OF st(1) [unfolded af_def] st(2-4), where c = c and fuel = fuel, folded af_def]
  have "new_node_rec (Suc fuel) x sa salen c s = new_node_rec fuel x sa salen c (snd (split_bucket af i u))"
    unfolding go by (simp add: st(5,6) t fi pd u u_def [symmetric])
  moreover have su: "split_stuck x sa salen i u"
    using t st(7) gr by (intro split_stuck_kept [OF assms]) (simp_all add: u_def af_def [symmetric])
  have "split_stuck x sa salen i (u\<lparr>calloc_src := later (calloc_src u)\<rparr>)"
    using u(2) st(7) by (intro split_stuck_kept [OF su assms(2)]) (simp_all add: later_def)
  then have "split_stuck x sa salen i (snd (split_bucket af i u))"
    using split_bucket_no_memory [of u af i] u(2) st(7) su by auto
  ultimately show ?thesis by blast
qed

lemma table_step_myid: "table_step s t \<Longrightarrow> myid t = myid s"
  by (simp add: table_step_fields)

subsection \<open>Pinging and expiry\<close>

lemma pinged_ok:
  assumes "rt_inv s" "inet af" "i < length (table af s)" "j < length (b_nodes (table af s ! i))"
    "\<And>k. q = Some k \<Longrightarrow> k < length (table af s)"
  shows "rt_inv (pinged af i j q s)" "table_step s (pinged af i j q s)"
    "aborted (pinged af i j q s) = aborted s"
proof -
  define u where "u = upd_node af i j (\<lambda>n. n\<lparr>n_pinged := n_pinged n + 1, n_pinged_time := now s\<rparr>) s"
  define n where "n = b_nodes (table af u ! i) ! j"
  have u: "rt_inv u" "table_step s u" "aborted u = aborted s" "length (table af u) = length (table af s)"
    using rt_inv_pinged_mark [OF assms(1,2)] by (simp_all add: u_def upd_node_def)
  have iu: "i < length (table af u)" using assms(3) u(4) by simp
  have "j < length (b_nodes (table af u ! i))"
    using assms(3,4) by (simp add: u_def upd_node_def nth_update_at)
  then have "n \<in> set (b_nodes (table af u ! i))" unfolding n_def by (rule nth_mem)
  then have n: "valid_id (n_id n)" "sa_family (n_ss n) = af"
    using rt_bucket [OF u(1) assms(2) iu] by (auto simp: bucket_ok_def node_ok_def)
  have ping: "rt_inv (snd (send_cached_ping af k u)) \<and> table_step s (snd (send_cached_ping af k u)) \<and>
      aborted (snd (send_cached_ping af k u)) = aborted s" if "k < length (table af u)" for k
    using send_cached_ping_rt_inv [OF u(1) assms(2)] table_step_trans [OF u(2) send_cached_ping_step]
      send_cached_ping_aborted [OF u(1) assms(2) that] u(3) by simp
  have eq: "pinged af i j q s = (if n_pinged n \<ge> 3 then
      (case q of Some k \<Rightarrow> snd (send_cached_ping af k u)
       | None \<Rightarrow> (case find_bucket (n_id n) af u of None \<Rightarrow> c_abort u
                  | Some k \<Rightarrow> snd (send_cached_ping af k u))) else u)"
    unfolding pinged_def Let_def u_def [symmetric] n_def [symmetric] n(2) by (rule refl)
  have "find_bucket (n_id n) af u \<noteq> None"
    using find_bucket_wf [OF rt_inv_table [OF u(1) assms(2)] n(1)] iu by (auto simp: find_bucket_def)
  then show "rt_inv (pinged af i j q s)" "table_step s (pinged af i j q s)"
    "aborted (pinged af i j q s) = aborted s"
    using ping u assms(5) find_bucket_interval(1) [OF u(1) assms(2) n(1)] unfolding eq
    by (auto split: option.split)
qed

lemma expire_bucket_ok: "bucket_ok af me lo hi b \<Longrightarrow> bucket_ok af me lo hi (expire_bucket b)"
  using le_trans [OF length_filter_le, of "b_nodes b" 8]
  by (auto simp: bucket_ok_def expire_bucket_def Let_def distinct_map_filter of_nat_diff)

lemma b_first_expire [simp]: "b_first (expire_bucket b) = b_first b"
  by (simp add: expire_bucket_def Let_def)

lemma expire_from_ok:
  assumes "rt_inv s" "inet af" "\<forall>i \<in> set is. i < length (table af s)"
  shows "rt_inv (expire_from af is s) \<and> table_step s (expire_from af is s) \<and>
    aborted (expire_from af is s) = aborted s"
  using assms(1,3)
proof (induction "is" arbitrary: s)
  case (Cons i "is")
  define u where "u = upd_bucket af i expire_bucket s"
  define v where "v = (if \<exists>n \<in> set (b_nodes (table af s ! i)). n_pinged n \<ge> 4
    then snd (send_cached_ping af i u) else u)"
  have u: "rt_inv u" unfolding u_def using Cons.prems(1) assms(2)
    by (rule rt_inv_upd_bucket) (simp_all add: expire_bucket_ok)
  have su: "table_step s u" by (simp add: u_def)
  have "rt_inv v" using u assms(2) by (simp add: v_def send_cached_ping_rt_inv)
  moreover have "table_step s v"
    unfolding v_def using su table_step_trans [OF su send_cached_ping_step] by simp
  moreover have "aborted v = aborted s"
    using send_cached_ping_aborted [OF u assms(2), of i] Cons.prems(2) by (simp add: v_def) (simp add: u_def)
  moreover have "length (table af v) = length (table af s)" by (simp add: v_def send_cached_ping_frame) (simp add: u_def)
  moreover have "expire_from af (i # is) s = expire_from af is v"
    by (simp add: u_def v_def Let_def)
  ultimately show ?case using Cons.IH [of v] Cons.prems(2) table_step_trans by auto
qed simp

lemma expire_buckets_ok:
  assumes "rt_inv s" "inet af"
  shows "rt_inv (expire_buckets af s)" "table_step s (expire_buckets af s)"
    "aborted (expire_buckets af s) = aborted s"
proof -
  define u where "u = expire_from af [0..<length (table af s)] s"
  have u: "rt_inv u \<and> table_step s u \<and> aborted u = aborted s"
    unfolding u_def using assms by (intro expire_from_ok) auto
  obtain r where r: "expire_buckets af s = u\<lparr>rand_src := later (rand_src u), expire_stuff_time := r\<rparr>"
    by (simp add: expire_buckets_def c_random_def u_def [symmetric] Let_def)
  have "table_step u (expire_buckets af s)" unfolding r
    using table_step_trans [OF table_step_env_fields(2) table_step_env_fields(5)] .
  then show "table_step s (expire_buckets af s)" using u table_step_trans by blast
  show "rt_inv (expire_buckets af s)" "aborted (expire_buckets af s) = aborted s"
    using u unfolding r by simp_all
qed

lemma upd_node_fields [simp]:
  "calloc_src (upd_node af i j f s) = calloc_src s" "now (upd_node af i j f s) = now s"
  "myid (upd_node af i j f s) = myid s" "aborted (upd_node af i j f s) = aborted s"
  "length (table af' (upd_node af i j f s)) = length (table af' s)"
  by (simp_all add: upd_node_def) (simp add: upd_bucket_def table_def set_table_def)

lemma pinged_calloc [simp]: "calloc_src (pinged af i j q s) = calloc_src s"
  by (auto simp: pinged_def Let_def c_abort_def split: option.split)

lemma expire_from_calloc [simp]: "calloc_src (expire_from af is s) = calloc_src s"
  by (induction "is" arbitrary: s) (simp_all add: Let_def)

lemma expire_buckets_calloc [simp]: "calloc_src (expire_buckets af s) = calloc_src s"
  by (simp add: expire_buckets_def c_random_def Let_def)

subsection \<open>Properties\<close>

lemma rt_inv_one_bucket:
  assumes "valid_id (myid s)" "buckets s = [calloc_bucket AF_INET]" "buckets6 s = []"
  shows "rt_inv s"
proof -
  have "dyadic 0 0 (2 ^ 160)" by (simp add: dyadic_def)
  moreover have "be_val (replicate 20 0) = 0" by simp
  moreover have "valid_id (replicate 20 0)" by (simp add: valid_id_def)
  ultimately have "wf_table AF_INET (myid s) [calloc_bucket AF_INET]"
    unfolding wf_table_def bkt_lo_def bkt_hi_def bucket_ok_def calloc_bucket_def
    by (auto simp: sizeof_ss_def sa_family_def intro!: exI [of _ 0])
  then show ?thesis using assms by (simp add: rt_inv_def wf_table_def [of AF_INET6])
qed

text \<open>The state of the witnesses: a node with one empty IPv4 bucket.\<close>

definition one_bucket_dht :: dht where
  "one_bucket_dht = (static_dht (\<lambda>_. 0) (\<lambda>_. True) (\<lambda>_. 0))\<lparr>buckets := [calloc_bucket AF_INET]\<rparr>"

lemma one_bucket_ok [simp]:
  "rt_inv one_bucket_dht" "table AF_INET one_bucket_dht = [calloc_bucket AF_INET]"
  "calloc_src one_bucket_dht k" "aborted one_bucket_dht = False" "myid one_bucket_dht = zeroes"
  by (auto simp: one_bucket_dht_def static_dht_def table_def valid_id_def zeroes_def intro!: rt_inv_one_bucket)

lemma good_sa_mk_sin [simp]: "length a = 4 \<Longrightarrow> length p = 2 \<Longrightarrow> good_sa (mk_sin a p) 16"
  by (simp add: good_sa_def mk_sin_def sizeof_ss_def sa_family_def rd_def AF_INET_def)

text \<open>
  C16: the recursion of \<^verbatim>\<open>new_node\<close> ends, as long as \<^verbatim>\<open>calloc\<close> succeeds. In a well-formed table and for
  an address of one of the two families, learning about a node calls itself at most 160 times: with
  any depth above 160 the call neither aborts nor uses the depth up, and it gives the result of the
  depth of 200 that the model allows. Each split moves the bucket of the identifier one of the 160
  levels down, and a bucket of one point is never full.
\<close>

theorem new_node_terminates:
  assumes "rt_inv s" "good_sa sa salen" "valid_id x" "\<And>k. calloc_src s k" "160 < depth"
  shows "aborted (snd (new_node_rec depth x sa salen confirm s)) = aborted s \<and>
    (\<not> aborted s \<longrightarrow> new_node_rec depth x sa salen confirm s = new_node x sa salen confirm s)"
proof -
  note ends = new_node_rec_ends [OF assms(1-4), of _ confirm]
  have "new_node_rec n x sa salen confirm s = new_node_rec 161 x sa salen confirm s"
    if "160 < n" "\<not> aborted s" for n
    using ends [of 161] that by (intro new_node_rec_more) auto
  from this [of depth] this [of 200] show ?thesis
    using ends [OF assms(5)] assms(5) by (auto simp: new_node_def new_node_depth_def)
qed

lemma new_node_terminates_witness:
  "new_node_rec 161 (replicate 20 7) (mk_sin [10, 0, 0, 1] [0, 7]) 16 1 one_bucket_dht =
     new_node (replicate 20 7) (mk_sin [10, 0, 0, 1] [0, 7]) 16 1 one_bucket_dht \<and>
   aborted (snd (new_node (replicate 20 7) (mk_sin [10, 0, 0, 1] [0, 7]) 16 1 one_bucket_dht)) = False"
  using new_node_terminates [of one_bucket_dht "mk_sin [10, 0, 0, 1] [0, 7]" 16 "replicate 20 7" 161 1]
  by (auto simp: valid_id_def)

text \<open>
  Without memory the recursion need not end: in a state where our own bucket holds eight good nodes,
  none of them the one to learn about, no depth is enough. The cause is that \<^verbatim>\<open>new_node\<close> does not look
  at what \<^verbatim>\<open>split_bucket\<close> returns.
\<close>

theorem new_node_loops:
  "split_stuck x sa salen i s \<Longrightarrow> salen \<le> sizeof_ss \<Longrightarrow> aborted (snd (new_node_rec depth x sa salen confirm s))"
proof (induction depth arbitrary: s)
  case 0
  then show ?case by (simp add: new_node_rec.simps c_abort_def)
next
  case (Suc depth)
  then obtain v where "split_stuck x sa salen i v"
    "new_node_rec (Suc depth) x sa salen confirm s = new_node_rec depth x sa salen confirm v"
    using new_node_rec_stuck by blast
  then show ?case using Suc by simp
qed

definition full_bucket_dht :: dht where
  "full_bucket_dht = (static_dht (\<lambda>_. 0) (\<lambda>_. False) (\<lambda>_. 0))\<lparr>buckets :=
     [(calloc_bucket AF_INET)\<lparr>b_count := 8, b_nodes :=
        map (\<lambda>k. fresh_node (replicate 20 k) (mk_sin [10, 0, 0, 1] [0, 7]) 16 2 0) [1, 2, 3, 4, 5, 6, 7, 8]\<rparr>]\<rparr>"

lemma new_node_loops_witness:
  "aborted (snd (new_node (replicate 20 9) (mk_sin [10, 0, 0, 1] [0, 7]) 16 2 full_bucket_dht))"
proof -
  have "split_stuck (replicate 20 9) (mk_sin [10, 0, 0, 1] [0, 7]) 16 0 full_bucket_dht"
    unfolding split_stuck_def
  proof (intro conjI)
    show "\<forall>k. \<not> calloc_src full_bucket_dht k" by (simp add: full_bucket_dht_def static_dht_def)
  qed code_simp+
  from new_node_loops [OF this] show ?thesis by (simp add: new_node_def sizeof_ss_def)
qed

text \<open>
  C17: \<^verbatim>\<open>new_node\<close> keeps the routing table well-formed, whatever the table holds and the allocator
  answers: the buckets still cut the identifier space into aligned intervals, each has at most
  eight nodes of its interval with distinct identifiers, never our own, never a martian address,
  and its counter is right. A node it returns is in the table and has the identifier; nothing
  but the table, its clocks and the environment changes.
\<close>

theorem new_node_keeps_table:
  assumes "rt_inv s" "good_sa sa salen" "valid_id x" "new_node x sa salen confirm s = (r, t)"
  shows "rt_inv t \<and> table_step s t \<and> (\<forall>p. r = Some p \<longrightarrow> node_at (sa_family sa) x p t)"
  using new_node_ok(1-3) [OF assms] by blast

lemma new_node_keeps_table_witness:
  "rt_inv (snd (new_node (replicate 20 7) (mk_sin [10, 0, 0, 1] [0, 7]) 16 1 one_bucket_dht))"
  using new_node_keeps_table [of one_bucket_dht "mk_sin [10, 0, 0, 1] [0, 7]" 16 "replicate 20 7" 1]
  by (simp add: valid_id_def) (metis prod.collapse)

text \<open>
  \<^verbatim>\<open>find_bucket\<close> finds the bucket of an identifier: in a well-formed table with at least one
  bucket it returns the one bucket that \<^verbatim>\<open>in_bucket\<close> accepts, and no other bucket is accepted.
\<close>

theorem find_bucket_exact:
  assumes "rt_inv s" "inet af" "valid_id x" "table af s \<noteq> []"
  shows "\<exists>i. find_bucket x af s = Some i \<and>
    (\<forall>j < length (table af s). in_bucket x (table af s) j \<longleftrightarrow> j = i) \<and> i < length (table af s)"
proof -
  note wf = rt_inv_table [OF assms(1,2)]
  from find_bucket_wf [OF wf assms(3)] assms(4) obtain i where
    i: "i < length (table af s)" "find_bucket x af s = Some i"
    by (auto simp: find_bucket_def)
  have "in_bucket x (table af s) j \<longleftrightarrow> j = i" if "j < length (table af s)" for j
    using in_bucket_wf [OF wf assms(3) that] find_bucket_interval [OF assms(1-3) i(2)]
      find_bucket_unique [OF wf assms(3) that] i by (auto simp: find_bucket_def)
  then show ?thesis using i by blast
qed

lemma find_bucket_exact_witness:
  "\<exists>i. find_bucket (replicate 20 7) AF_INET one_bucket_dht = Some i"
  using find_bucket_exact [of one_bucket_dht AF_INET "replicate 20 7"] by (auto simp: valid_id_def)

text \<open>
  C18: \<^verbatim>\<open>split_bucket\<close> halves a bucket. When the bucket has two nodes or more and \<^verbatim>\<open>calloc\<close> succeeds,
  there is a middle \<open>m\<close> such that afterwards the bucket holds exactly its nodes below \<open>m\<close>, a new
  bucket right behind it starts at \<open>m\<close> and holds exactly the others, both intervals are half as
  long, all other buckets are where they were, and the table is well-formed.
\<close>

theorem split_bucket_halves:
  assumes "rt_inv s" "inet af" "i < length (table af s)" "2 \<le> length (b_nodes (table af s ! i))" "calloc_src s 0"
  shows "\<exists>m t. split_bucket af i s = (True, t) \<and> rt_inv t \<and> valid_id m \<and>
    mset (b_nodes (table af t ! i)) = filter_mset (\<lambda>n. be_val (n_id n) < be_val m) (mset (b_nodes (table af s ! i))) \<and>
    mset (b_nodes (table af t ! Suc i)) = filter_mset (\<lambda>n. \<not> be_val (n_id n) < be_val m) (mset (b_nodes (table af s ! i))) \<and>
    b_first (table af t ! Suc i) = m \<and>
    be_val m - bkt_lo (table af s) i = bkt_hi (table af s) i - be_val m \<and>
    (\<forall>k < length (table af s). k \<noteq> i \<longrightarrow> table af t ! (if k < i then k else Suc k) = table af s ! k)"
proof -
  obtain d where d: "dyadic d (bkt_lo (table af s) i) (bkt_hi (table af s) i)"
    using wf_tableD(1) [OF rt_inv_table [OF assms(1,2)] assms(3)] by blast
  have d160: "d < 160" using dyadic_room [OF rt_bucket [OF assms(1-3)] d assms(4)] .
  define s' where "s' = s\<lparr>calloc_src := later (calloc_src s)\<rparr>"
  define u where "u = snd (send_cached_ping af i s')"
  from split_bucket_eq [OF assms(1-3) d d160] obtain m where
    m: "valid_id m" "be_val m = bkt_lo (table af s) i + 2 ^ (159 - d)" "split_bucket af i s = (if calloc_src s 0
      then (True, set_table af (cut_table i (low_half m (table af u ! i)) (high_half m (table af u ! i)) (table af u)) u)
      else (False, s'))"
    unfolding s'_def u_def Let_def by blast
  define t where "t = set_table af (cut_table i (low_half m (table af u ! i)) (high_half m (table af u ! i)) (table af u)) u"
  have mt: "split_bucket af i s = (True, t)" using m(3) assms(5) by (simp add: t_def)
  have lu: "length (table af u) = length (table af s)" "b_nodes (table af u ! i) = b_nodes (table af s ! i)"
    by (simp_all add: u_def s'_def send_cached_ping_frame)
  have other: "table af u ! k = table af s ! k" if "k \<noteq> i" for k
    using that by (cases rule: send_cached_ping_cases [of af i s'])
      (auto simp: u_def s'_def quiet_fields nth_update_at_if)
  have p: "(2 :: nat) ^ (160 - d) = 2 ^ (159 - d) + 2 ^ (159 - d)"
  proof -
    have "160 - d = Suc (159 - d)" using d160 by simp
    then show ?thesis by (simp only: power_Suc mult_2)
  qed
  have "rt_inv t" using split_bucket_ok(1) [OF assms(1-3) d d160 mt] .
  moreover have "be_val m - bkt_lo (table af s) i = bkt_hi (table af s) i - be_val m"
    using d m(2) p by (simp add: dyadic_def)
  ultimately show ?thesis
    using m(1) mt assms(3) lu other
    by (intro exI [of _ m] exI [of _ t])
      (auto simp: t_def nth_cut_table low_half_def high_half_def Let_def)
qed

definition two_node_dht :: dht where
  "two_node_dht = fold (\<lambda>c. upd_bucket AF_INET 0 (push_node (fresh_node (replicate 20 c) (mk_sin [10, 0, 0, 1] [0, c]) 16 1 0)))
     [7, 200] one_bucket_dht"

lemma is_martian_mk_sin:
  "length a = 4 \<Longrightarrow> p = [x, y] \<Longrightarrow> is_martian (mk_sin a p) \<longleftrightarrow> (x = 0 \<and> y = 0) \<or> rd a 0 = 0 \<or> rd a 0 = 127 \<or> rd a 0 AND 0xE0 = 0xE0"
  by (auto simp: is_martian_def mk_sin_def sin_addr_def slice_def rd_def sa_family_def AF_INET_def nth_append Let_def)

lemma two_node_ok:
  "rt_inv two_node_dht" "length (table AF_INET two_node_dht) = 1" "length (b_nodes (table AF_INET two_node_dht ! 0)) = 2"
  "calloc_src two_node_dht 0"
proof -
  let ?n = "\<lambda>c. fresh_node (replicate 20 c) (mk_sin [10, 0, 0, 1] [0, c]) 16 1 0"
  let ?u = "upd_bucket AF_INET 0 (push_node (?n 7)) one_bucket_dht"
  have fam: "sa_family (mk_sin [10, 0, 0, 1] [0, c]) = AF_INET" for c
    by (simp add: mk_sin_def sa_family_def rd_def AF_INET_def)
  have g: "good_sa (mk_sin [10, 0, 0, 1] [0, c]) 16" for c by simp
  have m: "\<not> is_martian (mk_sin [10, 0, 0, 1] [0, c])" if "c \<noteq> 0" for c
    using that by (simp add: is_martian_mk_sin)
  have v: "valid_id (replicate 20 c)" for c by (simp add: valid_id_def)
  have one: "find_bucket x AF_INET one_bucket_dht = Some 0" "b_nodes (table AF_INET one_bucket_dht ! 0) = []" for x
    by (simp_all add: find_bucket_def calloc_bucket_def)
  have z: "replicate 20 c \<noteq> zeroes" if "c \<noteq> 0" for c :: byte using that by (simp add: zeroes_def numeral_eq_Suc)
  have i1: "rt_inv ?u"
    unfolding fam [of 7, symmetric]
    by (rule new_id_bucket(2)) (use g v m one z in \<open>simp_all add: fam\<close>)
  have u: "table AF_INET ?u = [push_node (?n 7) (calloc_bucket AF_INET)]" "myid ?u = zeroes"
    by (simp_all add: update_at_def)
  have two: "find_bucket x AF_INET ?u = Some 0" "n_id ` set (b_nodes (table AF_INET ?u ! 0)) = {replicate 20 7}"
    "length (b_nodes (table AF_INET ?u ! 0)) = 1" for x
    unfolding find_bucket_def u(1) by (simp_all add: push_node_def calloc_bucket_def fresh_node_def)
  have "rt_inv (upd_bucket AF_INET 0 (push_node (?n 200)) ?u)"
    unfolding fam [of 200, symmetric]
    by (rule new_id_bucket(2)) (use i1 g v m two z u(2) in \<open>simp_all add: fam\<close>)
  then show "rt_inv two_node_dht" by (simp add: two_node_dht_def)
  show "length (table AF_INET two_node_dht) = 1" "length (b_nodes (table AF_INET two_node_dht ! 0)) = 2"
    "calloc_src two_node_dht 0"
    by (simp_all add: two_node_dht_def nth_update_at push_node_def) (simp add: calloc_bucket_def)
qed

lemma split_bucket_halves_witness:
  "\<exists>t. split_bucket AF_INET 0 two_node_dht = (True, t) \<and> rt_inv t"
  using split_bucket_halves [of two_node_dht AF_INET 0] two_node_ok by auto

text \<open>
  \<^verbatim>\<open>expire_buckets\<close> keeps the routing table well-formed, changes nothing but the table and the
  environment, and does not abort.
\<close>

theorem expire_buckets_keeps_table:
  assumes "rt_inv s" "inet af"
  shows "rt_inv (expire_buckets af s) \<and> table_step s (expire_buckets af s) \<and>
    aborted (expire_buckets af s) = aborted s"
  using expire_buckets_ok [OF assms] by blast

lemma expire_buckets_keeps_table_witness: "rt_inv (expire_buckets AF_INET one_bucket_dht)"
  using expire_buckets_keeps_table [of one_bucket_dht AF_INET] by simp

end
