(* ===== verification/Searches_Inv.thy ===== *)
theory Searches_Inv
  imports Searches Routing_Steps
begin

text \<open>
  The candidate list of a search stays in the order of the distance to the target and keeps
  the closest nodes offered to it; every operation on searches keeps the invariants of the
  searches and of the routing table.
\<close>

subsection \<open>The candidate list is a bounded insertion\<close>

definition sn_dist :: "mem \<Rightarrow> search_node \<Rightarrow> nat" where
  "sn_dist ref n = xor_dist (sn_id n) ref"

lemma search_slot_spec:
  "search_slot x ref ns = (found, i) \<Longrightarrow> valid_id x \<Longrightarrow> valid_id ref \<Longrightarrow> \<forall>n \<in> set ns. valid_id (sn_id n) \<Longrightarrow>
     sorted_wrt (<) (map (sn_dist ref) ns) \<Longrightarrow>
     (found \<longrightarrow> i < length ns \<and> sn_id (ns ! i) = x) \<and>
     (\<not> found \<longrightarrow> i \<le> length ns \<and> xor_dist x ref \<notin> set (map (sn_dist ref) ns) \<and>
        insort (xor_dist x ref) (map (sn_dist ref) ns) =
          take i (map (sn_dist ref) ns) @ xor_dist x ref # drop i (map (sn_dist ref) ns))"
proof (induction x ref ns arbitrary: found i rule: search_slot.induct)
  case (1 x ref)
  then show ?case by simp
next
  case (2 x ref n ns)
  have v: "valid_id (sn_id n)" "\<forall>n \<in> set ns. valid_id (sn_id n)" using "2.prems" by auto
  have d: "sn_dist ref n = xor_dist (sn_id n) ref" by (simp add: sn_dist_def)
  show ?case
  proof (cases "x = sn_id n")
    case True
    then show ?thesis using "2.prems" by simp
  next
    case ne: False
    then have nd: "xor_dist x ref \<noteq> sn_dist ref n"
      using xor_dist_eq [OF "2.prems"(2) v(1), of ref] d by simp
    have c0: "id_cmp x (sn_id n) \<noteq> 0" using ne "2.prems"(2) v(1) by (simp add: id_cmp_eq)
    show ?thesis
    proof (cases "xor_dist x ref < sn_dist ref n")
      case True
      then have "xorcmp x (sn_id n) ref < 0" using "2.prems"(2,3) v(1) d by (simp add: xorcmp_dist)
      then have "found = False" "i = 0" using "2.prems"(1) c0 by auto
      moreover have "\<forall>y \<in> set (map (sn_dist ref) ns). sn_dist ref n < y" using "2.prems"(5) by simp
      then have "xor_dist x ref \<notin> set (map (sn_dist ref) (n # ns))" using True by auto
      ultimately show ?thesis using True by simp
    next
      case False
      then have "\<not> xorcmp x (sn_id n) ref < 0" using "2.prems"(2,3) v(1) d by (simp add: xorcmp_dist)
      then obtain f j where j: "search_slot x ref ns = (f, j)" "found = f" "i = Suc j"
        using "2.prems"(1) c0 by (auto split: prod.splits)
      have "\<not> id_cmp x (sn_id n) = 0" "\<not> xorcmp x (sn_id n) ref < 0" by fact+
      from "2.IH" [OF this j(1) "2.prems"(2,3) v(2)] "2.prems"(5) show ?thesis
        using j(2,3) nd False by auto
    qed
  qed
qed

definition sn_ok :: "nat \<Rightarrow> search_node \<Rightarrow> bool" where
  "sn_ok af n \<longleftrightarrow> valid_id (sn_id n) \<and> length (sn_ss n) = sizeof_ss \<and> sa_family (sn_ss n) = af \<and>
     good_sa (sn_ss n) (sn_sslen n) \<and> length (sn_token n) < 40"

text \<open>An offer: identifier, address, its length, whether the node replied, its token.\<close>

type_synonym offer = "mem \<times> mem \<times> nat \<times> bool \<times> mem option"

definition offer_ok :: "nat \<Rightarrow> offer \<Rightarrow> bool" where
  "offer_ok af k \<longleftrightarrow> (case k of (x, sa, salen, replied, token) \<Rightarrow>
     valid_id x \<and> good_sa sa salen \<and> sa_family sa = af)"

definition place_offer :: "mem \<Rightarrow> int \<Rightarrow> offer \<Rightarrow> search_node list \<Rightarrow> search_node list" where
  "place_offer ref t k ns = (case k of (x, sa, salen, replied, token) \<Rightarrow>
     snd (place_search_node x sa salen replied token t ref ns))"

lemma sn_id_fill [simp]: "sn_id (fill_search_node sa salen replied token t n) = sn_id n"
  by (simp add: fill_search_node_def Let_def split: option.split)

lemma sn_ok_fill:
  assumes "good_sa sa salen" "sa_family sa = af" "valid_id (sn_id n)" "length (sn_ss n) = sizeof_ss"
    "length (sn_token n) < 40"
  shows "sn_ok af (fill_search_node sa salen replied token t n)"
  using assms by (auto simp: sn_ok_def fill_search_node_def Let_def memcpy_good_sa good_sa_memcpy split: option.split)

lemma sn_ok_fill_fresh:
  "good_sa sa salen \<Longrightarrow> valid_id x \<Longrightarrow> sa_family sa = af \<Longrightarrow>
     sn_ok af (fill_search_node sa salen replied token t (fresh_search_node x))"
  by (rule sn_ok_fill) (simp_all add: fresh_search_node_def valid_id_def)

interpretation candidates: bounded_insertion "place_offer ref t" "\<lambda>k. xor_dist (fst k) ref" "sn_dist ref"
  SEARCH_NODES "\<lambda>k. offer_ok af k \<and> valid_id ref" "sn_ok af" for ref t af
proof unfold_locales
  fix k :: offer and ns
  assume kv: "offer_ok af k \<and> valid_id ref" and nv: "\<forall>n \<in> set ns. sn_ok af n"
  obtain x sa salen replied token where k: "k = (x, sa, salen, replied, token)" by (cases k)
  let ?fill = "fill_search_node sa salen replied token t"
  obtain found i where fi: "search_slot x ref ns = (found, i)" by fastforce
  have g: "valid_id x" "good_sa sa salen" "sa_family sa = af" "valid_id ref" using kv by (auto simp: offer_ok_def k)
  have ids: "\<forall>n \<in> set ns. valid_id (sn_id n)" using nv by (simp add: sn_ok_def)
  have eq: "place_offer ref t k ns = (if found then update_at i ?fill ns
      else if i = SEARCH_NODES then ns
      else take (if length ns < SEARCH_NODES then Suc (length ns) else length ns)
             (take i ns @ ?fill (fresh_search_node x) # drop i ns))"
    by (simp add: place_offer_def k place_search_node_def fi Let_def)
  have fresh: "sn_ok af (?fill (fresh_search_node x))" using g by (intro sn_ok_fill_fresh)
  have "sn_ok af (?fill n)" if "n \<in> set ns" for n
  proof -
    have "sn_ok af n" using nv that by simp
    then show ?thesis by (intro sn_ok_fill [OF g(2,3)]) (simp_all add: sn_ok_def)
  qed
  then have upd: "\<forall>n \<in> set (update_at i ?fill ns). sn_ok af n"
    using nv set_update_subset_insert [of ns i "?fill (ns ! i)"] by (auto simp: update_at_def)
  show "\<forall>n \<in> set (place_offer ref t k ns). sn_ok af n"
    using nv fresh upd unfolding eq by (auto dest!: in_set_takeD in_set_dropD)
  assume sorted: "sorted_wrt (<) (map (sn_dist ref) ns)" and len: "length ns \<le> SEARCH_NODES"
  note sl = search_slot_spec [OF fi g(1,4) ids sorted]
  have dx: "sn_dist ref (?fill (fresh_search_node x)) = xor_dist x ref"
    using g(1) by (simp add: sn_dist_def fresh_search_node_def valid_id_def)
  show "map (sn_dist ref) (place_offer ref t k ns) =
      (if xor_dist (fst k) ref \<in> set (map (sn_dist ref) ns) then map (sn_dist ref) ns
       else take SEARCH_NODES (insort (xor_dist (fst k) ref) (map (sn_dist ref) ns)))"
  proof (cases found)
    case True
    then have i: "i < length ns" "sn_id (ns ! i) = x" using sl by auto
    then have "sn_dist ref (ns ! i) = xor_dist x ref" by (simp add: sn_dist_def)
    then have "xor_dist x ref \<in> sn_dist ref ` set ns" using i(1) by (metis image_eqI nth_mem)
    moreover have "map (sn_dist ref) (update_at i ?fill ns) = map (sn_dist ref) ns"
      by (rule map_update_at) (simp add: sn_dist_def)
    ultimately show ?thesis using True unfolding eq by (simp add: k)
  next
    case False
    then have i: "i \<le> length ns" "xor_dist x ref \<notin> set (map (sn_dist ref) ns)"
      "insort (xor_dist x ref) (map (sn_dist ref) ns) =
         take i (map (sn_dist ref) ns) @ xor_dist x ref # drop i (map (sn_dist ref) ns)" using sl by auto
    have m: "map (sn_dist ref) (take i ns @ ?fill (fresh_search_node x) # drop i ns) =
        insort (xor_dist x ref) (map (sn_dist ref) ns)"
      using i(3) dx by (simp add: take_map drop_map)
    show ?thesis
    proof (cases "i = SEARCH_NODES")
      case True
      then have "length ns = SEARCH_NODES" using i(1) len by simp
      then have "take SEARCH_NODES (insort (xor_dist x ref) (map (sn_dist ref) ns)) = map (sn_dist ref) ns"
        using True unfolding i(3) by simp
      then show ?thesis using True False i(2) unfolding eq by (simp add: k)
    next
      case i14: False
      have "take (if length ns < SEARCH_NODES then Suc (length ns) else length ns)
          (insort (xor_dist x ref) (map (sn_dist ref) ns)) =
        take SEARCH_NODES (insort (xor_dist x ref) (map (sn_dist ref) ns))"
        using len by (cases "length ns < SEARCH_NODES") auto
      then have "map (sn_dist ref) (take (if length ns < SEARCH_NODES then Suc (length ns) else length ns)
          (take i ns @ ?fill (fresh_search_node x) # drop i ns)) =
        take SEARCH_NODES (insort (xor_dist x ref) (map (sn_dist ref) ns))"
        by (simp only: take_map [symmetric] m)
      then show ?thesis using i14 False i(2) unfolding eq by (simp only: k fst_conv if_False)
    qed
  qed
qed

subsection \<open>Well-formed searches\<close>

definition nodes_ok :: "mem \<Rightarrow> nat \<Rightarrow> search_node list \<Rightarrow> bool" where
  "nodes_ok ref af ns \<longleftrightarrow> sorted_wrt (<) (map (sn_dist ref) ns) \<and> length ns \<le> SEARCH_NODES \<and>
     (\<forall>n \<in> set ns. sn_ok af n)"

definition search_ok :: "search \<Rightarrow> bool" where
  "search_ok sr \<longleftrightarrow> valid_id (sr_id sr) \<and> inet (sr_af sr) \<and> sr_port sr < 65536 \<and>
     nodes_ok (sr_id sr) (sr_af sr) (sr_nodes sr)"

definition searches_inv :: "'a dht_scheme \<Rightarrow> bool" where
  "searches_inv s \<longleftrightarrow> numsearches s = int (length (searches s)) \<and> numsearches s \<le> DHT_MAX_SEARCHES \<and>
     (\<forall>sr \<in> set (searches s). search_ok sr)"

lemma nodes_ok_ordered: "nodes_ok ref af ns \<longleftrightarrow> candidates.ordered ref af ns"
  by (simp add: nodes_ok_def candidates.ordered_def)

lemma nodes_ok_Nil [simp]: "nodes_ok ref af []"
  by (simp add: nodes_ok_def)

lemma nodes_ok_place:
  assumes "nodes_ok ref af ns" "valid_id x" "valid_id ref" "good_sa sa salen" "sa_family sa = af"
  shows "nodes_ok ref af (snd (place_search_node x sa salen replied token t ref ns))"
  using candidates.ordered_ins [of af "(x, sa, salen, replied, token)" ref ns t] assms
  by (simp add: nodes_ok_ordered offer_ok_def place_offer_def)

lemma insert_search_node_ok:
  assumes "search_ok sr" "valid_id x" "good_sa sa salen"
  shows "search_ok (snd (insert_search_node x sa salen replied token t sr))"
  using assms nodes_ok_place [of "sr_id sr" "sr_af sr" "sr_nodes sr" x sa salen replied token t]
  by (simp add: insert_search_node_def search_ok_def case_prod_unfold Let_def)

lemma insert_search_node_frame [simp]:
  "sr_id (snd (insert_search_node x sa salen replied token t sr)) = sr_id sr"
  "sr_af (snd (insert_search_node x sa salen replied token t sr)) = sr_af sr"
  "sr_port (snd (insert_search_node x sa salen replied token t sr)) = sr_port sr"
  by (simp_all add: insert_search_node_def split: prod.split)

lemma insert_search_bucket_ok:
  assumes "\<forall>n \<in> set (b_nodes b). valid_id (n_id n) \<and> good_sa (n_ss n) (n_sslen n)" "search_ok sr"
  shows "search_ok (insert_search_bucket t b sr)"
proof -
  have "search_ok (fold (\<lambda>n sr. snd (insert_search_node (n_id n) (n_ss n) (n_sslen n) False None t sr)) ns sr)"
    if "\<forall>n \<in> set ns. valid_id (n_id n) \<and> good_sa (n_ss n) (n_sslen n)" "search_ok sr" for ns sr
    using that by (induction ns arbitrary: sr) (auto intro: insert_search_node_ok)
  then show ?thesis using assms by (simp add: insert_search_bucket_def)
qed

lemma bucket_nodes_good:
  "bucket_ok af me lo hi b \<Longrightarrow> \<forall>n \<in> set (b_nodes b). valid_id (n_id n) \<and> good_sa (n_ss n) (n_sslen n)"
  by (auto simp: bucket_ok_def node_ok_def)

lemma insert_buckets_ok:
  assumes "rt_inv s" "inet af" "i < length (table af s)" "search_ok sr" "valid_id me"
  shows "search_ok (insert_buckets me af i s sr)"
proof -
  have b: "search_ok (insert_search_bucket t (table af s ! k) sr)" if "k < length (table af s)" "search_ok sr" for k sr t
    using insert_search_bucket_ok [OF bucket_nodes_good [OF rt_bucket [OF assms(1,2) that(1)]] that(2)] .
  show ?thesis
    using assms(3,4) b find_bucket_interval(1) [OF assms(1,2,5)]
    by (auto simp: insert_buckets_def Let_def previous_bucket_def split: option.split)
qed

text \<open>Dropping nodes and changing fields other than identifier and address.\<close>

lemma flush_at_subset: "set (flush_at i ns) \<subseteq> set ns"
  by (auto simp: flush_at_def dest: in_set_takeD in_set_dropD)

lemma length_flush_at: "length (flush_at i ns) \<le> length ns"
  by (simp add: flush_at_def)

lemma sorted_remove: "sorted_wrt P xs \<Longrightarrow> sorted_wrt P (take i xs @ drop (Suc i) xs)"
proof (cases "i < length xs")
  case True
  assume "sorted_wrt P xs"
  then have "sorted_wrt P (take i xs @ xs ! i # drop (Suc i) xs)"
    using id_take_nth_drop [OF True] by simp
  then show ?thesis by (auto simp: sorted_wrt_append)
qed simp

lemma sorted_flush_at: "sorted_wrt P (map f ns) \<Longrightarrow> sorted_wrt P (map f (flush_at i ns))"
  using sorted_remove [of P "map f ns" i] by (simp add: flush_at_def take_map drop_map)

lemma nodes_ok_flush_at: "nodes_ok ref af ns \<Longrightarrow> nodes_ok ref af (flush_at i ns)"
  using flush_at_subset [of i ns] length_flush_at [of i ns] by (auto simp: nodes_ok_def sorted_flush_at)

lemma nodes_ok_flush_id: "nodes_ok ref af ns \<Longrightarrow> nodes_ok ref af (flush_id x i ns)"
  by (induction x i ns rule: flush_id.induct) (simp add: flush_id.simps nodes_ok_flush_at)

lemma nodes_ok_update:
  assumes "nodes_ok ref af ns" "\<And>n. sn_id (f n) = sn_id n" "\<And>n. sn_ok af n \<Longrightarrow> sn_ok af (f n)"
  shows "nodes_ok ref af (update_at i f ns)"
proof -
  have "map (sn_dist ref) (update_at i f ns) = map (sn_dist ref) ns"
    by (rule map_update_at) (simp add: sn_dist_def assms(2))
  moreover have "\<forall>n \<in> set (update_at i f ns). sn_ok af n"
    using assms(1,3) set_update_subset_insert [of ns i "f (ns ! i)"]
    by (auto simp: nodes_ok_def update_at_def)
  ultimately show ?thesis using assms(1) by (simp add: nodes_ok_def)
qed

lemma nodes_ok_reuse: "nodes_ok ref af ns \<Longrightarrow> nodes_ok ref af (reuse_nodes t i ns)"
proof (induction t i ns rule: reuse_nodes.induct)
  case (1 t i ns)
  let ?f = "\<lambda>n :: search_node. n\<lparr>sn_pinged := 0, sn_token := [], sn_replied := False, sn_acked := False\<rparr>"
  have "nodes_ok ref af (update_at i ?f ns)" if "i < length ns"
    using "1.prems" by (rule nodes_ok_update) (simp_all add: sn_ok_def)
  then have "i < length ns \<Longrightarrow> nodes_ok ref af (ns[i := ?f (ns ! i)])" by (simp add: update_at_def)
  then show ?case using 1 by (subst reuse_nodes.simps) (auto simp: nodes_ok_flush_at)
qed

subsection \<open>Flushing an identifier\<close>

lemma flush_id_subset: "set (flush_id x i ns) \<subseteq> set ns"
proof (induction x i ns rule: flush_id.induct)
  case (1 x i ns)
  have sub: "A \<subseteq> set (if c then flush_at i ns else ns) \<Longrightarrow> A \<subseteq> set ns" for A c
    using flush_at_subset [of i ns] by (cases c) auto
  show ?case using sub [OF "1.IH"] by (subst flush_id.simps) simp
qed

text \<open>The loop skips the node behind a flushed one; as identifiers are distinct, nothing is missed.\<close>

lemma flush_id_gone:
  "distinct (map sn_id ns) \<Longrightarrow> valid_id x \<Longrightarrow> \<forall>n \<in> set ns. valid_id (sn_id n) \<Longrightarrow>
     \<forall>j < min i (length ns). sn_id (ns ! j) \<noteq> x \<Longrightarrow> x \<notin> sn_id ` set (flush_id x i ns)"
proof (induction x i ns rule: flush_id.induct)
  case (1 x i ns)
  show ?case
  proof (cases "i < length ns")
    case False
    then show ?thesis using "1.prems"(4) by (subst flush_id.simps) (auto simp: in_set_conv_nth)
  next
    case i: True
    show ?thesis
    proof (cases "sn_id (ns ! i) = x")
      case False
      have "id_cmp (sn_id (ns ! i)) x \<noteq> 0" using False "1.prems"(2,3) i by (simp add: id_cmp_eq)
      moreover have "\<forall>j < min (Suc i) (length ns). sn_id (ns ! j) \<noteq> x"
        using "1.prems"(4) i False by (auto simp: less_Suc_eq)
      ultimately show ?thesis using "1.IH" [OF i] "1.prems" i by (subst flush_id.simps) simp
    next
      case True
      have "distinct (map sn_id (take i ns @ ns ! i # drop (Suc i) ns))"
        using "1.prems"(1) id_take_nth_drop [OF i] by simp
      then have "x \<notin> sn_id ` set (flush_at i ns)" using True by (auto simp: flush_at_def)
      then show ?thesis using True i flush_id_subset [of x "Suc i" "flush_at i ns"]
        by (subst flush_id.simps) auto
    qed
  qed
qed

lemma nodes_ok_distinct: "nodes_ok ref af ns \<Longrightarrow> distinct (map sn_id ns)"
proof -
  assume n: "nodes_ok ref af ns"
  have "distinct (map (sn_dist ref) ns)" using n by (auto simp: nodes_ok_def strict_sorted_iff)
  then show ?thesis by (auto simp: distinct_map inj_on_def sn_dist_def)
qed

subsection \<open>Properties\<close>

lemma insert_offers:
  "\<forall>k \<in> set ks. offer_ok (sr_af sr) k \<Longrightarrow>
     fold (\<lambda>(x, sa, salen, replied, token) sr. snd (insert_search_node x sa salen replied token t sr)) ks sr =
     sr\<lparr>sr_nodes := fold (place_offer (sr_id sr) t) ks (sr_nodes sr)\<rparr>"
proof (induction ks arbitrary: sr)
  case (Cons k ks)
  obtain x sa salen replied token where k: "k = (x, sa, salen, replied, token)" by (cases k)
  have "sa_family sa = sr_af sr" using Cons.prems by (simp add: k offer_ok_def)
  then have "snd (insert_search_node x sa salen replied token t sr) = sr\<lparr>sr_nodes := place_offer (sr_id sr) t k (sr_nodes sr)\<rparr>"
    by (simp add: insert_search_node_def k place_offer_def case_prod_unfold Let_def)
  then show ?case using Cons by (simp add: k)
qed simp

text \<open>
  C12: a search keeps the closest candidates. However many nodes \<^verbatim>\<open>insert_search_node\<close> is given, in
  whatever order and with whatever replies and tokens, the list of a search that began empty holds
  the up to 14 identifiers closest to the target of all that were offered, each once, in increasing
  XOR distance.
\<close>

theorem search_keeps_closest:
  assumes "valid_id (sr_id sr)" "sr_nodes sr = []" "\<forall>k \<in> set ks. offer_ok (sr_af sr) k"
  shows "map (\<lambda>n. xor_dist (sn_id n) (sr_id sr))
      (sr_nodes (fold (\<lambda>(x, sa, salen, replied, token) sr. snd (insert_search_node x sa salen replied token t sr)) ks sr)) =
    take 14 (sorted_list_of_set ((\<lambda>k. xor_dist (fst k) (sr_id sr)) ` set ks))"
  using candidates.closest_of_all [of ks "sr_af sr" "sr_id sr" t] assms
  by (simp add: insert_offers sn_dist_def [abs_def] SEARCH_NODES_def)

lemma search_keeps_closest_witness:
  "length (sr_nodes (fold (\<lambda>(x, sa, salen, replied, token) sr. snd (insert_search_node x sa salen replied token 5 sr))
     [(replicate 20 7, mk_sin [10, 0, 0, 1] [0, 7], 16, False, None)] (calloc_search\<lparr>sr_af := AF_INET\<rparr>))) = 1"
proof -
  have "sa_family (mk_sin [10, 0, 0, 1] [0, 7]) = AF_INET" by (simp add: mk_sin_def sa_family_def rd_def AF_INET_def)
  then have ok: "\<forall>k \<in> set [(replicate 20 7, mk_sin [10, 0, 0, 1] [0, 7], 16, False, None)].
      offer_ok (sr_af (calloc_search\<lparr>sr_af := AF_INET\<rparr>)) k"
    by (simp add: offer_ok_def valid_id_def)
  have v: "valid_id (sr_id (calloc_search\<lparr>sr_af := AF_INET\<rparr>))" "sr_nodes (calloc_search\<lparr>sr_af := AF_INET\<rparr>) = []"
    by (simp_all add: calloc_search_def valid_id_def)
  from search_keeps_closest [OF v ok, of 5, THEN arg_cong, of length] show ?thesis
    by (simp only: length_map) simp
qed

end
