(* ===== verification/Sha1_Correct.thy ===== *)
theory Sha1_Correct
  imports Sha1
begin

text \<open>
  FIPS 180 SHA-1 on 32-bit words, and the proof that \<^verbatim>\<open>sha1.c\<close> computes it: the low halves
  of the 64-bit variables follow the standard's rounds, the circular array holds the last
  16 words of the message schedule, and feeding a message in pieces processes the same
  blocks as feeding it at once.
\<close>

subsection \<open>The standard\<close>

definition ch :: "u32 \<Rightarrow> u32 \<Rightarrow> u32 \<Rightarrow> u32" where
  "ch x y z = (x AND y) XOR (NOT x AND z)"

definition parity :: "u32 \<Rightarrow> u32 \<Rightarrow> u32 \<Rightarrow> u32" where
  "parity x y z = x XOR y XOR z"

definition maj :: "u32 \<Rightarrow> u32 \<Rightarrow> u32 \<Rightarrow> u32" where
  "maj x y z = (x AND y) XOR (x AND z) XOR (y AND z)"

definition f_std :: "nat \<Rightarrow> u32 \<Rightarrow> u32 \<Rightarrow> u32 \<Rightarrow> u32" where
  "f_std t = (if t < 20 then ch else if t < 40 then parity else if t < 60 then maj else parity)"

definition k_std :: "nat \<Rightarrow> u32" where
  "k_std t = (if t < 20 then 0x5A827999 else if t < 40 then 0x6ED9EBA1
     else if t < 60 then 0x8F1BBCDC else 0xCA62C1D6)"

fun sched :: "u32 list \<Rightarrow> nat \<Rightarrow> u32" where
  "sched M t = (if t < 16 then M ! t
     else word_rotl 1 (sched M (t - 3) XOR sched M (t - 8) XOR sched M (t - 14) XOR sched M (t - 16)))"

declare sched.simps [simp del]

definition round_std :: "u32 list \<Rightarrow> nat \<Rightarrow> u32 five \<Rightarrow> u32 five" where
  "round_std M t = (\<lambda>(a, b, c, d, e).
     (word_rotl 5 a + f_std t b c d + e + k_std t + sched M t, a, word_rotl 30 b, c, d))"

definition words_of :: "mem \<Rightarrow> u32 list" where
  "words_of block = map (\<lambda>i. word_of_nat (be_val (slice (4 * i) 4 block))) [0..<16]"

definition add5 :: "'w::plus five \<Rightarrow> 'w five \<Rightarrow> 'w five" where
  "add5 = (\<lambda>(a, b, c, d, e) (a', b', c', d', e'). (a + a', b + b', c + c', d + d', e + e'))"

definition compress :: "mem \<Rightarrow> u32 five \<Rightarrow> u32 five" where
  "compress block h = add5 h (fold (round_std (words_of block)) [0..<80] h)"

function absorb :: "u32 five \<Rightarrow> mem \<Rightarrow> u32 five" where
  "absorb h m = (if 64 \<le> length m then absorb (compress (take 64 m) h) (drop 64 m) else h)"
  by pat_completeness auto
termination
  by (relation "measure (\<lambda>(h, m). length m)") auto

declare absorb.simps [simp del]

definition be_bytes :: "nat \<Rightarrow> nat \<Rightarrow> mem" where
  "be_bytes n v = map (\<lambda>i. word_of_nat (v div 256 ^ (n - 1 - i))) [0..<n]"

definition sha1_pad :: "mem \<Rightarrow> mem" where
  "sha1_pad m = m @ 0x80 # replicate ((119 - length m mod 64) mod 64) 0 @ be_bytes 8 (8 * length m)"

definition h_init :: "u32 five" where
  "h_init = (0x67452301, 0xEFCDAB89, 0x98BADCFE, 0x10325476, 0xC3D2E1F0)"

definition out5 :: "u32 five \<Rightarrow> mem" where
  "out5 = (\<lambda>(a, b, c, d, e). concat (map (\<lambda>w. be_bytes 4 (unat w)) [a, b, c, d, e]))"

definition sha1_std :: "mem \<Rightarrow> mem" where
  "sha1_std m = out5 (absorb h_init (sha1_pad m))"

subsection \<open>Low halves\<close>

abbreviation lo :: "u64 \<Rightarrow> u32" where "lo \<equiv> ucast"

definition lo5 :: "u64 five \<Rightarrow> u32 five" where
  "lo5 = (\<lambda>(a, b, c, d, e). (lo a, lo b, lo c, lo d, lo e))"

lemma lo_add [simp]: "lo (x + y) = lo x + lo y"
  by (rule word_unat_eq_iff [THEN iffD2])
    (simp add: unsigned_ucast_eq unat_word_ariths take_bit_eq_mod mod_mod_cancel mod_add_eq)

lemma lo_bits [simp]:
  "lo (x XOR y) = lo x XOR lo y" "lo (x AND y) = lo x AND lo y" "lo (x OR y) = lo x OR lo y"
  by (auto intro!: bit_eqI simp: bit_simps)

lemma lo_rot:
  assumes "0 < n" "n < 32"
  shows "lo (S_rot x n) = word_rotl n (lo x)"
proof (rule bit_word_eqI)
  fix k assume "k < LENGTH(32)"
  then have k: "k < 32" by simp
  have m: "(0xFFFFFFFF :: u64) = mask 32" by (simp add: mask_eq_exp_minus_1)
  have "(k + 32 - n) mod 32 = (if n \<le> k then k - n else k + 32 - n)"
    using assms k by (auto simp: mod_if)
  moreover have c: "32 + k - n = k + 32 - n" by simp
  ultimately show "bit (lo (S_rot x n)) k = bit (word_rotl n (lo x)) k"
    using assms k c by (auto simp: S_rot_def m bit_simps bit_word_rotl_iff)
qed

lemma lo_F: "lo (F_fun t x y z) = f_std t (lo x) (lo y) (lo z)"
  by (auto simp: F_fun_def f_std_def ch_def parity_def maj_def intro!: bit_eqI simp: bit_simps)

lemma lo_K: "lo (K_const t) = k_std t"
  by (simp add: K_const_def k_std_def)


subsection \<open>Rounds\<close>

text \<open>Before round \<open>t\<close> the circular array holds the schedule's last 16 words.\<close>

definition W_holds :: "u32 list \<Rightarrow> nat \<Rightarrow> u64 list \<Rightarrow> bool" where
  "W_holds M t W \<longleftrightarrow> length W = 16 \<and>
     (\<forall>s. t \<le> s + 16 \<and> s < max t 16 \<longrightarrow> lo (W ! (s mod 16)) = sched M s)"

lemma W_holdsD: "W_holds M t W \<Longrightarrow> t \<le> s + 16 \<Longrightarrow> s < max t 16 \<Longrightarrow> lo (W ! (s mod 16)) = sched M s"
  by (simp add: W_holds_def)

lemma round_input:
  assumes "W_holds M t W" "\<not> t < 16"
  shows "lo (S_rot (W ! ((t - 3) mod 16) XOR W ! ((t - 8) mod 16) XOR
                    W ! ((t - 14) mod 16) XOR W ! (t mod 16)) 1) = sched M t"
proof -
  have "t mod 16 = (t - 16) mod 16" using assms(2) by (simp add: le_mod_geq)
  then show ?thesis
    using assms W_holdsD [OF assms(1), of "t - 3"] W_holdsD [OF assms(1), of "t - 8"]
      W_holdsD [OF assms(1), of "t - 14"] W_holdsD [OF assms(1), of "t - 16"]
    by (simp add: lo_rot sched.simps [of M t])
qed

lemma W_holds_update:
  assumes "W_holds M t W" "\<not> t < 16" "lo w = sched M t"
  shows "W_holds M (Suc t) (W[t mod 16 := w])"
proof -
  have "lo (W[t mod 16 := w] ! (s mod 16)) = sched M s" if "Suc t \<le> s + 16" "s < Suc t" for s
  proof (cases "s = t")
    case True
    then show ?thesis using assms by (simp add: W_holds_def)
  next
    case False
    have "s mod 16 \<noteq> t mod 16"
    proof
      assume "s mod 16 = t mod 16"
      then have "16 dvd t - s" using that False by (metis mod_eq_dvd_iff_nat less_Suc_eq less_imp_le)
      then have "16 \<le> t - s" using that False by (intro dvd_imp_le) auto
      with that show False by simp
    qed
    then show ?thesis using False that assms by (simp add: W_holds_def)
  qed
  then show ?thesis using assms by (auto simp: W_holds_def)
qed

lemma sha1_round_std:
  assumes "W_holds M t W"
  shows "W_holds M (Suc t) (fst (sha1_round t (W, v))) \<and>
    lo5 (snd (sha1_round t (W, v))) = round_std M t (lo5 v)"
proof (cases "t < 16")
  case True
  have "lo (W ! t) = sched M t" using W_holdsD [OF assms, of t] True by simp
  moreover have "W_holds M (Suc t) W" using assms True by (auto simp: W_holds_def)
  ultimately show ?thesis using True
    by (auto simp: sha1_round_def lo5_def round_std_def lo_rot lo_F lo_K split: prod.splits)
next
  case False
  note w = round_input [OF assms False]
  show ?thesis using False w W_holds_update [OF assms False w]
    by (auto simp: sha1_round_def lo5_def round_std_def lo_rot lo_F lo_K Let_def
        simp del: lo_bits split: prod.splits)
qed

lemma sha1_rounds_std:
  "W_holds M t W \<Longrightarrow>
     lo5 (snd (fold sha1_round [t..<t + n] (W, v))) = fold (round_std M) [t..<t + n] (lo5 v)"
proof (induction n arbitrary: t W v)
  case (Suc n)
  obtain W' v' where r: "sha1_round t (W, v) = (W', v')"
    by (cases "sha1_round t (W, v)")
  have "[t..<t + Suc n] = t # [Suc t..<Suc t + n]" by (simp add: upt_conv_Cons)
  then show ?case
    using Suc.IH [of "Suc t" W' v'] sha1_round_std [OF Suc.prems, of v] r by simp
qed simp

lemma slice4: "i + 4 \<le> length m \<Longrightarrow> slice i 4 m = [m ! i, m ! (i + 1), m ! (i + 2), m ! (i + 3)]"
  by (rule nth_equalityI) (auto simp: slice_def nth_Cons numeral_eq_Suc split: nat.splits)

lemma bit_word_of_nat_u32: "k < 32 \<Longrightarrow> bit (word_of_nat n :: u32) k = bit n k"
  by (simp add: bit_of_nat_iff)

lemma be_val_4_word:
  "(word_of_nat (be_val [a, b, c, d]) :: u32) =
     push_bit 24 (ucast a) OR push_bit 16 (ucast b) OR push_bit 8 (ucast c) OR ucast d"
proof (rule bit_word_eqI)
  fix k assume "k < LENGTH(32)"
  then have k: "k < 32" by simp
  have v: "be_val [a, b, c, d] = ((unat a * 256 + unat b) * 256 + unat c) * 256 + unat d"
    by (simp add: be_val_def)
  show "bit (word_of_nat (be_val [a, b, c, d]) :: u32) k =
    bit (push_bit 24 (ucast a) OR push_bit 16 (ucast b) OR push_bit 8 (ucast c) OR ucast d :: u32) k"
    unfolding v bit_word_of_nat_u32 [OF k] bit_snoc_byte using k
    by (auto simp: bit_simps not_less dest: bit_imp_le_length)
qed

lemma lo_GET: "i + 4 \<le> length b \<Longrightarrow> lo (GET_ULONG_BE b i) = word_of_nat (be_val (slice i 4 b))"
  unfolding slice4 be_val_4_word
  by (rule bit_eqI) (auto simp: GET_ULONG_BE_def bit_simps)

lemma sha1_process_compress:
  assumes "length data = 64"
  shows "lo5 (sha1_process data st) = compress data (lo5 st)"
proof -
  define W where "W = map (\<lambda>i. GET_ULONG_BE data (4 * i)) [0..<16]"
  have "W_holds (words_of data) 0 W"
    using assms by (auto simp: W_holds_def W_def words_of_def lo_GET sched.simps)
  from sha1_rounds_std [OF this, of 80 st]
  have "lo5 (snd (fold sha1_round [0..<80] (W, st))) = fold (round_std (words_of data)) [0..<80] (lo5 st)"
    by simp
  then show ?thesis
    by (auto simp: sha1_process_def W_def [symmetric] compress_def lo5_def add5_def Let_def split: prod.splits)
qed


subsection \<open>Feeding a message in pieces\<close>

lemma absorb_short: "length m < 64 \<Longrightarrow> absorb h m = h"
  by (subst absorb.simps) simp

lemma absorb_append: "64 dvd length m \<Longrightarrow> absorb h (m @ x) = absorb (absorb h m) x"
proof (induction h m rule: absorb.induct)
  case (1 h m)
  show ?case
  proof (cases "64 \<le> length m")
    case True
    have "64 dvd length (drop 64 m)" using "1.prems" True by (simp add: dvd_diff_nat)
    from "1.IH" [OF True this] True show ?thesis
      by (simp add: absorb.simps [of h "m @ x"] absorb.simps [of h m])
  next
    case False
    then have "m = []" using "1.prems" by (cases m) (auto dest: dvd_imp_le)
    then show ?thesis by (simp add: absorb_short)
  qed
qed

lemma absorb_block: "length b = 64 \<Longrightarrow> absorb h b = compress b h"
  by (subst absorb.simps) (simp add: absorb_short)

lemma process_blocks_rest:
  "snd (process_blocks st x) = drop (64 * (length x div 64)) x"
proof (induction st x rule: process_blocks.induct)
  case (1 st x)
  show ?case
  proof (cases "64 \<le> length x")
    case True
    then have "length x div 64 = Suc ((length x - 64) div 64)" by (simp add: le_div_geq)
    with "1.IH" [OF True] True show ?thesis
      by (simp add: process_blocks.simps [of st x] add.commute)
  qed (simp add: process_blocks.simps [of st x])
qed

lemma process_blocks_absorb: "lo5 (fst (process_blocks st x)) = absorb (lo5 st) x"
proof (induction st x rule: process_blocks.induct)
  case (1 st x)
  show ?case
  proof (cases "64 \<le> length x")
    case True
    with 1 show ?thesis
      by (simp add: process_blocks.simps [of st x] absorb.simps [of _ x] sha1_process_compress)
  qed (simp add: process_blocks.simps [of st x] absorb_short)
qed

text \<open>The data seen so far, split into the processed blocks and what waits in the buffer.\<close>

definition holds :: "u64 five \<Rightarrow> mem \<Rightarrow> mem \<Rightarrow> mem \<Rightarrow> bool" where
  "holds st buf f r \<longleftrightarrow> 64 dvd length f \<and> length r < 64 \<and> length buf = 64 \<and>
     take (length r) buf = r \<and> lo5 st = absorb h_init f"

lemma holds_block:
  assumes "holds st buf f r" "64 - length r \<le> length x"
  defines "b \<equiv> memcpy buf (length r) x (64 - length r)"
  shows "holds (sha1_process b st) b (f @ r @ take (64 - length r) x) []"
proof -
  have b: "b = r @ take (64 - length r) x" using assms by (simp add: holds_def memcpy_def)
  then have l: "length b = 64" using assms by (simp add: holds_def)
  then have "absorb h_init (f @ b) = compress b (absorb h_init f)"
    using assms(1) by (simp add: holds_def absorb_append absorb_block)
  with assms(1) l b show ?thesis
    by (auto simp: holds_def sha1_process_compress)
qed

lemma holds_rest:
  assumes "holds st buf f r" "r = [] \<or> length r + length y < 64"
  shows "\<exists>f' r'. f @ r @ y = f' @ r' \<and>
    holds (fst (process_blocks st y))
      (let rest = snd (process_blocks st y) in
        if 0 < length rest then memcpy buf (length r) rest (length rest) else buf) f' r'"
proof (cases "length r + length y < 64")
  case True
  then have p: "process_blocks st y = (st, y)" by (subst process_blocks.simps) simp
  show ?thesis
    using True assms(1) p
    by (intro exI [of _ f] exI [of _ "r @ y"]) (auto simp: holds_def memcpy_def)
next
  case False
  then have r: "r = []" using assms(2) by simp
  define k where "k = 64 * (length y div 64)"
  have kl: "k \<le> length y" by (simp add: k_def)
  have ab: "absorb (lo5 st) y = absorb h_init (f @ take k y)"
  proof -
    have "absorb (lo5 st) (take k y @ drop k y) = absorb (absorb (lo5 st) (take k y)) (drop k y)"
      using kl by (intro absorb_append) (simp add: k_def)
    moreover have "length (drop k y) < 64"
      using minus_mult_div_eq_mod [of "length y" 64] by (simp add: k_def)
    ultimately show ?thesis using assms(1) by (simp add: holds_def absorb_append absorb_short)
  qed
  have rest: "length (drop k y) < 64"
    using minus_mult_div_eq_mod [of "length y" 64] by (simp add: k_def)
  have "f @ r @ y = (f @ take k y) @ drop k y" using r by simp
  moreover have "64 dvd length (f @ take k y)"
    using assms(1) kl by (simp add: holds_def k_def)
  ultimately show ?thesis
    using assms(1) r rest ab kl
    by (intro exI [of _ "f @ take k y"] exI [of _ "drop k y"])
      (auto simp: holds_def Let_def memcpy_def process_blocks_rest process_blocks_absorb k_def [symmetric])
qed

definition ctx_holds :: "sha1_context \<Rightarrow> mem \<Rightarrow> bool" where
  "ctx_holds ctx m \<longleftrightarrow> total0 ctx = word_of_nat (length m) \<and> total1 ctx = 0 \<and>
     length m < 2 ^ 32 \<and> (\<exists>f r. m = f @ r \<and> holds (state ctx) (buffer ctx) f r)"

lemma ctx_holdsI:
  "total0 ctx = word_of_nat (length m) \<Longrightarrow> total1 ctx = 0 \<Longrightarrow> length m < 2 ^ 32 \<Longrightarrow> m = f @ r \<Longrightarrow>
     holds (state ctx) (buffer ctx) f r \<Longrightarrow> ctx_holds ctx m"
  by (auto simp: ctx_holds_def)

lemma ctx_left:
  assumes "total0 ctx = word_of_nat (length m)" "length m < 2 ^ 32" "m = f @ r" "holds st buf f r"
  shows "unat (total0 ctx AND 0x3F) = length r"
proof -
  have m: "(0x3F :: u64) = mask 6" by (simp add: mask_eq_exp_minus_1)
  have "unat (word_of_nat (length m) :: u64) = length m"
    using assms(2) by (simp add: unsigned_of_nat take_bit_nat_eq_self)
  then have "unat (total0 ctx AND 0x3F) = length m mod 64"
    unfolding m assms(1) by (simp add: take_bit_eq_mask [symmetric] unsigned_take_bit_eq take_bit_eq_mod unat_mod_distrib)
  also have "\<dots> = length r" using assms(3,4) by (auto simp: holds_def)
  finally show ?thesis .
qed


lemma totals_update:
  assumes "n + k < 2 ^ 32"
  shows "(word_of_nat n + word_of_nat k) AND 0xFFFFFFFF = (word_of_nat (n + k) :: u64)"
    and "\<not> (word_of_nat (n + k) :: u64) < word_of_nat k"
proof -
  have m: "(0xFFFFFFFF :: u64) = mask 32" by (simp add: mask_eq_exp_minus_1)
  have "take_bit 32 (word_of_nat (n + k) :: u64) = word_of_nat (n + k)"
    using assms by (simp add: take_bit_of_nat take_bit_nat_eq_self del: of_nat_add)
  then show "(word_of_nat n + word_of_nat k) AND 0xFFFFFFFF = (word_of_nat (n + k) :: u64)"
    unfolding m by (simp add: take_bit_eq_mask)
  show "\<not> (word_of_nat (n + k) :: u64) < word_of_nat k"
    using assms
    by (simp add: word_less_nat_alt unsigned_of_nat take_bit_nat_eq_self del: of_nat_add)
qed

lemma ctx_holds_update:
  assumes "ctx_holds ctx m" "length m + length x < 2 ^ 32"
  shows "ctx_holds (sha1_update ctx x) (m @ x)"
proof (cases "x = []")
  case True
  then show ?thesis using assms by (simp add: sha1_update_def)
next
  case False
  obtain f r where t: "total0 ctx = word_of_nat (length m)" "total1 ctx = 0" "length m < 2 ^ 32"
    and fr: "m = f @ r" "holds (state ctx) (buffer ctx) f r"
    using assms(1) by (auto simp: ctx_holds_def)
  note left = ctx_left [OF t(1,3) fr]
  note tot = totals_update [OF assms(2)]
  let ?ctx = "ctx\<lparr>total0 := word_of_nat (length m + length x), total1 := 0\<rparr>"
  show ?thesis
  proof (cases "length r \<noteq> 0 \<and> 64 - length r \<le> length x")
    case True
    define b where "b = memcpy (buffer ctx) (length r) x (64 - length r)"
    define y where "y = drop (64 - length r) x"
    have h: "holds (sha1_process b (state ctx)) b (f @ r @ take (64 - length r) x) []"
      unfolding b_def using fr(2) True by (intro holds_block) auto
    from holds_rest [OF h, of y, unfolded list.size] obtain f' r' where f': "m @ x = f' @ r'"
      and h': "holds (fst (process_blocks (sha1_process b (state ctx)) y))
         (let rest = snd (process_blocks (sha1_process b (state ctx)) y) in
            if 0 < length rest then memcpy b 0 rest (length rest) else b) f' r'"
      by (auto simp: fr(1) y_def Let_def)
    have "sha1_update ctx x =
       (let (st, rest) = process_blocks (sha1_process b (state ctx)) y;
            c = ?ctx\<lparr>buffer := b, state := st\<rparr>
        in if 0 < length rest then c\<lparr>buffer := memcpy b 0 rest (length rest)\<rparr> else c)"
      using True False t left tot by (simp add: sha1_update_def Let_def b_def y_def split: prod.splits)
    then show ?thesis using assms(2) h'
      by (intro ctx_holdsI [OF _ _ _ f']) (auto simp: Let_def split: prod.splits if_splits)
  next
    case stay: False
    then have "r = [] \<or> length r + length x < 64" using fr(2) by (auto simp: holds_def)
    from holds_rest [OF fr(2) this] obtain f' r' where f': "m @ x = f' @ r'"
      and h': "holds (fst (process_blocks (state ctx) x))
         (let rest = snd (process_blocks (state ctx) x) in
            if 0 < length rest then memcpy (buffer ctx) (length r) rest (length rest) else buffer ctx) f' r'"
      by (auto simp: fr(1))
    have "sha1_update ctx x =
       (let (st, rest) = process_blocks (state ctx) x; c = ?ctx\<lparr>state := st\<rparr>
        in if 0 < length rest then c\<lparr>buffer := memcpy (buffer ctx) (length r) rest (length rest)\<rparr> else c)"
      using stay False t left tot by (auto simp: sha1_update_def Let_def split: prod.splits)
    then show ?thesis using assms(2) h'
      by (intro ctx_holdsI [OF _ _ _ f']) (auto simp: Let_def split: prod.splits if_splits)
  qed
qed

lemma ctx_holds_starts: "length (buffer ctx) = 64 \<Longrightarrow> ctx_holds (sha1_starts ctx) []"
  by (simp add: ctx_holds_def sha1_starts_def holds_def absorb_short lo5_def h_init_def)


subsection \<open>Padding and output\<close>

lemma length_be_bytes [simp]: "length (be_bytes n v) = n"
  by (simp add: be_bytes_def)

lemma bit_be_bytes:
  "i < n \<Longrightarrow> k < 8 \<Longrightarrow> bit (be_bytes n v ! i) k = bit v (8 * (n - 1 - i) + k)"
proof -
  have "256 ^ j = (2 :: nat) ^ (8 * j)" for j by (simp add: power_mult)
  then show "i < n \<Longrightarrow> k < 8 \<Longrightarrow> bit (be_bytes n v ! i) k = bit v (8 * (n - 1 - i) + k)"
    by (simp add: be_bytes_def bit_of_nat_iff flip: drop_bit_eq_div) (simp add: bit_drop_bit_eq)
qed

lemma mem_bits_eqI:
  assumes "length xs = length ys" "\<And>i k. i < length xs \<Longrightarrow> k < 8 \<Longrightarrow> bit (xs ! i) k = bit (ys ! i) k"
  shows "xs = (ys :: mem)"
  using assms by (intro nth_equalityI bit_word_eqI) auto

lemma nth_PUT:
  "i < 4 \<Longrightarrow> k < 8 \<Longrightarrow> bit (PUT_ULONG_BE n ! i) k = bit n (8 * (3 - i) + k)"
  by (auto simp: PUT_ULONG_BE_def nth_Cons bit_simps numeral_eq_Suc less_Suc_eq split: nat.splits)

lemma PUT_be: "PUT_ULONG_BE n = be_bytes 4 (unat (lo n))"
  by (rule mem_bits_eqI)
    (auto simp: nth_PUT bit_be_bytes bit_simps PUT_ULONG_BE_def [THEN arg_cong [where f = length]])

lemma msglen_be:
  assumes "len < 2 ^ 32"
  shows "PUT_ULONG_BE (drop_bit 29 (word_of_nat len)) @ PUT_ULONG_BE (push_bit 3 (word_of_nat len))
    = be_bytes 8 (8 * len)"
proof (rule mem_bits_eqI)
  show "length (PUT_ULONG_BE (drop_bit 29 (word_of_nat len)) @ PUT_ULONG_BE (push_bit 3 (word_of_nat len)))
      = length (be_bytes 8 (8 * len))"
    by (simp add: PUT_ULONG_BE_def)
  have pl: "length (PUT_ULONG_BE w) = 4" for w by (simp add: PUT_ULONG_BE_def)
  have e: "8 * len = push_bit 3 len" by (simp add: push_bit_eq_mult)
  have small: "\<not> bit len j" if "32 \<le> j" for j
    using assms that by (metis bit_take_bit_iff not_less take_bit_nat_eq_self)
  fix i k :: nat
  assume ik: "i < length (PUT_ULONG_BE (drop_bit 29 (word_of_nat len)) @
      PUT_ULONG_BE (push_bit 3 (word_of_nat len)))" "k < 8"
  then have i: "i < 8" by (simp add: PUT_ULONG_BE_def)
  show "bit ((PUT_ULONG_BE (drop_bit 29 (word_of_nat len)) @
      PUT_ULONG_BE (push_bit 3 (word_of_nat len))) ! i) k = bit (be_bytes 8 (8 * len) ! i) k"
  proof (cases "i < 4")
    case True
    have "8 * (7 - i) + k - 3 = 29 + (8 * (3 - i) + k)" "3 \<le> 8 * (7 - i) + k"
      "8 * (3 - i) + k < 35" using True ik(2) by auto
    then show ?thesis
      using True ik i small [of "29 + (8 * (3 - i) + k)"]
      by (simp add: nth_append pl nth_PUT bit_be_bytes e bit_simps)
  next
    case False
    have "3 - (i - 4) = 7 - i" "8 * (7 - i) + k < 64" "8 * (7 - i) + k - 3 < 64"
      using False i ik(2) by auto
    then show ?thesis using False ik i
      by (simp add: nth_append pl nth_PUT bit_be_bytes e bit_simps)
  qed
qed

lemma take_padding: "0 < n \<Longrightarrow> n \<le> 64 \<Longrightarrow> take n sha1_padding = 0x80 # replicate (n - 1) 0"
  by (cases n) (simp_all add: sha1_padding_def min_def)

lemma pad_count: "q < 64 \<Longrightarrow> (119 - q) mod 64 = (if q < 56 then 55 - q else 119 - q :: nat)"
proof -
  assume q: "q < 64"
  show ?thesis
  proof (cases "q < 56")
    case True
    then have e: "119 - q = (55 - q) + 64" by arith
    have "55 - q < 64" by arith
    then show ?thesis using True unfolding e mod_add_self2 by (simp only: mod_less if_True)
  qed (use q in simp)
qed

lemma sha1_pad_dvd: "64 dvd length (sha1_pad m)"
proof -
  define q where "q = length m mod 64"
  have q: "q < 64" by (simp add: q_def)
  define p where "p = (119 - q) mod 64"
  have "p = (if q < 56 then 55 - q else 119 - q)" unfolding p_def using q by (rule pad_count)
  then have "q + (9 + p) = 64 \<or> q + (9 + p) = 128" using q by (cases "q < 56") simp_all
  then have "64 dvd q + (9 + p)" by (elim disjE) (simp_all only: dvd_refl, simp)
  moreover have "(length m + (9 + p)) mod 64 = (q + (9 + p)) mod 64"
    unfolding q_def by (rule mod_add_left_eq [symmetric])
  ultimately have "64 dvd length m + (9 + p)"
    unfolding dvd_eq_mod_eq_0 by simp
  moreover have "length (sha1_pad m) = length m + (9 + p)"
    by (simp add: sha1_pad_def q_def p_def)
  ultimately show ?thesis by simp
qed

lemma out5_PUT:
  "(case st of (h0, h1, h2, h3, h4) \<Rightarrow> PUT_ULONG_BE h0 @ PUT_ULONG_BE h1 @ PUT_ULONG_BE h2 @
     PUT_ULONG_BE h3 @ PUT_ULONG_BE h4) = out5 (lo5 st)"
  by (auto simp: out5_def lo5_def PUT_be split: prod.splits)

lemma sha1_finish_std:
  assumes "ctx_holds ctx m" "length m < 2 ^ 31"
  shows "snd (sha1_finish ctx) = sha1_std m \<and> length (buffer (fst (sha1_finish ctx))) = 64"
proof -
  obtain f r where t: "total0 ctx = word_of_nat (length m)" "total1 ctx = 0"
    and fr: "m = f @ r" "holds (state ctx) (buffer ctx) f r"
    using assms(1) by (auto simp: ctx_holds_def)
  have l32: "length m < 2 ^ 32" using assms(2) by simp
  define last where "last = length m mod 64"
  have left: "unat (total0 ctx AND 0x3F) = last"
    using ctx_left [OF t(1) l32 fr] fr by (auto simp: last_def holds_def)
  define padn where "padn = (if last < 56 then 56 - last else 120 - last)"
  have l: "last < 64" by (simp add: last_def)
  then have pn: "0 < padn" "padn \<le> 64" "padn - 1 = (119 - last) mod 64"
    by (auto simp: padn_def pad_count)
  define msglen where "msglen = PUT_ULONG_BE (drop_bit 29 (total0 ctx) OR push_bit 3 (total1 ctx)) @
    PUT_ULONG_BE (push_bit 3 (total0 ctx))"
  have ml: "msglen = be_bytes 8 (8 * length m)"
    using msglen_be [OF l32] t by (simp add: msglen_def)
  define c where "c = sha1_update (sha1_update ctx (take padn sha1_padding)) msglen"
  have "ctx_holds c ((m @ take padn sha1_padding) @ msglen)"
    unfolding c_def using assms ml pn take_padding [OF pn(1,2)]
    by (intro ctx_holds_update) auto
  moreover have "(m @ take padn sha1_padding) @ msglen = sha1_pad m"
    using pn take_padding [OF pn(1,2)] ml by (simp add: sha1_pad_def last_def)
  ultimately obtain f' r' where h: "sha1_pad m = f' @ r'" "holds (state c) (buffer c) f' r'"
    by (auto simp: ctx_holds_def)
  have "64 dvd length r'"
    using sha1_pad_dvd [of m] h by (auto simp: holds_def dvd_add_right_iff)
  then have "r' = []" using h(2) by (cases r') (auto simp: holds_def dest: dvd_imp_le)
  then have "lo5 (state c) = absorb h_init (sha1_pad m)" using h by (simp add: holds_def)
  moreover have "sha1_finish ctx = (c, out5 (lo5 (state c)))"
    using left unfolding out5_PUT [symmetric]
    by (simp add: sha1_finish_def Let_def c_def padn_def msglen_def split: prod.splits)
  ultimately show ?thesis using h(2) by (simp add: sha1_std_def holds_def)
qed


subsection \<open>The digests the program uses\<close>

lemma ctx0_starts: "ctx_holds (sha1_starts sha1_ctx0) []"
  by (rule ctx_holds_starts) (simp add: sha1_ctx0_def)

lemma sha1_eq_std: "length m < 2 ^ 31 \<Longrightarrow> sha1 m = sha1_std m"
  using sha1_finish_std [of "sha1_update (sha1_starts sha1_ctx0) m" m]
    ctx_holds_update [OF ctx0_starts, of m]
  by (simp add: sha1_def)

lemma length_sha1_std [simp]: "length (sha1_std m) = 20"
  by (simp add: sha1_std_def out5_def split: prod.splits)

lemma dht_hash_eq_std:
  assumes "length (v1 @ v2 @ v3) < 2 ^ 31"
  shows "dht_hash n v1 v2 v3 = take n (sha1_std (v1 @ v2 @ v3)) @ replicate (n - 20) 0"
proof -
  have "ctx_holds (sha1_update (sha1_update (sha1_update (sha1_starts sha1_ctx0) v1) v2) v3)
      ((([] @ v1) @ v2) @ v3)"
    using assms by (intro ctx_holds_update ctx0_starts) auto
  from sha1_finish_std [OF this] assms show ?thesis
    by (auto simp: dht_hash_def Let_def)
qed

lemma sha1_update_pads [simp]:
  "ipad (sha1_update ctx x) = ipad ctx" "opad (sha1_update ctx x) = opad ctx"
  by (auto simp: sha1_update_def Let_def split: prod.splits)

lemma sha1_finish_pads [simp]: "opad (fst (sha1_finish ctx)) = opad ctx"
  by (auto simp: sha1_finish_def Let_def split: prod.splits)

lemma sha1_starts_fields [simp]:
  "ipad (sha1_starts ctx) = ipad ctx" "opad (sha1_starts ctx) = opad ctx"
  "buffer (sha1_starts ctx) = buffer ctx"
  by (simp_all add: sha1_starts_def)

text \<open>RFC 2104: the key is hashed when longer than a block, then padded with zeros.\<close>

definition hmac_std :: "mem \<Rightarrow> mem \<Rightarrow> mem" where
  "hmac_std key m =
     (let k = (if 64 < length key then sha1_std key else key);
          k0 = k @ replicate (64 - length k) 0
      in sha1_std (map ((XOR) 0x5C) k0 @ sha1_std (map ((XOR) 0x36) k0 @ m)))"

lemma hmac_pad_map:
  "map2 (XOR) (replicate (length k) c) k @ replicate n c =
     map ((XOR) (c :: byte)) (k @ replicate n 0)"
  by (induction k) auto

lemma hmac_steps_std:
  assumes "length (buffer ctx) = 64" "length key < 2 ^ 31" "length m < 2 ^ 30"
  shows "snd (sha1_hmac_finish (sha1_hmac_update (sha1_hmac_starts ctx key) m)) = hmac_std key m"
    "length (buffer (fst (sha1_hmac_finish (sha1_hmac_update (sha1_hmac_starts ctx key) m)))) = 64"
proof -
  define k where "k = (if 64 < length key then sha1_std key else key)"
  define pd where "pd c = map ((XOR) c) (k @ replicate (64 - length k) 0)" for c :: byte
  have k: "(if 64 < length key then sha1 key else key) = k"
    using assms(2) by (simp add: k_def sha1_eq_std)
  have kl: "length k \<le> 64" by (simp add: k_def)
  have pl: "length (pd c) = 64" for c using kl by (simp add: pd_def)
  define c1 where "c1 = sha1_hmac_starts ctx key"
  have c1: "c1 = sha1_update (sha1_starts (ctx\<lparr>ipad := pd 0x36, opad := pd 0x5C\<rparr>)) (pd 0x36)"
    unfolding c1_def sha1_hmac_starts_def k by (simp add: Let_def hmac_pad_map pd_def)
  have s0: "ctx_holds (sha1_starts (ctx\<lparr>ipad := pd 0x36, opad := pd 0x5C\<rparr>)) []"
    by (rule ctx_holds_starts) (simp add: assms(1))
  have "ctx_holds (sha1_update c1 m) (([] @ pd 0x36) @ m)"
    unfolding c1 using s0 assms(3) pl by (intro ctx_holds_update) auto
  note inner = sha1_finish_std [OF this, simplified]
  define c2 where "c2 = fst (sha1_finish (sha1_update c1 m))"
  have bl: "length (buffer c2) = 64" and t: "snd (sha1_finish (sha1_update c1 m)) = sha1_std (pd 0x36 @ m)"
    using inner assms(3) pl by (auto simp: c2_def)
  have o: "opad c2 = pd 0x5C" by (simp add: c2_def c1)
  have "ctx_holds (sha1_update (sha1_update (sha1_starts c2) (pd 0x5C)) (sha1_std (pd 0x36 @ m)))
      (([] @ pd 0x5C) @ sha1_std (pd 0x36 @ m))"
    using bl pl by (intro ctx_holds_update ctx_holds_starts) auto
  note outer = sha1_finish_std [OF this, simplified]
  have "sha1_hmac_finish (sha1_hmac_update (sha1_hmac_starts ctx key) m) =
      sha1_finish (sha1_update (sha1_update (sha1_starts c2) (pd 0x5C)) (sha1_std (pd 0x36 @ m)))"
    using t o by (simp add: sha1_hmac_update_def sha1_hmac_finish_def Let_def c1_def [symmetric] c2_def [symmetric] split_def)
  then show "snd (sha1_hmac_finish (sha1_hmac_update (sha1_hmac_starts ctx key) m)) = hmac_std key m"
    "length (buffer (fst (sha1_hmac_finish (sha1_hmac_update (sha1_hmac_starts ctx key) m)))) = 64"
    using outer pl by (simp_all add: hmac_std_def k_def [symmetric] pd_def Let_def)
qed

lemma sha1_hmac_eq_std:
  "length key < 2 ^ 31 \<Longrightarrow> length m < 2 ^ 30 \<Longrightarrow> sha1_hmac key m = hmac_std key m"
  using hmac_steps_std(1) [of sha1_ctx0 key m] by (simp add: sha1_hmac_def sha1_ctx0_def)

text \<open>
  C25: the hash of the DHT is SHA-1. For pieces of together less than 2 GiB, \<^verbatim>\<open>dht_hash\<close> with
  the bundled \<^verbatim>\<open>sha1.c\<close> (64-bit variables whose high halves are never cleared, circular
  schedule, data buffered across the three updates) returns the FIPS 180 digest of the
  concatenation, cut to the requested size or filled with zeros beyond 20 bytes.
\<close>

theorem dht_hash_is_sha1:
  assumes "length (v1 @ v2 @ v3) < 2 ^ 31"
  shows "dht_hash n v1 v2 v3 = take n (sha1_std (v1 @ v2 @ v3)) @ replicate (n - 20) 0"
  using assms by (rule dht_hash_eq_std)

theorem dht_hash_is_sha1_witness:
  "dht_hash 24 (ascii ''dtn'') [58] (ascii ''//node'') =
     take 24 (sha1_std (ascii ''dtn'' @ [58] @ ascii ''//node'')) @ replicate (24 - 20) 0"
  by (rule dht_hash_is_sha1) (simp add: ascii_def)

text \<open>
  \<^verbatim>\<open>sha1_hmac\<close> is HMAC-SHA-1 of RFC 2104: whatever the length of the key (below 2 GiB), it
  returns the outer digest over the padded key and the inner digest.
\<close>

theorem sha1_hmac_is_hmac:
  assumes "length key < 2 ^ 31" "length m < 2 ^ 30"
  shows "sha1_hmac key m = hmac_std key m"
  using assms by (rule sha1_hmac_eq_std)

theorem sha1_hmac_is_hmac_witness:
  "sha1_hmac (ascii ''Jefe'') (ascii ''what'') = hmac_std (ascii ''Jefe'') (ascii ''what'')"
  by (rule sha1_hmac_is_hmac) (simp_all add: ascii_def)

end
