(* ===== verification/Storage.thy ===== *)
theory Storage
  imports Routing Sha1_Correct "HOL-Library.Multiset"
begin

text \<open>
  The peers announced to us, the write tokens and the rate limit of \<^verbatim>\<open>dht.c\<close>:
  \<^verbatim>\<open>find_storage\<close>, \<^verbatim>\<open>storage_store\<close>, \<^verbatim>\<open>expire_storage\<close>, \<^verbatim>\<open>rotate_secrets\<close>, \<^verbatim>\<open>make_token\<close>,
  \<^verbatim>\<open>token_match\<close>, \<^verbatim>\<open>token_bucket\<close>. The lemmas show the bounds and the absence of duplicates,
  what a store and an expiry leave, and which tokens are accepted.
\<close>

subsection \<open>Storage\<close>

definition find_storage :: "mem \<Rightarrow> 'a dht_scheme \<Rightarrow> nat option" where
  "find_storage x s = find_index (\<lambda>st. id_cmp x (st_id st) = 0) (storages s)"

definition same_peer :: "nat \<Rightarrow> mem \<Rightarrow> peer \<Rightarrow> bool" where
  "same_peer port ip p \<longleftrightarrow> p_port p = port \<and> length (p_ip p) = length ip \<and> memcmp (p_ip p) ip (length ip) = 0"

text \<open>
  The part of \<^verbatim>\<open>storage_store\<close> behind the creation of the entry \<open>k\<close>. The success of
  \<^verbatim>\<open>realloc\<close> is an answer of the allocator like that of \<^verbatim>\<open>calloc\<close>.
\<close>

definition store_peer :: "nat \<Rightarrow> mem \<Rightarrow> nat \<Rightarrow> 'a dht_scheme \<Rightarrow> int \<times> 'a dht_scheme" where
  "store_peer k ip port s =
     (let st = storages s ! k; p = \<lparr>p_time = now s, p_ip = ip, p_port = port\<rparr>;
          put = (\<lambda>m s. s\<lparr>storages := update_at k
                   (\<lambda>st. st\<lparr>st_maxpeers := m, st_peers := st_peers st @ [p]\<rparr>) (storages s)\<rparr>)
      in case find_index (same_peer port ip) (st_peers st) of
           Some i \<Rightarrow> (0, s\<lparr>storages := update_at k
               (\<lambda>st. st\<lparr>st_peers := update_at i (\<lambda>p. p\<lparr>p_time := now s\<rparr>) (st_peers st)\<rparr>) (storages s)\<rparr>)
         | None \<Rightarrow>
             if st_maxpeers st \<le> length (st_peers st) then
               if DHT_MAX_PEERS \<le> st_maxpeers st then (0, s)
               else
                 let n = min (if st_maxpeers st = 0 then 2 else 2 * st_maxpeers st) DHT_MAX_PEERS;
                     (ok, s) = c_calloc s
                 in if \<not> ok then (- 1, s) else (1, put n s)
             else (1, put (st_maxpeers st) s))"

definition sa_ip :: "mem \<Rightarrow> mem option" where
  "sa_ip sa = (if sa_family sa = AF_INET then Some (sin_addr sa)
     else if sa_family sa = AF_INET6 then Some (sin6_addr sa) else None)"

definition storage_store :: "mem \<Rightarrow> mem \<Rightarrow> nat \<Rightarrow> 'a dht_scheme \<Rightarrow> int \<times> 'a dht_scheme" where
  "storage_store x sa port s =
     (case sa_ip sa of None \<Rightarrow> (- 1, s)
      | Some ip \<Rightarrow>
          (case find_storage x s of
             Some k \<Rightarrow> store_peer k ip port s
           | None \<Rightarrow>
               if DHT_MAX_HASHES \<le> numstorage s then (- 1, s)
               else let (ok, s) = c_calloc s in
                 if \<not> ok then (- 1, s)
                 else store_peer 0 ip port
                   (s\<lparr>storages := \<lparr>st_id = take 20 x, st_maxpeers = 0, st_peers = []\<rparr> # storages s,
                      numstorage := numstorage s + 1\<rparr>)))"

text \<open>An expired peer is replaced by the last one, which is looked at next.\<close>

function expire_peers :: "int \<Rightarrow> nat \<Rightarrow> peer list \<Rightarrow> peer list" where
  "expire_peers t i ps =
     (if i < length ps then
        if p_time (ps ! i) < t - 32 * 60 then
          expire_peers t i (butlast (if i \<noteq> length ps - 1 then ps[i := ps ! (length ps - 1)] else ps))
        else expire_peers t (Suc i) ps
      else ps)"
  by pat_completeness auto
termination by (relation "measure (\<lambda>(t, i, ps). length ps - i)") auto

declare expire_peers.simps [simp del]

fun expire_storages :: "int \<Rightarrow> storage list \<Rightarrow> int \<Rightarrow> storage list \<times> int" where
  "expire_storages t [] n = ([], n)"
| "expire_storages t (st # sts) n =
     (let ps = expire_peers t 0 (st_peers st) in
      if length ps = 0 then expire_storages t sts (if n - 1 < 0 then 0 else n - 1)
      else let (sts, n) = expire_storages t sts n in (st\<lparr>st_peers := ps\<rparr> # sts, n))"

definition expire_storage :: "'a dht_scheme \<Rightarrow> 'a dht_scheme" where
  "expire_storage s =
     (let (sts, n) = expire_storages (now s) (storages s) (numstorage s)
      in s\<lparr>storages := sts, numstorage := n\<rparr>)"

subsection \<open>Tokens\<close>

definition dht_random_bytes :: "nat \<Rightarrow> 'a dht_scheme \<Rightarrow> mem \<times> 'a dht_scheme" where
  "dht_random_bytes = random_bytes"

definition rotate_secrets :: "'a dht_scheme \<Rightarrow> 'a dht_scheme" where
  "rotate_secrets s =
     (let (r, s) = c_random s;
          s = s\<lparr>rotate_secrets_time := now s + 900 + int (r mod 1800), oldsecret := secret s\<rparr>;
          (bs, s) = dht_random_bytes 8 s
      in s\<lparr>secret := bs\<rparr>)"

text \<open>
  \<^verbatim>\<open>htons\<close> of a port that is already in network order swaps its bytes once more. An address
  of another family is the call of \<^verbatim>\<open>abort\<close>.
\<close>

definition make_token :: "mem \<Rightarrow> bool \<Rightarrow> 'a dht_scheme \<Rightarrow> mem option" where
  "make_token sa old s =
     map_option (\<lambda>ip. dht_hash TOKEN_SIZE (if old then oldsecret s else secret s) ip (rev (sin_port sa)))
       (sa_ip sa)"

definition token_match :: "mem \<Rightarrow> mem \<Rightarrow> 'a dht_scheme \<Rightarrow> bool option" where
  "token_match token sa s =
     (if length token \<noteq> TOKEN_SIZE then Some False
      else case make_token sa False s of None \<Rightarrow> None
       | Some t \<Rightarrow> if memcmp t token TOKEN_SIZE = 0 then Some True
           else map_option (\<lambda>t. memcmp t token TOKEN_SIZE = 0) (make_token sa True s))"

subsection \<open>Rate control\<close>

definition token_bucket :: "'a dht_scheme \<Rightarrow> bool \<times> 'a dht_scheme" where
  "token_bucket s =
     (let s = (if token_bucket_tokens s = 0 then
                 s\<lparr>token_bucket_tokens := c_int (min MAX_TOKEN_BUCKET_TOKENS (100 * (now s - token_bucket_time s))),
                   token_bucket_time := now s\<rparr>
               else s)
      in if token_bucket_tokens s = 0 then (False, s)
         else (True, s\<lparr>token_bucket_tokens := token_bucket_tokens s - 1\<rparr>))"

subsection \<open>What expiry leaves\<close>

definition fresh_peer :: "int \<Rightarrow> peer \<Rightarrow> bool" where
  "fresh_peer t p \<longleftrightarrow> t - 32 * 60 \<le> p_time p"

lemma mset_butlast_swap:
  assumes "i < length ps"
  shows "mset (butlast (if i \<noteq> length ps - 1 then ps[i := ps ! (length ps - 1)] else ps)) + {#ps ! i#} = mset ps"
proof (cases "i = length ps - 1")
  case True
  have "ps = butlast ps @ [ps ! i]" using assms True by (metis append_butlast_last_id last_conv_nth length_greater_0_conv less_zeroE list.size(3) length_0_conv)
  then have "mset ps = mset (butlast ps) + {#ps ! i#}" by (metis mset.simps(1) mset.simps(2) mset_append add_mset_add_single empty_neutral(1))
  then show ?thesis using True by simp
next
  case False
  let ?q = "ps[i := ps ! (length ps - 1)]"
  have ne: "ps \<noteq> []" using assms by auto
  then have q: "?q \<noteq> []" "last ?q = ps ! (length ps - 1)" using False
    by (simp_all add: last_list_update last_conv_nth)
  have "mset ?q + {#ps ! i#} = mset ps + {#ps ! (length ps - 1)#}"
    using assms by (simp add: mset_update)
  moreover have "mset ?q = mset (butlast ?q) + {#last ?q#}"
    using q(1) by (metis append_butlast_last_id mset_append mset_single_iff)
  ultimately show ?thesis using False q(2) by simp
qed

lemma expire_peers_mset:
  "i \<le> length ps \<Longrightarrow> (\<forall>p \<in> set (take i ps). fresh_peer t p) \<Longrightarrow>
     mset (expire_peers t i ps) = filter_mset (fresh_peer t) (mset ps)"
proof (induction t i ps rule: expire_peers.induct)
  case (1 t i ps)
  show ?case
  proof (cases "i < length ps")
    case False
    then have "filter_mset (fresh_peer t) (mset ps) = mset ps" using 1 by (simp add: filter_mset_eq_conv)
    then show ?thesis using False by (simp add: expire_peers.simps [of t i ps])
  next
    case True
    show ?thesis
    proof (cases "fresh_peer t (ps ! i)")
      case fr: True
      then have "\<forall>p \<in> set (take (Suc i) ps). fresh_peer t p"
        using True 1 by (auto simp: take_Suc_conv_app_nth)
      then show ?thesis using True fr 1
        by (simp add: expire_peers.simps [of t i ps] fresh_peer_def)
    next
      case st: False
      let ?q = "butlast (if i \<noteq> length ps - 1 then ps[i := ps ! (length ps - 1)] else ps)"
      have q: "take i ?q = take i ps" "i \<le> length ?q" using True by (auto simp: take_butlast)
      have "mset (expire_peers t i ps) = mset (expire_peers t i ?q)"
        using True st by (simp add: expire_peers.simps [of t i ps] fresh_peer_def)
      also have "\<dots> = filter_mset (fresh_peer t) (mset ?q)"
        using "1.IH"(1) [OF True _ q(2)] "1.prems"(2) q(1) st by (simp add: fresh_peer_def [abs_def])
      also have "\<dots> = filter_mset (fresh_peer t) (mset ps)"
        using st by (subst mset_butlast_swap [OF True, symmetric]) simp
      finally show ?thesis .
    qed
  qed
qed

lemma length_expire_peers: "length (expire_peers t 0 ps) \<le> length ps"
  using expire_peers_mset [of 0 ps t] by (metis empty_iff list.set(1) size_filter_mset_lesseq size_mset take_0 le0)

lemma set_expire_peers: "set (expire_peers t 0 ps) = {p \<in> set ps. fresh_peer t p}"
  using expire_peers_mset [of 0 ps t] by (metis (no_types, lifting) empty_iff le0 list.set(1) set_mset_filter set_mset_mset take_0 Collect_cong)

subsection \<open>The invariant of the storage\<close>

definition peer_key :: "peer \<Rightarrow> mem \<times> nat" where
  "peer_key p = (p_ip p, p_port p)"

definition st_ok :: "storage \<Rightarrow> bool" where
  "st_ok st \<longleftrightarrow> valid_id (st_id st) \<and> length (st_peers st) \<le> st_maxpeers st \<and>
     st_maxpeers st \<le> DHT_MAX_PEERS \<and> distinct (map peer_key (st_peers st))"

definition storage_inv :: "'a dht_scheme \<Rightarrow> bool" where
  "storage_inv s \<longleftrightarrow> numstorage s = int (length (storages s)) \<and> numstorage s \<le> DHT_MAX_HASHES \<and>
     distinct (map st_id (storages s)) \<and> (\<forall>st \<in> set (storages s). st_ok st)"

text \<open>The abstract view: the peers stored for an identifier.\<close>

definition peers_of :: "mem \<Rightarrow> 'a dht_scheme \<Rightarrow> peer list" where
  "peers_of x s = (case find_storage x s of None \<Rightarrow> [] | Some k \<Rightarrow> st_peers (storages s ! k))"

lemma same_peer_key: "same_peer port ip p \<longleftrightarrow> peer_key p = (ip, port)"
proof -
  have "memcmp (p_ip p) ip (length ip) = 0 \<longleftrightarrow> p_ip p = ip" if "length (p_ip p) = length ip"
    using that bytes_cmp_eq_0 [of "p_ip p" ip] by (simp add: memcmp_def)
  then show ?thesis by (auto simp: same_peer_def peer_key_def)
qed

lemma find_storage_iff:
  assumes "storage_inv s" "valid_id x"
  shows "find_storage x s = Some k \<longleftrightarrow> k < length (storages s) \<and> st_id (storages s ! k) = x"
proof
  have v: "st \<in> set (storages s) \<Longrightarrow> id_cmp x (st_id st) = 0 \<longleftrightarrow> st_id st = x" for st
    using assms by (auto simp: storage_inv_def st_ok_def id_cmp_eq)
  show "k < length (storages s) \<and> st_id (storages s ! k) = x" if "find_storage x s = Some k"
    using find_index_SomeD [OF that [unfolded find_storage_def]] v nth_mem by auto
  assume k: "k < length (storages s) \<and> st_id (storages s ! k) = x"
  have "st_id (storages s ! j) \<noteq> x" if "j < k" for j
    using assms(1) k that nth_eq_iff_index_eq [of "map st_id (storages s)" j k] by (auto simp: storage_inv_def)
  then show "find_storage x s = Some k"
    unfolding find_storage_def using k v by (intro find_index_SomeI) (auto simp: nth_mem less_trans)
qed

lemma find_storage_None:
  "storage_inv s \<Longrightarrow> valid_id x \<Longrightarrow> find_storage x s = None \<longleftrightarrow> x \<notin> st_id ` set (storages s)"
proof -
  assume a: "storage_inv s" "valid_id x"
  then have "id_cmp x (st_id st) = 0 \<longleftrightarrow> x = st_id st" if "st \<in> set (storages s)" for st
    using that by (auto simp: storage_inv_def st_ok_def id_cmp_eq)
  then show ?thesis by (auto simp: find_storage_def find_index_None)
qed

lemma peers_of_at:
  assumes "storage_inv s" "k < length (storages s)"
  shows "peers_of (st_id (storages s ! k)) s = st_peers (storages s ! k)"
proof -
  have "valid_id (st_id (storages s ! k))" using assms by (auto simp: storage_inv_def st_ok_def)
  then have "find_storage (st_id (storages s ! k)) s = Some k"
    using find_storage_iff [OF assms(1)] assms(2) by simp
  then show ?thesis by (simp add: peers_of_def)
qed

lemma peers_of_absent:
  "storage_inv s \<Longrightarrow> valid_id x \<Longrightarrow> x \<notin> st_id ` set (storages s) \<Longrightarrow> peers_of x s = []"
  using find_storage_None by (fastforce simp: peers_of_def)

text \<open>Two well-formed states with the same entries have the same view.\<close>

lemma peers_of_eqI:
  assumes "storage_inv s" "storage_inv t" "valid_id x"
    "\<And>st. st \<in> set (storages s) \<Longrightarrow> st_id st = x \<Longrightarrow> \<exists>st' \<in> set (storages t). st_id st' = x \<and> st_peers st' = st_peers st"
    "\<And>st. st \<in> set (storages t) \<Longrightarrow> st_id st = x \<Longrightarrow> \<exists>st' \<in> set (storages s). st_id st' = x"
  shows "peers_of x t = peers_of x s"
proof (cases "x \<in> st_id ` set (storages s)")
  case False
  have t: "x \<notin> st_id ` set (storages t)"
  proof
    assume "x \<in> st_id ` set (storages t)"
    then obtain st where "st \<in> set (storages t)" "st_id st = x" by blast
    from assms(5) [OF this] False show False by blast
  qed
  show ?thesis
    by (simp only: peers_of_absent [OF assms(1,3) False] peers_of_absent [OF assms(2,3) t])
next
  case True
  then obtain st where "st \<in> set (storages s)" "st_id st = x" by blast
  then obtain i where i: "i < length (storages s)" "st_id (storages s ! i) = x"
    unfolding in_set_conv_nth by blast
  from assms(4) [OF nth_mem [OF i(1)] i(2)] obtain st' where
    "st' \<in> set (storages t)" "st_id st' = x" "st_peers st' = st_peers (storages s ! i)" by blast
  then obtain j where j: "j < length (storages t)" "st_id (storages t ! j) = x"
    "st_peers (storages t ! j) = st_peers (storages s ! i)"
    unfolding in_set_conv_nth by blast
  show ?thesis using peers_of_at [OF assms(1) i(1)] peers_of_at [OF assms(2) j(1)]
    by (simp only: i j)
qed

subsection \<open>Expiry\<close>

lemma expire_storages_eq:
  "int (length sts) \<le> n \<Longrightarrow> expire_storages t sts n =
     (let keep = filter (\<lambda>st. st_peers st \<noteq> []) (map (\<lambda>st. st\<lparr>st_peers := expire_peers t 0 (st_peers st)\<rparr>) sts)
      in (keep, n - int (length sts - length keep)))"
proof (induction t sts n rule: expire_storages.induct)
  case (2 t st sts n)
  have le: "length (filter (\<lambda>st. expire_peers t 0 (st_peers st) \<noteq> []) sts) \<le> length sts"
    by (rule length_filter_le)
  show ?case using 2 le by (auto simp: Let_def filter_map comp_def of_nat_diff Suc_diff_le)
qed simp

lemma distinct_map_mono_mset:
  assumes "mset ys \<subseteq># mset xs" "distinct (map f xs)"
  shows "distinct (map f ys)"
proof -
  have "mset (map f ys) \<subseteq># mset (map f xs)" using assms(1) by (simp add: image_mset_subseteq_mono)
  moreover have "\<forall>a. count (mset (map f xs)) a \<le> 1"
    using assms(2) by (simp add: distinct_count_atmost_1)
  ultimately have "\<forall>a. count (mset (map f ys)) a \<le> 1" by (meson mset_subset_eq_count order_trans)
  then have "count (mset (map f ys)) a = (if a \<in> set (map f ys) then 1 else 0)" for a
    by (metis (mono_tags) count_mset_0_iff le_less less_one)
  then show ?thesis by (simp only: distinct_count_atmost_1) simp
qed

lemma expire_storage_inv:
  assumes "storage_inv s"
  shows "storage_inv (expire_storage s)"
proof -
  have ok: "st_ok (st\<lparr>st_peers := expire_peers (now s) 0 (st_peers st)\<rparr>)" if "st \<in> set (storages s)" for st
  proof -
    have "st_ok st" using assms that by (simp add: storage_inv_def)
    moreover have "mset (expire_peers (now s) 0 (st_peers st)) \<subseteq># mset (st_peers st)"
      by (simp add: expire_peers_mset)
    then have "distinct (map peer_key (expire_peers (now s) 0 (st_peers st)))"
      by (rule distinct_map_mono_mset) (use calculation in \<open>simp add: st_ok_def\<close>)
    ultimately show ?thesis using length_expire_peers [of "now s" "st_peers st"] by (auto simp: st_ok_def)
  qed
  let ?m = "map (\<lambda>st. st\<lparr>st_peers := expire_peers (now s) 0 (st_peers st)\<rparr>) (storages s)"
  have l: "length (filter (\<lambda>st. st_peers st \<noteq> []) ?m) \<le> length (storages s)"
    by (rule order_trans [OF length_filter_le]) simp
  have "map st_id ?m = map st_id (storages s)" by simp
  then have "distinct (map st_id ?m)" using assms by (simp only: storage_inv_def)
  then have "distinct (map st_id (filter (\<lambda>st. st_peers st \<noteq> []) ?m))" by (rule distinct_map_filter)
  moreover have "int (length (filter (\<lambda>st. st_peers st \<noteq> []) ?m)) \<le> DHT_MAX_HASHES"
    using assms l by (auto simp: storage_inv_def simp del: length_filter_map)
  moreover have "storages (expire_storage s) = filter (\<lambda>st. st_peers st \<noteq> []) ?m"
    "numstorage (expire_storage s) = int (length (filter (\<lambda>st. st_peers st \<noteq> []) ?m))"
    using assms l by (simp_all add: storage_inv_def expire_storage_def expire_storages_eq Let_def of_nat_diff)
  ultimately show ?thesis using ok by (auto simp: storage_inv_def)
qed

lemma expire_storage_peers:
  assumes "storage_inv s" "valid_id x"
  shows "mset (peers_of x (expire_storage s)) = filter_mset (fresh_peer (now s)) (mset (peers_of x s))"
proof -
  let ?ex = "\<lambda>st. st\<lparr>st_peers := expire_peers (now s) 0 (st_peers st)\<rparr>"
  let ?t = "expire_storage s"
  have st: "storages ?t = filter (\<lambda>st. st_peers st \<noteq> []) (map ?ex (storages s))"
    using assms(1) by (simp add: storage_inv_def expire_storage_def expire_storages_eq Let_def)
  have inv: "storage_inv ?t" using assms(1) by (rule expire_storage_inv)
  show ?thesis
  proof (cases "x \<in> st_id ` set (storages s)")
    case False
    then have "x \<notin> st_id ` set (storages ?t)" unfolding st by auto
    from peers_of_absent [OF inv assms(2) this] peers_of_absent [OF assms False]
    show ?thesis by simp
  next
    case True
    then obtain i where i: "i < length (storages s)" "st_id (storages s ! i) = x"
      unfolding in_set_conv_nth image_iff by (metis in_set_conv_nth)
    define ps where "ps = st_peers (storages s ! i)"
    have ps: "peers_of x s = ps" using peers_of_at [OF assms(1) i(1)] by (simp only: i(2) ps_def)
    have m: "mset (expire_peers (now s) 0 ps) = filter_mset (fresh_peer (now s)) (mset ps)"
      by (simp add: expire_peers_mset)
    show ?thesis
    proof (cases "expire_peers (now s) 0 ps = []")
      case True
      have "x \<notin> st_id ` set (storages ?t)"
      proof
        assume "x \<in> st_id ` set (storages ?t)"
        then obtain st' where st': "st' \<in> set (storages s)" "st_id st' = x"
          "expire_peers (now s) 0 (st_peers st') \<noteq> []" unfolding st by auto
        then obtain j where j: "j < length (storages s)" "storages s ! j = st'"
          unfolding in_set_conv_nth by blast
        then have "i = j" using assms(1) i st'(2) nth_eq_iff_index_eq [of "map st_id (storages s)" i j]
          by (simp add: storage_inv_def)
        then show False using True st'(3) j by (simp add: ps_def)
      qed
      then have "peers_of x ?t = []" by (rule peers_of_absent [OF inv assms(2)])
      then show ?thesis using True m ps by simp
    next
      case False
      have "?ex (storages s ! i) \<in> set (storages ?t)"
        unfolding st using i(1) False by (auto simp: ps_def)
      then obtain j where j: "j < length (storages ?t)" "storages ?t ! j = ?ex (storages s ! i)"
        unfolding in_set_conv_nth by blast
      have "peers_of x ?t = expire_peers (now s) 0 ps"
        using peers_of_at [OF inv j(1)] j(2) i(2) by (simp add: ps_def)
      then show ?thesis using m ps by simp
    qed
  qed
qed

subsection \<open>Storing\<close>

lemma storage_inv_calloc [simp]: "storage_inv (s\<lparr>calloc_src := c\<rparr>) = storage_inv s"
  by (simp add: storage_inv_def)

lemma peers_of_calloc [simp]: "peers_of x (s\<lparr>calloc_src := c\<rparr>) = peers_of x s"
  by (simp add: peers_of_def find_storage_def cong: option.case_cong)

text \<open>An update of one entry that keeps its identifier.\<close>

lemma storage_update:
  assumes "storage_inv s" "k < length (storages s)" "st_id (f (storages s ! k)) = st_id (storages s ! k)"
    "st_ok (f (storages s ! k))"
  shows "storage_inv (s\<lparr>storages := update_at k f (storages s)\<rparr>)"
    "peers_of (st_id (storages s ! k)) (s\<lparr>storages := update_at k f (storages s)\<rparr>) = st_peers (f (storages s ! k))"
    "valid_id y \<Longrightarrow> y \<noteq> st_id (storages s ! k) \<Longrightarrow>
       peers_of y (s\<lparr>storages := update_at k f (storages s)\<rparr>) = peers_of y s"
proof -
  let ?t = "s\<lparr>storages := update_at k f (storages s)\<rparr>"
  have up: "update_at k f (storages s) = (storages s)[k := f (storages s ! k)]"
    using assms(2) by (simp add: update_at_def)
  have ids: "map st_id (update_at k f (storages s)) = map st_id (storages s)"
    unfolding up map_update assms(3) by (metis assms(2) list_update_id nth_map)
  have sub: "set (update_at k f (storages s)) \<subseteq> insert (f (storages s ! k)) (set (storages s))"
    unfolding up by (rule set_update_subset_insert)
  show inv: "storage_inv ?t"
    using assms(1,4) sub by (auto simp: storage_inv_def ids)
  show "peers_of (st_id (storages s ! k)) ?t = st_peers (f (storages s ! k))"
    using peers_of_at [OF inv, of k] assms(2,3) by (simp add: nth_update_at)
  assume y: "valid_id y" "y \<noteq> st_id (storages s ! k)"
  have "find_storage y ?t = find_storage y s"
  proof -
    have "j < length (storages s) \<and> st_id (update_at k f (storages s) ! j) = y \<longleftrightarrow>
        j < length (storages s) \<and> st_id (storages s ! j) = y" for j
      using assms(3) by (auto simp: nth_update_at)
    then have "find_storage y ?t = Some j \<longleftrightarrow> find_storage y s = Some j" for j
      using find_storage_iff [OF inv y(1)] find_storage_iff [OF assms(1) y(1)] by simp
    then show ?thesis by (metis not_Some_eq)
  qed
  moreover have "st_peers (update_at k f (storages s) ! j) = st_peers (storages s ! j)"
    if "find_storage y s = Some j" for j
    using that find_storage_iff [OF assms(1) y(1)] y(2) by (auto simp: nth_update_at)
  ultimately show "peers_of y ?t = peers_of y s" by (auto simp: peers_of_def split: option.split)
qed

text \<open>What a store of \<open>(ip, port)\<close> under \<open>x\<close> with answer \<open>r\<close> does to the view.\<close>

definition stored :: "mem \<Rightarrow> mem \<Rightarrow> nat \<Rightarrow> int \<Rightarrow> 'a dht_scheme \<Rightarrow> 'a dht_scheme \<Rightarrow> bool" where
  "stored x ip port r s t \<longleftrightarrow>
     (r = 1 \<and> peers_of x t = peers_of x s @ [\<lparr>p_time = now s, p_ip = ip, p_port = port\<rparr>] \<and>
        (ip, port) \<notin> peer_key ` set (peers_of x s) \<or>
      r = 0 \<and> peers_of x t = map (\<lambda>p. if peer_key p = (ip, port) then p\<lparr>p_time := now s\<rparr> else p) (peers_of x s) \<and>
        ((ip, port) \<in> peer_key ` set (peers_of x s) \<or> length (peers_of x s) = DHT_MAX_PEERS) \<or>
      r = - 1 \<and> peers_of x t = peers_of x s) \<and>
     (\<forall>y. valid_id y \<longrightarrow> y \<noteq> x \<longrightarrow> peers_of y t = peers_of y s)"

lemma refresh_map:
  assumes "distinct (map peer_key ps)" "i < length ps" "peer_key (ps ! i) = k"
  shows "update_at i (\<lambda>p. p\<lparr>p_time := n\<rparr>) ps = map (\<lambda>p. if peer_key p = k then p\<lparr>p_time := n\<rparr> else p) ps"
proof (rule nth_equalityI)
  fix j assume "j < length (update_at i (\<lambda>p. p\<lparr>p_time := n\<rparr>) ps)"
  then have j: "j < length ps" by simp
  then have "peer_key (ps ! j) = k \<longleftrightarrow> j = i"
    using assms nth_eq_iff_index_eq [of "map peer_key ps" j i] by auto
  then show "update_at i (\<lambda>p. p\<lparr>p_time := n\<rparr>) ps ! j = map (\<lambda>p. if peer_key p = k then p\<lparr>p_time := n\<rparr> else p) ps ! j"
    using j by (auto simp: nth_update_at)
qed simp

lemma store_peer_ok:
  assumes "storage_inv s" "k < length (storages s)" "store_peer k ip port s = (r, t)"
  shows "storage_inv t" "stored (st_id (storages s ! k)) ip port r s t"
proof -
  define st where "st = storages s ! k"
  define p where "p = \<lparr>p_time = now s, p_ip = ip, p_port = port\<rparr>"
  have st: "st_ok st" "peers_of (st_id st) s = st_peers st"
    using assms(1,2) peers_of_at [OF assms(1,2)] by (auto simp: st_def storage_inv_def)
  have pk: "peer_key p = (ip, port)" by (simp add: p_def peer_key_def)
  have "storage_inv t \<and> stored (st_id st) ip port r s t"
  proof (cases "find_index (same_peer port ip) (st_peers st)")
    case (Some i)
    define f :: "storage \<Rightarrow> storage" where "f = (\<lambda>st. st\<lparr>st_peers := update_at i (\<lambda>p. p\<lparr>p_time := now s\<rparr>) (st_peers st)\<rparr>)"
    have rt: "r = 0" "t = s\<lparr>storages := update_at k f (storages s)\<rparr>"
      using assms(3) Some by (auto simp: store_peer_def Let_def st_def f_def)
    have i: "i < length (st_peers st)" "peer_key (st_peers st ! i) = (ip, port)"
      using find_index_SomeD [OF Some] by (simp_all add: same_peer_key)
    have "map peer_key (update_at i (\<lambda>p. p\<lparr>p_time := now s\<rparr>) (st_peers st)) = map peer_key (st_peers st)"
      by (rule map_update_at) (simp add: peer_key_def)
    then have fk: "st_id (f st) = st_id st" "st_ok (f st)" using st(1) by (simp_all add: f_def st_ok_def)
    note u = storage_update [OF assms(1,2), of f, folded st_def, OF fk]
    have "(ip, port) \<in> peer_key ` set (st_peers st)" using i by (metis image_eqI nth_mem)
    moreover have "st_peers (f st) = map (\<lambda>p. if peer_key p = (ip, port) then p\<lparr>p_time := now s\<rparr> else p) (st_peers st)"
      using refresh_map [OF _ i] st(1) by (simp add: f_def st_ok_def)
    ultimately show ?thesis using u st(2) unfolding rt stored_def by simp
  next
    case None
    have new: "(ip, port) \<notin> peer_key ` set (st_peers st)"
      using None by (auto simp: find_index_None same_peer_key)
    have same: "map (\<lambda>p. if peer_key p = (ip, port) then p\<lparr>p_time := now s\<rparr> else p) (st_peers st) = st_peers st"
      using None by (intro map_idI) (auto simp: find_index_None same_peer_key)
    have put: "storage_inv (s\<lparr>storages := update_at k (\<lambda>st. st\<lparr>st_maxpeers := m, st_peers := st_peers st @ [p]\<rparr>) (storages s)\<rparr>) \<and>
      stored (st_id st) ip port 1 s (s\<lparr>storages := update_at k (\<lambda>st. st\<lparr>st_maxpeers := m, st_peers := st_peers st @ [p]\<rparr>) (storages s)\<rparr>)"
      if "length (st_peers st) < m" "m \<le> DHT_MAX_PEERS" for m
    proof -
      let ?f = "\<lambda>st. st\<lparr>st_maxpeers := m, st_peers := st_peers st @ [p]\<rparr>"
      have fk: "st_id (?f st) = st_id st" "st_ok (?f st)"
        using st(1) that new pk by (auto simp: st_ok_def)
      note u = storage_update [OF assms(1,2), of ?f, folded st_def, OF fk]
      then show ?thesis using u st(2) new by (simp add: stored_def p_def)
    qed
    have calloc: "stored y ip port 1 s (u\<lparr>calloc_src := c\<rparr>) = stored y ip port 1 s u" for y u c
      by (simp add: stored_def)
    have eq: "store_peer k ip port s =
       (if st_maxpeers st \<le> length (st_peers st) then
          if DHT_MAX_PEERS \<le> st_maxpeers st then (0, s)
          else if calloc_src s 0
            then (1, (s\<lparr>storages := update_at k (\<lambda>st'. st'\<lparr>st_maxpeers := min (if st_maxpeers st = 0 then 2 else 2 * st_maxpeers st) DHT_MAX_PEERS,
                 st_peers := st_peers st' @ [p]\<rparr>) (storages s)\<rparr>)\<lparr>calloc_src := later (calloc_src s)\<rparr>)
            else (- 1, s\<lparr>calloc_src := later (calloc_src s)\<rparr>)
        else (1, s\<lparr>storages := update_at k (\<lambda>st'. st'\<lparr>st_maxpeers := st_maxpeers st,
                 st_peers := st_peers st' @ [p]\<rparr>) (storages s)\<rparr>))"
      using None by (simp add: store_peer_def Let_def st_def [symmetric] p_def c_calloc_def)
    have b: "length (st_peers st) \<le> st_maxpeers st" "st_maxpeers st \<le> DHT_MAX_PEERS"
      using st(1) by (auto simp: st_ok_def)
    have grow: "length (st_peers st) < min (if st_maxpeers st = 0 then 2 else 2 * st_maxpeers st) DHT_MAX_PEERS"
      if "st_maxpeers st < DHT_MAX_PEERS" using b that by auto
    have "stored (st_id st) ip port 0 s s" if "length (st_peers st) = DHT_MAX_PEERS"
      using that same st(2) by (simp add: stored_def)
    moreover have "stored (st_id st) ip port (- 1) s (s\<lparr>calloc_src := c\<rparr>)" for c by (simp add: stored_def)
    ultimately show ?thesis
      using assms(1,3) b put [OF grow] put [of "st_maxpeers st"] calloc unfolding eq
      by (auto split: if_splits)
  qed
  then show "storage_inv t" "stored (st_id (storages s ! k)) ip port r s t" by (simp_all add: st_def)
qed

lemma storage_store_ok:
  assumes "storage_inv s" "valid_id x" "storage_store x sa port s = (r, t)"
  shows "storage_inv t \<and> (case sa_ip sa of None \<Rightarrow> r = - 1 \<and> t = s | Some ip \<Rightarrow> stored x ip port r s t)"
proof (cases "sa_ip sa")
  case None
  then show ?thesis using assms by (simp add: storage_store_def)
next
  case (Some ip)
  have same: "stored x ip port (- 1) s (s\<lparr>calloc_src := c\<rparr>)" "stored x ip port (- 1) s s" for c
    by (simp_all add: stored_def)
  show ?thesis
  proof (cases "find_storage x s")
    case st: (Some k)
    then have k: "k < length (storages s)" "st_id (storages s ! k) = x"
      using find_storage_iff [OF assms(1,2)] by auto
    then show ?thesis
      using store_peer_ok [OF assms(1) k(1)] assms(3) Some st by (simp add: storage_store_def)
  next
    case None
    define u where "u = s\<lparr>calloc_src := later (calloc_src s),
      storages := \<lparr>st_id = x, st_maxpeers = 0, st_peers = []\<rparr> # storages s, numstorage := numstorage s + 1\<rparr>"
    have new: "x \<notin> st_id ` set (storages s)" using None find_storage_None [OF assms(1,2)] by simp
    have eq: "(r, t) = (if DHT_MAX_HASHES \<le> numstorage s then (- 1, s)
        else if calloc_src s 0 then store_peer 0 ip port u else (- 1, s\<lparr>calloc_src := later (calloc_src s)\<rparr>))"
      using assms(2,3) Some None by (auto simp: storage_store_def c_calloc_def u_def Let_def valid_id_def)
    show ?thesis
    proof (cases "\<not> DHT_MAX_HASHES \<le> numstorage s \<and> calloc_src s 0")
      case False
      then show ?thesis using eq same assms(1) Some by (auto split: if_splits)
    next
      case True
      then have sp: "store_peer 0 ip port u = (r, t)" using eq by simp
      have inv: "storage_inv u"
        using assms(1,2) new True by (auto simp: storage_inv_def u_def st_ok_def)
      have id0: "st_id (storages u ! 0) = x" by (simp add: u_def)
      have "find_storage y u = map_option Suc (find_storage y s)" if "valid_id y" "y \<noteq> x" for y
        using that assms(2) by (simp add: find_storage_def u_def id_cmp_eq)
      then have other: "peers_of y u = peers_of y s" if "valid_id y" "y \<noteq> x" for y
        using that by (simp add: peers_of_def u_def split: option.split)
      have "peers_of x u = []" using peers_of_at [OF inv, of 0] by (simp add: u_def)
      then have "stored x ip port r s t"
        using store_peer_ok(2) [OF inv _ sp] other peers_of_absent [OF assms(1,2) new]
        by (simp add: stored_def id0) (simp add: u_def)
      then show ?thesis using store_peer_ok(1) [OF inv _ sp] Some by (simp add: u_def)
    qed
  qed
qed

text \<open>When a store answers -1: the cases without memory or without room for the identifier.\<close>

definition room_of :: "mem \<Rightarrow> 'a dht_scheme \<Rightarrow> nat" where
  "room_of x s = (case find_storage x s of None \<Rightarrow> 0 | Some k \<Rightarrow> st_maxpeers (storages s ! k))"

definition refused :: "mem \<Rightarrow> mem \<Rightarrow> nat \<Rightarrow> 'a dht_scheme \<Rightarrow> bool" where
  "refused x ip port s \<longleftrightarrow>
     (if x \<in> st_id ` set (storages s) then
        (ip, port) \<notin> peer_key ` set (peers_of x s) \<and> length (peers_of x s) = room_of x s \<and>
        length (peers_of x s) < DHT_MAX_PEERS \<and> \<not> calloc_src s 0
      else DHT_MAX_HASHES \<le> numstorage s \<or> \<not> calloc_src s 0 \<or> \<not> calloc_src s 1)"

lemma store_peer_refused:
  assumes "st_ok (storages s ! k)"
  shows "fst (store_peer k ip port s) = - 1 \<longleftrightarrow>
    (ip, port) \<notin> peer_key ` set (st_peers (storages s ! k)) \<and>
    length (st_peers (storages s ! k)) = st_maxpeers (storages s ! k) \<and>
    length (st_peers (storages s ! k)) < DHT_MAX_PEERS \<and> \<not> calloc_src s 0"
proof (cases "find_index (same_peer port ip) (st_peers (storages s ! k))")
  case None
  then have "(ip, port) \<notin> peer_key ` set (st_peers (storages s ! k))" by (auto simp: find_index_None same_peer_key)
  then show ?thesis using None assms by (auto simp: store_peer_def Let_def c_calloc_def st_ok_def)
next
  case (Some i)
  then have "(ip, port) \<in> peer_key ` set (st_peers (storages s ! k))"
    using find_index_SomeD [OF Some] by (metis image_eqI nth_mem same_peer_key)
  then show ?thesis using Some by (simp add: store_peer_def Let_def)
qed

lemma storage_store_refused:
  assumes "storage_inv s" "valid_id x" "sa_ip sa = Some ip"
  shows "fst (storage_store x sa port s) = - 1 \<longleftrightarrow> refused x ip port s"
proof (cases "find_storage x s")
  case (Some k)
  then have k: "k < length (storages s)" "st_id (storages s ! k) = x" using find_storage_iff [OF assms(1,2)] by auto
  then have "st_ok (storages s ! k)" "x \<in> st_id ` set (storages s)" using assms(1) by (auto simp: storage_inv_def)
  then show ?thesis using store_peer_refused [of s k ip port] Some assms(3)
    by (simp add: storage_store_def refused_def room_of_def peers_of_def)
next
  case None
  define u where "u = s\<lparr>calloc_src := later (calloc_src s),
    storages := \<lparr>st_id = x, st_maxpeers = 0, st_peers = []\<rparr> # storages s, numstorage := numstorage s + 1\<rparr>"
  have "x \<notin> st_id ` set (storages s)" using None find_storage_None [OF assms(1,2)] by simp
  moreover have "fst (store_peer 0 ip port u) = - 1 \<longleftrightarrow> \<not> calloc_src s 1"
    using store_peer_refused [of u 0 ip port] assms(2) by (simp add: u_def st_ok_def DHT_MAX_PEERS_def later_def)
  ultimately show ?thesis using assms(2,3) None
    by (auto simp: storage_store_def refused_def c_calloc_def u_def Let_def valid_id_def)
qed

subsection \<open>Tokens\<close>

lemma token_hash:
  assumes "length (sec @ ip @ rev (sin_port sa)) < 2 ^ 31"
  shows "dht_hash TOKEN_SIZE sec ip (rev (sin_port sa)) = take 8 (sha1_std (sec @ ip @ rev (sin_port sa)))"
  using dht_hash_eq_std [OF assms] by (simp add: TOKEN_SIZE_def)

lemma sa_ip_length: "sa_ip sa = Some ip \<Longrightarrow> length ip \<le> 16"
  by (auto simp: sa_ip_def sin_addr_def sin6_addr_def split: if_splits)

lemma length_take_sha1: "length (take 8 (sha1_std m)) = 8"
  by (simp add: length_sha1_std)

definition token_of :: "mem \<Rightarrow> mem \<Rightarrow> mem \<Rightarrow> mem" where
  "token_of sec ip port = take 8 (sha1_std (sec @ ip @ rev port))"

lemma make_token_eq:
  assumes "length (secret s) = 8" "length (oldsecret s) = 8" "sa_ip sa = Some ip"
  shows "make_token sa old s = Some (token_of (if old then oldsecret s else secret s) ip (sin_port sa))"
proof -
  have "length ((if old then oldsecret s else secret s) @ ip @ rev (sin_port sa)) < 2 ^ 31"
    using assms sa_ip_length [OF assms(3)] by (simp add: sin_port_def)
  from token_hash [OF this] show ?thesis using assms(3) by (simp add: make_token_def token_of_def)
qed

lemma token_match_iff:
  assumes "length (secret s) = 8" "length (oldsecret s) = 8" "sa_ip sa = Some ip"
  shows "token_match token sa s = Some (token = token_of (secret s) ip (sin_port sa) \<or>
     token = token_of (oldsecret s) ip (sin_port sa))"
proof -
  have l: "length (token_of sec ip' port) = TOKEN_SIZE" for sec ip' port
    by (simp add: token_of_def length_sha1_std TOKEN_SIZE_def)
  have "memcmp (token_of sec ip' port) token TOKEN_SIZE = 0 \<longleftrightarrow> token = token_of sec ip' port"
    if "length token = TOKEN_SIZE" for sec ip' port
    using that l [of sec ip' port] bytes_cmp_eq_0 [of "token_of sec ip' port" token] by (auto simp: memcmp_def)
  then show ?thesis
    using make_token_eq [OF assms, of False] make_token_eq [OF assms, of True] l
    by (auto simp: token_match_def)
qed

lemma length_random_bytes: "random_bytes n s = (bs, t) \<Longrightarrow> length bs = n"
  by (induction n arbitrary: s bs t) (auto simp: Let_def split: prod.splits)

lemma random_bytes_src: "random_bytes n s = (bs, t) \<Longrightarrow> \<exists>ra. t = s\<lparr>rand_src := ra\<rparr>"
proof (induction n arbitrary: s bs t)
  case 0
  then show ?case by (auto intro: exI [of _ "rand_src s"])
next
  case (Suc n)
  then obtain rs where "random_bytes n (s\<lparr>rand_src := later (rand_src s)\<rparr>) = (rs, t)"
    by (auto simp: c_random_def Let_def split: prod.splits)
  from Suc.IH [OF this] show ?case by auto
qed

lemma rotate_secrets_secrets:
  "oldsecret (rotate_secrets s) = secret s" "length (secret (rotate_secrets s)) = 8"
proof -
  define u where "u = s\<lparr>rand_src := later (rand_src s),
    rotate_secrets_time := now s + 900 + int (rand_src s 0 mod 1800), oldsecret := secret s\<rparr>"
  obtain bs t where b: "random_bytes 8 u = (bs, t)" by fastforce
  have r: "rotate_secrets s = t\<lparr>secret := bs\<rparr>"
    using b by (simp add: rotate_secrets_def c_random_def dht_random_bytes_def u_def Let_def)
  show "length (secret (rotate_secrets s)) = 8" using length_random_bytes [OF b] by (simp add: r)
  show "oldsecret (rotate_secrets s) = secret s" using random_bytes_src [OF b] by (auto simp: r u_def)
qed

subsection \<open>Rate control\<close>

text \<open>The requests answered among those that arrive at the given times.\<close>

fun answered :: "int list \<Rightarrow> 'a dht_scheme \<Rightarrow> nat \<times> 'a dht_scheme" where
  "answered [] s = (0, s)"
| "answered (t # ts) s =
     (let (ok, s) = token_bucket (s\<lparr>now := t\<rparr>); (n, s) = answered ts s in (if ok then Suc n else n, s))"

lemma token_bucket_potential:
  assumes "0 \<le> token_bucket_tokens s" "token_bucket_time s \<le> now s" "token_bucket s = (ok, u)"
  shows "0 \<le> token_bucket_tokens u" "token_bucket_time u \<le> now u" "now u = now s"
    "token_bucket_tokens u + 100 * (now u - token_bucket_time u) + (if ok then 1 else 0) \<le>
       token_bucket_tokens s + 100 * (now s - token_bucket_time s)"
proof -
  have c: "c_int (min MAX_TOKEN_BUCKET_TOKENS (100 * (now s - token_bucket_time s))) =
      min MAX_TOKEN_BUCKET_TOKENS (100 * (now s - token_bucket_time s))"
    using assms(2) by (intro c_int_id) (auto simp: MAX_TOKEN_BUCKET_TOKENS_def)
  show "0 \<le> token_bucket_tokens u" "token_bucket_time u \<le> now u" "now u = now s"
    "token_bucket_tokens u + 100 * (now u - token_bucket_time u) + (if ok then 1 else 0) \<le>
       token_bucket_tokens s + 100 * (now s - token_bucket_time s)"
    using assms unfolding token_bucket_def c by (auto simp: Let_def MAX_TOKEN_BUCKET_TOKENS_def split: if_splits)
qed

lemma answered_bound:
  "0 \<le> token_bucket_tokens s \<Longrightarrow> sorted (token_bucket_time s # ts) \<Longrightarrow> \<forall>t \<in> set ts. t \<le> e \<Longrightarrow>
     token_bucket_time s \<le> e \<Longrightarrow>
     int (fst (answered ts s)) \<le> token_bucket_tokens s + 100 * (e - token_bucket_time s)"
proof (induction ts arbitrary: s)
  case (Cons t ts)
  obtain ok u where u: "token_bucket (s\<lparr>now := t\<rparr>) = (ok, u)" by fastforce
  note p = token_bucket_potential [OF _ _ u]
  have pre: "0 \<le> token_bucket_tokens (s\<lparr>now := t\<rparr>)" "token_bucket_time (s\<lparr>now := t\<rparr>) \<le> now (s\<lparr>now := t\<rparr>)"
    using Cons.prems by auto
  note p = p [OF pre]
  have "int (fst (answered ts u)) \<le> token_bucket_tokens u + 100 * (e - token_bucket_time u)"
    using p Cons.prems by (intro Cons.IH) (auto intro: order_trans)
  moreover have "fst (answered (t # ts) s) = (if ok then 1 else 0) + fst (answered ts u)"
    using u by (simp split: prod.split)
  ultimately show ?case using p(3,4) Cons.prems(3) by (simp split: if_splits)
qed auto

subsection \<open>Properties\<close>

lemma storage_inv_static: "storage_inv (static_dht ra ca so)"
  by (simp add: storage_inv_def static_dht_def DHT_MAX_HASHES_def)

text \<open>
  C19: \<^verbatim>\<open>storage_store\<close> implements a bounded map from identifiers to sets of peers. It keeps the
  invariant (no identifier twice, no peer twice, at most 16384 identifiers, at most 2048 peers
  each, array never longer than allocated); the peers of every other identifier are untouched;
  answer 1 means exactly one new peer at the end, answer 0 means the peer was refreshed in place
  or the full list is unchanged, answer -1 means nothing was stored. The answer is -1 exactly when a
  new identifier meets a full table or a failing allocation (of the entry or of its first array), or
  a new peer of a known identifier finds its array full, below the limit, and the array cannot grow.
\<close>

theorem storage_store_refines:
  assumes "storage_inv s" "valid_id x" "sa_ip sa = Some ip" "storage_store x sa port s = (r, t)"
  shows "storage_inv t \<and> stored x ip port r s t \<and> (r = - 1 \<longleftrightarrow> refused x ip port s)"
  using storage_store_ok [OF assms(1,2,4)] storage_store_refused [OF assms(1-3), of port] assms(3,4) by simp

lemma storage_store_refines_witness:
  "\<exists>t. storage_store zeroes (mk_sin [10, 0, 0, 1] [0, 7]) 4556
      (static_dht (\<lambda>_. 0) (\<lambda>_. True) (\<lambda>_. 0)) = (1, t) \<and>
    storage_inv t \<and> peers_of zeroes t = [\<lparr>p_time = 0, p_ip = [10, 0, 0, 1], p_port = 4556\<rparr>]"
proof -
  let ?s = "static_dht (\<lambda>_. 0) (\<lambda>_. True) (\<lambda>_. 0)"
  obtain r t where rt: "storage_store zeroes (mk_sin [10, 0, 0, 1] [0, 7]) 4556 ?s = (r, t)" by fastforce
  have "sa_ip (mk_sin [10, 0, 0, 1] [0, 7]) = Some [10, 0, 0, 1]" by (simp add: sa_ip_def)
  note st = storage_store_refines [OF storage_inv_static valid_zeroes this rt]
  have e: "storages ?s = []" "numstorage ?s = 0" "now ?s = 0" "calloc_src ?s = (\<lambda>_. True)"
    by (simp_all add: static_dht_def)
  then have "peers_of zeroes ?s = []" "\<not> refused zeroes [10, 0, 0, 1] 4556 ?s"
    by (simp_all add: peers_of_def find_storage_def refused_def DHT_MAX_HASHES_def)
  then have "r = 1 \<and> peers_of zeroes t = [\<lparr>p_time = 0, p_ip = [10, 0, 0, 1], p_port = 4556\<rparr>]"
    using st e by (auto simp: stored_def DHT_MAX_PEERS_def)
  then show ?thesis using rt st by blast
qed

text \<open>
  C26: \<^verbatim>\<open>expire_storage\<close>, which overwrites an expired peer with the last one and looks at that one
  next, and unlinks an entry whose last peer went, removes exactly the peers announced more than
  32 minutes ago: for every identifier the multiset of its peers afterwards is that of its
  peers that were fresh, and the invariant (with the count of entries) is kept.
\<close>

theorem expire_storage_exact:
  assumes "storage_inv s" "valid_id x"
  shows "storage_inv (expire_storage s) \<and>
    mset (peers_of x (expire_storage s)) = filter_mset (fresh_peer (now s)) (mset (peers_of x s))"
  using expire_storage_inv expire_storage_peers assms by blast

lemma expire_storage_exact_witness:
  "mset (peers_of zeroes (expire_storage ((static_dht (\<lambda>_. 0) (\<lambda>_. True) (\<lambda>_. 0))
     \<lparr>now := 2000, numstorage := 1, storages := [\<lparr>st_id = zeroes, st_maxpeers = 2,
        st_peers = [\<lparr>p_time = 10, p_ip = [1], p_port = 1\<rparr>, \<lparr>p_time = 100, p_ip = [2], p_port = 1\<rparr>]\<rparr>]\<rparr>)))
   = {#\<lparr>p_time = 100, p_ip = [2], p_port = 1\<rparr>#}" (is "mset (peers_of _ (expire_storage ?s)) = _")
proof -
  have "storage_inv ?s"
    by (simp add: storage_inv_def static_dht_def st_ok_def DHT_MAX_HASHES_def DHT_MAX_PEERS_def peer_key_def)
  from expire_storage_exact [OF this valid_zeroes] show ?thesis
    by (simp add: peers_of_def find_storage_def fresh_peer_def)
qed

text \<open>
  C23: which write tokens are accepted. For an address of one of the two families,
  \<^verbatim>\<open>token_match\<close> accepts exactly the 8-byte prefixes of the SHA-1 digest of the current or of
  the previous secret, the IP address and the port with its bytes swapped.
\<close>

theorem token_match_exact:
  assumes "length (secret s) = 8" "length (oldsecret s) = 8" "sa_ip sa = Some ip"
  shows "token_match token sa s = Some (\<exists>sec \<in> {secret s, oldsecret s}.
    token = take 8 (sha1_std (sec @ ip @ rev (sin_port sa))))"
  using token_match_iff [OF assms, of token] by (simp add: token_of_def)

lemma token_match_exact_witness:
  "token_match (take 8 (sha1_std (replicate 8 0 @ [10, 0, 0, 1] @ [7, 0])))
     (mk_sin [10, 0, 0, 1] [0, 7]) (static_dht (\<lambda>_. 0) (\<lambda>_. True) (\<lambda>_. 0)) = Some True"
  using token_match_exact [of "static_dht (\<lambda>_. 0) (\<lambda>_. True) (\<lambda>_. 0)" "mk_sin [10, 0, 0, 1] [0, 7]"
      "[10, 0, 0, 1]" "take 8 (sha1_std (replicate 8 0 @ [10, 0, 0, 1] @ [7, 0]))"]
  by (simp add: static_dht_def sa_ip_def) (simp add: sin_port_def mk_sin_def slice_def)

text \<open>
  C28: a token outlives one rotation of the secret. The token handed out in a reply is accepted
  from the same address both before and after the next \<^verbatim>\<open>rotate_secrets\<close>, whatever the random
  bytes are.
\<close>

theorem token_survives_rotation:
  assumes "length (secret s) = 8" "length (oldsecret s) = 8" "make_token sa False s = Some token"
  shows "token_match token sa s = Some True \<and> token_match token sa (rotate_secrets s) = Some True"
proof -
  from assms(3) obtain ip where ip: "sa_ip sa = Some ip" by (auto simp: make_token_def)
  have "token = token_of (secret s) ip (sin_port sa)" using make_token_eq [OF assms(1,2) ip, of False] assms(3) by simp
  then show ?thesis
    using token_match_iff [OF assms(1,2) ip] token_match_iff [of "rotate_secrets s" sa ip] ip assms(1)
    by (simp add: rotate_secrets_secrets)
qed

lemma token_survives_rotation_witness:
  "\<exists>token. make_token (mk_sin [10, 0, 0, 1] [0, 7]) False (static_dht (\<lambda>_. 5) (\<lambda>_. True) (\<lambda>_. 0)) = Some token \<and>
     token_match token (mk_sin [10, 0, 0, 1] [0, 7]) (rotate_secrets (static_dht (\<lambda>_. 5) (\<lambda>_. True) (\<lambda>_. 0))) = Some True"
proof -
  obtain token where t: "make_token (mk_sin [10, 0, 0, 1] [0, 7]) False
      (static_dht (\<lambda>_. 5) (\<lambda>_. True) (\<lambda>_. 0)) = Some token"
    by (simp add: make_token_def sa_ip_def)
  from token_survives_rotation [OF _ _ t] t show ?thesis by (auto simp: static_dht_def)
qed

text \<open>
  C27: the rate limit on requests. While the clock does not go back, of any number of requests
  arriving up to time \<open>e\<close> at most the tokens left plus 100 per second since the last refill are
  answered.
\<close>

theorem token_bucket_rate:
  assumes "0 \<le> token_bucket_tokens s" "sorted (token_bucket_time s # ts)" "\<forall>t \<in> set ts. t \<le> e"
    "token_bucket_time s \<le> e"
  shows "int (fst (answered ts s)) \<le> token_bucket_tokens s + 100 * (e - token_bucket_time s)"
  using assms by (rule answered_bound)

lemma token_bucket_rate_witness:
  "int (fst (answered (replicate 500 1) ((static_dht (\<lambda>_. 0) (\<lambda>_. True) (\<lambda>_. 0))\<lparr>token_bucket_tokens := 3\<rparr>))) \<le> 103"
  using token_bucket_rate [of "(static_dht (\<lambda>_. 0) (\<lambda>_. True) (\<lambda>_. 0))\<lparr>token_bucket_tokens := 3\<rparr>" "replicate 500 1" 1]
  by (simp add: static_dht_def)

end
