(* ===== verification/Dht_Inv.thy ===== *)
theory Dht_Inv
  imports Searches_Inv Storage
begin

text \<open>
  The invariant of the whole state of \<^verbatim>\<open>dht.c\<close>, and its preservation by the operations on
  searches and by the internal blacklist.
\<close>

subsection \<open>The invariant\<close>

definition dht_inv :: "'a dht_scheme \<Rightarrow> bool" where
  "dht_inv s \<longleftrightarrow> rt_inv s \<and> searches_inv s \<and> storage_inv s \<and>
     length (secret s) = 8 \<and> length (oldsecret s) = 8 \<and>
     length (blist s) = DHT_MAX_BLACKLISTED \<and> (\<forall>b \<in> set (blist s). length b = sizeof_ss) \<and>
     next_blacklisted s < DHT_MAX_BLACKLISTED"

text \<open>
  \<open>safe c\<close>: the invariant, with two more that the mode \<open>c\<close> asks for. Its first part says that
  \<^verbatim>\<open>calloc\<close> never fails; then the program has not aborted. Its second part is what a client that extends the
  record wants kept of its own variables, which the operations never touch and its call-back must respect. One
  lemma per operation shows all readings at once.
\<close>

datatype 'a mode = Mode (no_fail: bool) (ext_inv: "'a \<Rightarrow> bool")

abbreviation plain :: "bool \<Rightarrow> 'a mode" where
  "plain c \<equiv> Mode c (\<lambda>_. True)"

definition safe :: "'a mode \<Rightarrow> 'a dht_scheme \<Rightarrow> bool" where
  "safe c s \<longleftrightarrow> dht_inv s \<and> ext_inv c (dht.more s) \<and> (no_fail c \<longrightarrow> \<not> aborted s \<and> (\<forall>k. calloc_src s k))"

text \<open>What the searches look like apart from their clocks and flags.\<close>

definition skel :: "'a dht_scheme \<Rightarrow> (mem \<times> nat \<times> mem list) list" where
  "skel s = map (\<lambda>sr. (sr_id sr, sr_af sr, map sn_id (sr_nodes sr))) (searches s)"

lemma skel_length: "skel t = skel s \<Longrightarrow> length (searches t) = length (searches s)"
  by (drule arg_cong [of _ _ length]) (simp add: skel_def)

lemma skel_nodes:
  assumes "skel t = skel s" "k < length (searches s)"
  shows "length (sr_nodes (searches t ! k)) = length (sr_nodes (searches s ! k))"
proof -
  have "skel t ! k = skel s ! k" "k < length (searches t)" using assms skel_length [OF assms(1)] by auto
  then have "map sn_id (sr_nodes (searches t ! k)) = map sn_id (sr_nodes (searches s ! k))"
    using assms(2) by (simp add: skel_def)
  then show ?thesis by (rule map_eq_imp_length_eq)
qed

text \<open>The three facts every operation that keeps the searches apart from clocks is shown to have.\<close>

definition kept :: "'a mode \<Rightarrow> 'a dht_scheme \<Rightarrow> 'a dht_scheme \<Rightarrow> bool" where
  "kept c s t \<longleftrightarrow> safe c t \<and> skel t = skel s \<and> myid t = myid s \<and> now t = now s"

lemma keptD: "kept c s t \<Longrightarrow> safe c t" "kept c s t \<Longrightarrow> skel t = skel s" "kept c s t \<Longrightarrow> myid t = myid s"
  "kept c s t \<Longrightarrow> now t = now s"
  by (simp_all add: kept_def)

lemma kept_trans: "kept c s t \<Longrightarrow> kept c t u \<Longrightarrow> kept c s u"
  by (simp add: kept_def)

lemma kept_refl: "safe c s \<Longrightarrow> kept c s s"
  by (simp add: kept_def)

lemma safe_table_step:
  assumes "safe c s" "table_step s t" "rt_inv t" "no_fail c \<Longrightarrow> aborted t = aborted s"
    "(\<And>k. calloc_src s k) \<Longrightarrow> (\<And>k. calloc_src t k)"
  shows "kept c s t"
  using assms
  by (auto simp: kept_def safe_def dht_inv_def skel_def searches_inv_def storage_inv_def table_step_fields)

lemma safe_quiet:
  assumes "safe c s" "quiet s t" "aborted t = aborted s"
  shows "kept c s t"
  using assms quiet_rt_inv [OF assms(2)] quiet_table_step [OF assms(2)]
  by (intro safe_table_step) (auto simp: safe_def dht_inv_def quiet_fields)

lemma safe_rt: "safe c s \<Longrightarrow> rt_inv s"
  by (simp add: safe_def dht_inv_def)

lemma safe_new_node:
  assumes "safe c s" "good_sa sa salen" "valid_id x"
  shows "kept c s (snd (new_node x sa salen confirm s))"
proof -
  obtain r t where t: "new_node x sa salen confirm s = (r, t)" by fastforce
  note n = new_node_ok [OF safe_rt [OF assms(1)] assms(2,3) t]
  show ?thesis using safe_table_step [OF assms(1) n(2,1)] n(4,5) assms(1) by (auto simp: t safe_def)
qed

lemma safe_pinged:
  assumes "safe c s" "inet af" "i < length (table af s)" "j < length (b_nodes (table af s ! i))"
    "\<And>k. q = Some k \<Longrightarrow> k < length (table af s)"
  shows "kept c s (pinged af i j q s)"
  using pinged_ok [OF safe_rt [OF assms(1)] assms(2-5)] assms(1)
  by (intro safe_table_step) auto

lemma find_node_position:
  assumes "rt_inv s" "inet af" "valid_id x" "find_node x af s = Some (i, j)"
  shows "i < length (table af s)" "j < length (b_nodes (table af s ! i))"
    "n_id (b_nodes (table af s ! i) ! j) = x"
proof -
  have i: "find_bucket x af s = Some i"
    and j: "find_index (\<lambda>n. id_cmp (n_id n) x = 0) (b_nodes (table af s ! i)) = Some j"
    using assms(4) by (auto simp: find_node_def split: option.splits)
  show ib: "i < length (table af s)" using find_bucket_interval [OF assms(1-3) i] by simp
  show jb: "j < length (b_nodes (table af s ! i))" using find_index_Some_less [OF j] .
  then show "n_id (b_nodes (table af s ! i) ! j) = x"
    using find_index_SomeD [OF j] bucket_ok_valid [OF rt_bucket [OF assms(1,2) ib]] assms(3) nth_mem [OF jb]
    by (auto simp: id_cmp_eq)
qed

lemma safe_mark_pinged:
  assumes "safe c s" "inet af" "valid_id x"
  shows "kept c s (mark_pinged x af s)"
proof (cases "find_node x af s")
  case None
  then show ?thesis using assms(1) by (simp add: mark_pinged_def kept_refl)
next
  case (Some p)
  obtain i j where p: "p = (i, j)" by (cases p)
  note f = find_node_position [OF safe_rt [OF assms(1)] assms(2,3) Some [unfolded p]]
  show ?thesis using safe_pinged [OF assms(1,2) f(1,2), of None] Some by (simp add: mark_pinged_def p)
qed

subsection \<open>Updates of one search\<close>

lemma upd_search_fields [simp]:
  "rt_inv (upd_search k f s) = rt_inv s" "storage_inv (upd_search k f s) = storage_inv s"
  "myid (upd_search k f s) = myid s" "now (upd_search k f s) = now s"
  "table af (upd_search k f s) = table af s" "aborted (upd_search k f s) = aborted s"
  "calloc_src (upd_search k f s) = calloc_src s" "dht.more (upd_search k f s) = dht.more s"
  "searches (upd_search k f s) = update_at k f (searches s)"
  by (simp_all add: upd_search_def rt_inv_def storage_inv_def table_def)

lemma safe_upd_search:
  assumes "safe c s" "k < length (searches s) \<Longrightarrow> search_ok (searches s ! k) \<Longrightarrow> search_ok (f (searches s ! k))"
  shows "safe c (upd_search k f s)"
proof -
  have "\<forall>sr \<in> set (searches s). search_ok sr" using assms(1) by (simp add: safe_def dht_inv_def searches_inv_def)
  then have "\<forall>sr \<in> set (update_at k f (searches s)). search_ok sr"
    using assms(2) set_update_subset_insert [of "searches s" k "f (searches s ! k)"]
    by (auto simp: update_at_def)
  then show ?thesis
    using assms(1) by (simp add: safe_def dht_inv_def searches_inv_def) (simp add: upd_search_def)
qed

lemma skel_upd_search:
  assumes "\<And>sr. (sr_id (f sr), sr_af (f sr), map sn_id (sr_nodes (f sr))) = (sr_id sr, sr_af sr, map sn_id (sr_nodes sr))"
  shows "skel (upd_search k f s) = skel s"
  unfolding skel_def upd_search_fields by (rule map_update_at) (rule assms)

lemma kept_upd_search:
  assumes "safe c s" "\<And>sr. search_ok sr \<Longrightarrow> search_ok (f sr)"
    "\<And>sr. (sr_id (f sr), sr_af (f sr), map sn_id (sr_nodes (f sr))) = (sr_id sr, sr_af sr, map sn_id (sr_nodes sr))"
  shows "kept c s (upd_search k f s)"
  using assms skel_upd_search [of f k s] by (simp add: kept_def safe_upd_search)

lemma kept_upd_search_node:
  assumes "safe c s" "\<And>n. sn_id (f n) = sn_id n" "\<And>af n. sn_ok af n \<Longrightarrow> sn_ok af (f n)"
  shows "kept c s (upd_search_node k i f s)"
  unfolding upd_search_node_def using assms(1)
proof (rule kept_upd_search)
  fix sr
  show "search_ok sr \<Longrightarrow> search_ok (sr\<lparr>sr_nodes := update_at i f (sr_nodes sr)\<rparr>)"
    using nodes_ok_update [OF _ assms(2,3)] by (simp add: search_ok_def)
  have "map sn_id (update_at i f (sr_nodes sr)) = map sn_id (sr_nodes sr)"
    by (rule map_update_at) (rule assms(2))
  then show "(sr_id (sr\<lparr>sr_nodes := update_at i f (sr_nodes sr)\<rparr>), sr_af (sr\<lparr>sr_nodes := update_at i f (sr_nodes sr)\<rparr>),
      map sn_id (sr_nodes (sr\<lparr>sr_nodes := update_at i f (sr_nodes sr)\<rparr>))) =
      (sr_id sr, sr_af sr, map sn_id (sr_nodes sr))" by simp
qed

lemma kept_stamp: "safe c s \<Longrightarrow> kept c s (stamp_search k s)"
  unfolding stamp_search_def by (rule kept_upd_search) (simp_all add: search_ok_def)

lemma search_node_at:
  assumes "safe c s" "k < length (searches s)" "i < length (sr_nodes (searches s ! k))"
  shows "sn_ok (sr_af (searches s ! k)) (sr_nodes (searches s ! k) ! i)" "inet (sr_af (searches s ! k))"
proof -
  have "search_ok (searches s ! k)" using assms(1,2) by (simp add: safe_def dht_inv_def searches_inv_def)
  then show "sn_ok (sr_af (searches s ! k)) (sr_nodes (searches s ! k) ! i)" "inet (sr_af (searches s ! k))"
    using assms(3) by (auto simp: search_ok_def nodes_ok_def)
qed

subsection \<open>Requests of a search\<close>

lemma last_askable_less: "last_askable t i ns r = Some k \<Longrightarrow> (r = Some k \<or> i \<le> k \<and> k < i + length ns)"
  by (induction t i ns r rule: last_askable.induct) (auto split: if_splits)

text \<open>One request to node \<open>i\<close>: the message, the clocks of the candidate, the mark in the table.\<close>

lemma kept_request:
  assumes "safe c s" "k < length (searches s)" "i < length (sr_nodes (searches s ! k))"
    "quiet s u" "aborted u = aborted s"
  defines "n \<equiv> sr_nodes (searches s ! k) ! i"
  shows "kept c s (mark_pinged (sn_id n) (sa_family (sn_ss n))
    (upd_search_node k i (\<lambda>n. n\<lparr>sn_pinged := sn_pinged n + 1, sn_request_time := now u\<rparr>) u))"
proof -
  let ?v = "upd_search_node k i (\<lambda>n. n\<lparr>sn_pinged := sn_pinged n + 1, sn_request_time := now u\<rparr>) u"
  note n = search_node_at [OF assms(1-3), folded n_def]
  have u: "kept c s u" using safe_quiet [OF assms(1,4,5)] .
  have v: "kept c u ?v" using keptD(1) [OF u] by (rule kept_upd_search_node) (simp_all add: sn_ok_def)
  have "kept c ?v (mark_pinged (sn_id n) (sa_family (sn_ss n)) ?v)"
    using safe_mark_pinged [OF keptD(1) [OF v]] n by (simp add: sn_ok_def)
  then show ?thesis using u v kept_trans by blast
qed

lemma kept_search_send_get_peers:
  assumes "safe c s" "k < length (searches s)" "\<And>i. n = Some i \<Longrightarrow> i < length (sr_nodes (searches s ! k))"
  shows "kept c s (snd (search_send_get_peers k n s))"
proof -
  define m where "m = (case n of None \<Rightarrow> last_askable (now s) 0 (sr_nodes (searches s ! k)) None | Some i \<Rightarrow> Some i)"
  show ?thesis
  proof (cases m)
    case None
    then show ?thesis using assms(1) by (simp add: search_send_get_peers_def m_def [symmetric] kept_refl)
  next
    case (Some i)
    then have i: "i < length (sr_nodes (searches s ! k))"
      using assms(3) last_askable_less [of "now s" 0 "sr_nodes (searches s ! k)" None i]
      by (auto simp: m_def split: option.splits)
    define nd where "nd = sr_nodes (searches s ! k) ! i"
    define u where "u = snd (send_get_peers (sn_ss nd) (sn_sslen nd) (make_tid (ascii ''gp'') (sr_tid (searches s ! k)))
        (sr_id (searches s ! k)) (- 1) (sn_reply_time nd \<ge> now s - 15) s)"
    have "good_sa (sn_ss nd) (sn_sslen nd)" using search_node_at [OF assms(1,2) i] by (simp add: nd_def sn_ok_def)
    from aborted_sends(4) [OF good_sa_len [OF this]] have "aborted u = aborted s" by (simp add: u_def)
    then have "kept c s (mark_pinged (sn_id nd) (sa_family (sn_ss nd))
        (upd_search_node k i (\<lambda>n. n\<lparr>sn_pinged := sn_pinged n + 1, sn_request_time := now u\<rparr>) u))"
      unfolding nd_def by (intro kept_request [OF assms(1,2) i]) (simp_all add: u_def)
    moreover have "snd (search_send_get_peers k n s) = (if sn_pinged nd \<ge> 3 \<or> sn_replied nd \<or> sn_request_time nd \<ge> now s - 15 then s
        else mark_pinged (sn_id nd) (sa_family (sn_ss nd))
        (upd_search_node k i (\<lambda>n. n\<lparr>sn_pinged := sn_pinged n + 1, sn_request_time := now u\<rparr>) u))"
      using Some unfolding search_send_get_peers_def Let_def by (simp add: m_def [symmetric] nd_def [symmetric] u_def case_prod_unfold Let_def)
    ultimately show ?thesis using assms(1) by (simp add: kept_refl)
  qed
qed

lemma kept_send_announce:
  assumes "safe c s" "k < length (searches s)" "i < length (sr_nodes (searches s ! k))"
  shows "kept c s (send_announce k i s)"
proof -
  define nd where "nd = sr_nodes (searches s ! k) ! i"
  define u where "u = snd (send_announce_peer (sn_ss nd) sizeof_ss (make_tid (ascii ''ap'') (sr_tid (searches s ! k)))
        (sr_id (searches s ! k)) (sr_port (searches s ! k)) (sn_token nd) (sn_reply_time nd \<ge> now s - 15) s)"
  have "aborted u = aborted s" by (simp add: u_def sizeof_ss_def)
  then have "kept c s (mark_pinged (sn_id nd) (sa_family (sn_ss nd))
        (upd_search_node k i (\<lambda>n. n\<lparr>sn_pinged := sn_pinged n + 1, sn_request_time := now u\<rparr>) u))"
    unfolding nd_def by (intro kept_request [OF assms]) (simp_all add: u_def)
  moreover have "send_announce k i s = mark_pinged (sn_id nd) (sa_family (sn_ss nd))
        (upd_search_node k i (\<lambda>n. n\<lparr>sn_pinged := sn_pinged n + 1, sn_request_time := now u\<rparr>) u)"
    by (simp add: send_announce_def nd_def [symmetric] u_def case_prod_unfold Let_def)
  ultimately show ?thesis by simp
qed

lemma kept_announce_loop:
  "safe c s \<Longrightarrow> k < length (searches s) \<Longrightarrow> \<forall>i \<in> set is. i < length (sr_nodes (searches s ! k)) \<Longrightarrow>
     kept c s (snd (announce_loop k is j a s))"
proof (induction k "is" j a s rule: announce_loop.induct)
  case (1 k j a s)
  then show ?case by (simp add: kept_refl)
next
  case (2 k i "is" j a s)
  define n where "n = sr_nodes (searches s ! k) ! i"
  define acked where "acked = (sn_token n = [] \<or> sn_acked n)"
  define u where "u = upd_search_node k i (\<lambda>n. n\<lparr>sn_acked := acked\<rparr>) s"
  define v where "v = send_announce k i u"
  have u: "kept c s u" unfolding u_def using "2.prems"(1) by (rule kept_upd_search_node) (simp_all add: sn_ok_def)
  note lu = skel_length [OF keptD(2) [OF u]] skel_nodes [OF keptD(2) [OF u] "2.prems"(2)]
  have v: "kept c u v" unfolding v_def using keptD(1) [OF u] "2.prems" lu by (intro kept_send_announce) auto
  have lv: "length (searches v) = length (searches s)" "length (sr_nodes (searches v ! k)) = length (sr_nodes (searches s ! k))"
    using skel_length [OF keptD(2) [OF v]] skel_nodes [OF keptD(2) [OF v], of k] lu "2.prems"(2) by simp_all
  have eq: "announce_loop k (i # is) j a s = (if 8 \<le> j then (a, s)
      else if sn_pinged n \<ge> 3 then announce_loop k is j a s
      else if acked then announce_loop k is (Suc j) a u
      else announce_loop k is (Suc j) False v)"
    by (simp add: n_def acked_def u_def v_def Let_def)
  consider "8 \<le> j" | "\<not> 8 \<le> j" "sn_pinged n \<ge> 3" | "\<not> 8 \<le> j" "\<not> sn_pinged n \<ge> 3" "acked"
    | "\<not> 8 \<le> j" "\<not> sn_pinged n \<ge> 3" "\<not> acked" by blast
  then show ?case
  proof cases
    case 1
    then show ?thesis using "2.prems"(1) unfolding eq by (simp add: kept_refl)
  next
    case p: 2
    have "kept c s (snd (announce_loop k is j a s))"
      using "2.IH"(1) [OF p(1) refl] p(2) "2.prems" by (simp add: n_def)
    then show ?thesis using p unfolding eq by simp
  next
    case p: 3
    have "kept c u (snd (announce_loop k is (Suc j) a u))"
      using "2.prems" lu
      by (intro "2.IH"(2) [OF p(1) refl _ refl refl, folded n_def, folded acked_def, folded u_def,
            OF p(2,3) keptD(1) [OF u]]) auto
    from kept_trans [OF u this] show ?thesis using p unfolding eq by simp
  next
    case p: 4
    have "kept c v (snd (announce_loop k is (Suc j) False v))"
      using "2.prems" lv
      by (intro "2.IH"(3) [OF p(1) refl _ refl refl, folded n_def, folded acked_def, folded u_def, folded v_def,
            OF p(2,3) keptD(1) [OF v]]) auto
    from kept_trans [OF u kept_trans [OF v this]] show ?thesis using p unfolding eq by simp
  qed
qed

lemma kept_get_peers_loop:
  "safe c s \<Longrightarrow> k < length (searches s) \<Longrightarrow> \<forall>i \<in> set is. i < length (sr_nodes (searches s ! k)) \<Longrightarrow>
     kept c s (get_peers_loop k is j s)"
proof (induction "is" arbitrary: j s)
  case Nil
  then show ?case by (simp add: kept_refl)
next
  case (Cons i "is")
  obtain r u where u: "search_send_get_peers k (Some i) s = (r, u)" by fastforce
  have ku: "kept c s u" using kept_search_send_get_peers [OF Cons.prems(1,2), of "Some i"] Cons.prems(3) u by simp
  have "kept c u (get_peers_loop k is (j + r) u)"
    using Cons.prems skel_length [OF keptD(2) [OF ku]] skel_nodes [OF keptD(2) [OF ku] Cons.prems(2)]
    by (intro Cons.IH keptD(1) [OF ku]) auto
  then show ?case using u ku kept_trans by auto
qed

subsection \<open>Steps and new searches\<close>

text \<open>What the call-back may do to the state of \<^verbatim>\<open>dht.c\<close>: nothing that matters to it.\<close>

text \<open>
  What a call-back must do: keep what is kept. Values come with the address they were received from.
\<close>

definition cb_ok :: "'a mode \<Rightarrow> 'a callback option \<Rightarrow> bool" where
  "cb_ok c cb \<longleftrightarrow> (case cb of None \<Rightarrow> True
     | Some f \<Rightarrow> \<forall>ev x d sa n s. safe c s \<longrightarrow> (ev = DHT_EVENT_VALUES \<or> ev = DHT_EVENT_VALUES6 \<longrightarrow> good_sa sa n) \<longrightarrow>
         kept c s (f ev x d sa n s))"

lemma kept_search_is_done:
  assumes "safe c s" "cb_ok c cb"
  shows "kept c s (search_is_done k cb s)"
proof -
  let ?u = "upd_search k (\<lambda>sr. sr\<lparr>sr_done := True\<rparr>) s"
  have u: "kept c s ?u" using assms(1) by (rule kept_upd_search) (simp_all add: search_ok_def)
  define v where "v = (case cb of None \<Rightarrow> ?u
    | Some f \<Rightarrow> f (if sr_af (searches ?u ! k) = AF_INET then DHT_EVENT_SEARCH_DONE else DHT_EVENT_SEARCH_DONE6)
        (sr_id (searches ?u ! k)) [] [] 0 ?u)"
  have eq: "search_is_done k cb s = stamp_search k v" by (simp only: search_is_done_def Let_def v_def)
  have v: "kept c ?u v"
    using assms(2) keptD(1) [OF u] kept_refl [OF keptD(1) [OF u]] by (cases cb) (simp_all add: v_def cb_ok_def)
  show ?thesis unfolding eq using kept_trans [OF u kept_trans [OF v kept_stamp [OF keptD(1) [OF v]]]] .
qed

lemma kept_search_step:
  assumes "safe c s" "cb_ok c cb" "k < length (searches s)"
  shows "kept c s (search_step k cb s)"
proof -
  let ?is = "[0..<length (sr_nodes (searches s ! k))]"
  obtain a u where u: "announce_loop k ?is 0 True s = (a, u)" by fastforce
  have ku: "kept c s u" using kept_announce_loop [OF assms(1,3), of ?is 0 True] u by simp
  have kg: "kept c s (get_peers_loop k ?is 0 s)" by (rule kept_get_peers_loop [OF assms(1,3)]) simp
  have d: "kept c s (search_is_done k cb s)" "kept c u (search_is_done k cb u)"
    using kept_search_is_done [OF assms(1,2)] kept_search_is_done [OF keptD(1) [OF ku] assms(2)] by auto
  show ?thesis
    using u d kept_refl [OF assms(1)] kept_trans [OF ku d(2)] kept_trans [OF ku kept_stamp [OF keptD(1) [OF ku]]]
      kept_trans [OF kg kept_stamp [OF keptD(1) [OF kg]]]
    by (simp add: search_step_def Let_def)
qed

lemma oldest_done_less:
  "oldest_done i srs r = Some (k, t) \<Longrightarrow> r = Some (k, t) \<or> i \<le> k \<and> k < i + length srs"
proof (induction i srs r rule: oldest_done.induct)
  case (2 i sr srs r)
  show ?case using "2.IH" "2.prems" by (fastforce split: if_splits)
qed simp

lemma safe_frame:
  assumes "safe c s" "rt_inv t = rt_inv s" "searches t = searches s" "numsearches t = numsearches s"
    "storages t = storages s" "numstorage t = numstorage s" "length (secret t) = length (secret s)"
    "length (oldsecret t) = length (oldsecret s)" "blist t = blist s" "next_blacklisted t = next_blacklisted s"
    "aborted t = aborted s" "(\<And>k. calloc_src s k) \<Longrightarrow> (\<And>k. calloc_src t k)" "dht.more t = dht.more s"
  shows "safe c t"
  using assms by (auto simp: safe_def dht_inv_def searches_inv_def storage_inv_def)

lemma search_ok_setup:
  "inet af \<Longrightarrow> valid_id x \<Longrightarrow> search_ok sr \<Longrightarrow>
     search_ok (sr\<lparr>sr_af := af, sr_tid := t, sr_step_time := 0, sr_id := take 20 x, sr_done := False, sr_nodes := []\<rparr>)"
  by (simp add: search_ok_def valid_id_def)

text \<open>\<^verbatim>\<open>new_search\<close> hands out a slot; \<^verbatim>\<open>dht_search\<close> fills it in before anybody looks at it.\<close>

lemma safe_new_search:
  assumes "safe c s" "new_search s = (Some k, t)"
    "\<And>sr. sr_port sr < 65536 \<Longrightarrow> search_ok (f sr)"
  shows "safe c (upd_search k f t) \<and> k < length (searches t) \<and> myid t = myid s \<and> now t = now s \<and> (\<forall>af. table af t = table af s)"
proof -
  have si: "searches_inv s" "rt_inv s" using assms(1) by (simp_all add: safe_def dht_inv_def)
  have ports: "sr_port sr < 65536" if "sr \<in> set (searches s)" for sr
    using si(1) that by (auto simp: searches_inv_def search_ok_def)
  define old where "old = oldest_done 0 (searches s) None"
  have old: "k < length (searches s)" if "map_option fst old = Some k"
    using that oldest_done_less [of 0 "searches s" None k] by (auto simp: old_def)
  let ?u = "s\<lparr>calloc_src := later (calloc_src s)\<rparr>"
  have u: "safe c ?u" by (rule safe_frame [OF assms(1)]) (auto simp: rt_inv_def later_def)
  let ?w = "?u\<lparr>searches := calloc_search # searches s, numsearches := numsearches s + 1\<rparr>"
  consider "t = s" "map_option fst old = Some k" | "t = ?u" "map_option fst old = Some k"
    | "t = ?w" "k = 0" "numsearches s < DHT_MAX_SEARCHES"
  proof -
    define late where "late = (case old of None \<Rightarrow> False | Some (_, t) \<Rightarrow> t < now s - DHT_SEARCH_EXPIRE_TIME)"
    have e: "(Some k, t) = (if late then (map_option fst old, s)
        else if numsearches s < DHT_MAX_SEARCHES
          then if calloc_src s 0 then (Some 0, ?w) else (map_option fst old, ?u)
        else (map_option fst old, s))"
      unfolding assms(2) [symmetric] new_search_def old_def [symmetric] late_def
      by (simp add: Let_def c_calloc_def)
    consider "(Some k, t) = (map_option fst old, s)" | "(Some k, t) = (map_option fst old, ?u)"
      | "(Some k, t) = (Some 0, ?w)" "numsearches s < DHT_MAX_SEARCHES"
    proof (cases late)
      case True
      then show thesis using e by (intro that(1)) (simp only: if_True)
    next
      case l: False
      show thesis
      proof (cases "numsearches s < DHT_MAX_SEARCHES")
        case False
        then show thesis using e l by (intro that(1)) (simp only: if_False)
      next
        case n: True
        then show thesis using e l n that(2,3) by (cases "calloc_src s 0") (simp_all only: if_True if_False)
      qed
    qed
    then show thesis
    proof cases
      case 1
      then show thesis by (intro that(1)) simp_all
    next
      case 2
      then show thesis by (intro that(2)) simp_all
    next
      case 3
      then show thesis by (intro that(3)) simp_all
    qed
  qed
  then show ?thesis
  proof cases
    case 1
    then show ?thesis using safe_upd_search [OF assms(1), of k f] assms(3) ports old by simp
  next
    case 2
    then show ?thesis using safe_upd_search [OF u, of k f] assms(3) ports old by simp
  next
    case 3
    have "search_ok (f calloc_search)" by (rule assms(3)) (simp add: calloc_search_def)
    then have "searches_inv (upd_search 0 f ?w)"
      using si(1) 3(3) by (simp add: searches_inv_def upd_search_def update_at_def)
    then have "safe c (upd_search 0 f ?w)"
      using u by (simp add: safe_def dht_inv_def) (simp add: rt_inv_def storage_inv_def upd_search_def)
    then show ?thesis using 3 by (simp add: table_def)
  qed
qed

definition calm :: "'a mode \<Rightarrow> 'a dht_scheme \<Rightarrow> 'a dht_scheme \<Rightarrow> bool" where
  "calm c s t \<longleftrightarrow> safe c t \<and> myid t = myid s \<and> now t = now s"

lemma calmD: "calm c s t \<Longrightarrow> safe c t" "calm c s t \<Longrightarrow> myid t = myid s" "calm c s t \<Longrightarrow> now t = now s"
  by (simp_all add: calm_def)

lemma calm_trans: "calm c s t \<Longrightarrow> calm c t u \<Longrightarrow> calm c s u"
  by (simp add: calm_def)

lemma calm_refl: "safe c s \<Longrightarrow> calm c s s"
  by (simp add: calm_def)

lemma kept_calm: "kept c s t \<Longrightarrow> calm c s t"
  by (simp add: kept_def calm_def)

lemma calm_errno: "calm c s u \<Longrightarrow> calm c s (set_errno e u)"
  using calm_trans [OF _ kept_calm [OF safe_quiet [OF calmD(1) quiet_set_errno aborted_set_errno]]] by blast

text \<open>The end of \<^verbatim>\<open>dht_search\<close>: the search is filled from the buckets and makes its first step.\<close>

lemma calm_search_start:
  assumes "calm c s u" "cb_ok c cb" "inet af" "k < length (searches u)" "i < length (table af u)"
  shows "calm c s ((search_step k cb (upd_search k (\<lambda>sr. insert_buckets (myid u) af i u (sr\<lparr>sr_port := port mod 65536\<rparr>)) u))
    \<lparr>search_time := now (search_step k cb (upd_search k (\<lambda>sr. insert_buckets (myid u) af i u (sr\<lparr>sr_port := port mod 65536\<rparr>)) u))\<rparr>)"
proof -
  let ?f = "\<lambda>sr. insert_buckets (myid u) af i u (sr\<lparr>sr_port := port mod 65536\<rparr>)"
  note u = calmD(1) [OF assms(1)]
  have "valid_id (myid u)" using safe_rt [OF u] by (simp add: rt_inv_def)
  then have "search_ok (?f sr)" if "search_ok sr" for sr
    using that by (intro insert_buckets_ok [OF safe_rt [OF u] assms(3,5)]) (simp_all add: search_ok_def)
  then have sv: "safe c (upd_search k ?f u)" using u by (intro safe_upd_search) auto
  have k: "kept c (upd_search k ?f u) (search_step k cb (upd_search k ?f u))"
    using sv assms(2,4) by (intro kept_search_step) simp_all
  have "safe c ((search_step k cb (upd_search k ?f u))\<lparr>search_time := t\<rparr>)" for t
    by (rule safe_frame [OF keptD(1) [OF k]]) (auto simp: rt_inv_def)
  then show ?thesis using keptD(3,4) [OF k] calmD(2,3) [OF assms(1)] by (simp add: calm_def)
qed

lemma calm_new_search_None:
  assumes "safe c s" "new_search s = (None, t)"
  shows "calm c s t"
proof -
  have "t = s \<or> t = s\<lparr>calloc_src := later (calloc_src s)\<rparr>"
    using assms(2) by (auto simp: new_search_def Let_def c_calloc_def split: if_splits)
  moreover have "safe c (s\<lparr>calloc_src := later (calloc_src s)\<rparr>)"
    by (rule safe_frame [OF assms(1)]) (auto simp: rt_inv_def later_def)
  ultimately show ?thesis using assms(1) by (auto simp: calm_def)
qed

text \<open>A new search with its identifier, before its candidates are looked for.\<close>

lemma calm_new_search_Some:
  assumes "safe c s" "new_search s = (Some k, t)" "valid_id x" "inet af"
  defines "u \<equiv> upd_search k (\<lambda>sr. sr\<lparr>sr_af := af, sr_tid := search_id t, sr_step_time := 0, sr_id := take 20 x,
      sr_done := False, sr_nodes := []\<rparr>) (t\<lparr>search_id := search_id t + 1\<rparr>)"
  shows "calm c s u" "k < length (searches u)" "table af' u = table af' s"
proof -
  let ?f = "\<lambda>sr. sr\<lparr>sr_af := af, sr_tid := search_id t, sr_step_time := 0, sr_id := take 20 x, sr_done := False, sr_nodes := []\<rparr>"
  have n: "safe c (upd_search k ?f t)" "k < length (searches t)" "myid t = myid s" "now t = now s"
    "\<And>af. table af t = table af s"
    using safe_new_search [OF assms(1,2), of ?f] assms(3,4) by (simp_all add: search_ok_def valid_id_def)
  have u: "u = (upd_search k ?f t)\<lparr>search_id := search_id t + 1\<rparr>" by (simp add: u_def upd_search_def)
  have "safe c u" unfolding u by (rule safe_frame [OF n(1)]) (auto simp: rt_inv_def)
  then show "calm c s u" using n(3,4) by (simp add: calm_def u)
  show "k < length (searches u)" using n(2) by (simp add: u)
  have "table af' (v\<lparr>search_id := i\<rparr>) = table af' v" for i and v :: "'a dht_scheme" by (simp add: table_def)
  then show "table af' u = table af' s" using n(5) by (simp add: u)
qed

lemma calm_dht_search:
  assumes "safe c s" "cb_ok c cb" "valid_id x" "inet af"
  shows "calm c s (snd (dht_search x port af cb s))"
proof (cases "find_bucket x af s")
  case None
  then show ?thesis using calm_errno [OF calm_refl [OF assms(1)]] by (simp add: dht_search_def)
next
  case (Some i)
  have i: "i < length (table af s)" using find_bucket_interval [OF safe_rt [OF assms(1)] assms(4,3) Some] by simp
  show ?thesis
  proof (cases "find_index (\<lambda>sr. sr_af sr = af \<and> id_cmp (sr_id sr) x = 0) (searches s)")
    case k: (Some k)
    let ?u = "upd_search k (\<lambda>sr. sr\<lparr>sr_done := False, sr_nodes := reuse_nodes (now s) 0 (sr_nodes sr)\<rparr>) s"
    have "safe c ?u" using assms(1) by (rule safe_upd_search) (simp add: search_ok_def nodes_ok_reuse)
    then have "calm c s ?u" by (simp add: calm_def)
    from calm_search_start [OF this assms(2,4), of k i port] show ?thesis
      using i find_index_Some_less [OF k] Some k by (simp add: dht_search_def Let_def)
  next
    case none: None
    obtain r t where t: "new_search s = (r, t)" by fastforce
    show ?thesis
    proof (cases r)
      case None
      then show ?thesis using calm_errno [OF calm_new_search_None [OF assms(1)]] Some none t
        by (simp add: dht_search_def)
    next
      case k: (Some k)
      note n = calm_new_search_Some [OF assms(1) t [unfolded k] assms(3,4)]
      from calm_search_start [OF n(1) assms(2,4) n(2), of i port] show ?thesis
        using i Some none t k n(3) [of af] by (simp add: dht_search_def Let_def)
    qed
  qed
qed

lemmas safe_dht_search = calmD [OF calm_dht_search]

subsection \<open>The other operations\<close>

lemma safe_expire_searches: "safe c s \<Longrightarrow> safe c (expire_searches s)"
proof -
  assume s: "safe c s"
  define keep where "keep = filter (\<lambda>sr. \<not> sr_step_time sr < now s - DHT_SEARCH_EXPIRE_TIME) (searches s)"
  have l: "length keep \<le> length (searches s)" "set keep \<subseteq> set (searches s)" by (auto simp: keep_def)
  have eq: "expire_searches s = s\<lparr>searches := keep, numsearches := numsearches s - int (length (searches s) - length keep)\<rparr>"
    by (simp add: expire_searches_def keep_def Let_def)
  have "searches_inv (expire_searches s)"
    using s l unfolding eq by (auto simp: safe_def dht_inv_def searches_inv_def of_nat_diff)
  then show ?thesis
    using s unfolding eq by (simp add: safe_def dht_inv_def) (simp add: rt_inv_def storage_inv_def)
qed

lemma safe_rotate_secrets: "safe c s \<Longrightarrow> safe c (rotate_secrets s)"
proof -
  assume s: "safe c s"
  define u where "u = s\<lparr>rand_src := later (rand_src s),
    rotate_secrets_time := now s + 900 + int (rand_src s 0 mod 1800), oldsecret := secret s\<rparr>"
  obtain bs t where b: "random_bytes 8 u = (bs, t)" by fastforce
  obtain ra where "t = u\<lparr>rand_src := ra\<rparr>" using random_bytes_src [OF b] by blast
  then have r: "rotate_secrets s = u\<lparr>rand_src := ra, secret := bs\<rparr>"
    using b by (simp add: rotate_secrets_def c_random_def dht_random_bytes_def u_def Let_def)
  show ?thesis using s length_random_bytes [OF b] unfolding r
    by (intro safe_frame [OF s]) (auto simp: u_def rt_inv_def safe_def dht_inv_def)
qed

lemma rotate_secrets_frame [simp]: "myid (rotate_secrets s) = myid s" "now (rotate_secrets s) = now s"
proof -
  define u where "u = s\<lparr>rand_src := later (rand_src s),
    rotate_secrets_time := now s + 900 + int (rand_src s 0 mod 1800), oldsecret := secret s\<rparr>"
  obtain bs t where b: "random_bytes 8 u = (bs, t)" by fastforce
  obtain ra where "t = u\<lparr>rand_src := ra\<rparr>" using random_bytes_src [OF b] by blast
  then have "rotate_secrets s = u\<lparr>rand_src := ra, secret := bs\<rparr>"
    using b by (simp add: rotate_secrets_def c_random_def dht_random_bytes_def u_def Let_def)
  then show "myid (rotate_secrets s) = myid s" "now (rotate_secrets s) = now s" by (simp_all add: u_def)
qed

text \<open>Storing and expiring peers touches the storage and the allocator only.\<close>

definition storage_step :: "'a dht_scheme \<Rightarrow> 'a dht_scheme \<Rightarrow> bool" where
  "storage_step s t \<longleftrightarrow> (\<exists>st n ca. t = s\<lparr>storages := st, numstorage := n, calloc_src := ca\<rparr> \<and>
     ((\<forall>k. calloc_src s k) \<longrightarrow> (\<forall>k. ca k)))"

lemma storage_stepI:
  "t = s\<lparr>storages := st, numstorage := n, calloc_src := ca\<rparr> \<Longrightarrow> ((\<forall>k. calloc_src s k) \<longrightarrow> (\<forall>k. ca k)) \<Longrightarrow> storage_step s t"
  unfolding storage_step_def by blast

lemma safe_storage_step:
  assumes "safe c s" "storage_step s t" "storage_inv t"
  shows "kept c s t"
  using assms
  by (auto simp: storage_step_def safe_def kept_def dht_inv_def searches_inv_def skel_def rt_inv_def)

lemma store_peer_step: "storage_step s (snd (store_peer k ip port s))"
proof -
  define st where "st = storages s ! k"
  have a: "storage_step s (s\<lparr>calloc_src := later (calloc_src s), storages := x\<rparr>)" for x
    by (rule storage_stepI [where st = x and n = "numstorage s" and ca = "later (calloc_src s)"]) (simp_all add: later_def)
  have a0: "storage_step s (s\<lparr>calloc_src := later (calloc_src s)\<rparr>)"
    by (rule storage_stepI [where st = "storages s" and n = "numstorage s" and ca = "later (calloc_src s)"]) (simp_all add: later_def)
  have b: "storage_step s (s\<lparr>storages := x\<rparr>)" for x
    by (rule storage_stepI [where st = x and n = "numstorage s" and ca = "calloc_src s"]) simp_all
  have r: "storage_step s s"
    by (rule storage_stepI [where st = "storages s" and n = "numstorage s" and ca = "calloc_src s"]) simp_all
  show ?thesis
    using a a0 b r by (cases "find_index (same_peer port ip) (st_peers st)")
      (simp_all add: store_peer_def Let_def c_calloc_def st_def [symmetric])
qed

lemma storage_step_trans: "storage_step s t \<Longrightarrow> storage_step t u \<Longrightarrow> storage_step s u"
  unfolding storage_step_def by (elim exE conjE) (simp, blast)

lemma storage_store_step: "storage_step s (snd (storage_store x sa port s))"
proof -
  let ?u = "s\<lparr>calloc_src := later (calloc_src s), storages := \<lparr>st_id = take 20 x, st_maxpeers = 0, st_peers = []\<rparr> # storages s,
      numstorage := numstorage s + 1\<rparr>"
  have r: "storage_step s s"
    by (rule storage_stepI [where st = "storages s" and n = "numstorage s" and ca = "calloc_src s"]) simp_all
  have c: "storage_step s (s\<lparr>calloc_src := later (calloc_src s)\<rparr>)"
    by (rule storage_stepI [where st = "storages s" and n = "numstorage s" and ca = "later (calloc_src s)"]) (simp_all add: later_def)
  have u: "storage_step s ?u"
    by (rule storage_stepI [where st = "\<lparr>st_id = take 20 x, st_maxpeers = 0, st_peers = []\<rparr> # storages s"
          and n = "numstorage s + 1" and ca = "later (calloc_src s)"]) (simp_all add: later_def)
  have "storage_step s (snd (store_peer 0 ip port ?u))" for ip
    using storage_step_trans [OF u store_peer_step] .
  then show ?thesis
    using r c store_peer_step [of s]
    by (cases "sa_ip sa"; cases "find_storage x s") (simp_all add: storage_store_def c_calloc_def Let_def)
qed

lemma kept_storage_store: "safe c s \<Longrightarrow> valid_id x \<Longrightarrow> kept c s (snd (storage_store x sa port s))"
proof -
  assume a: "safe c s" "valid_id x"
  obtain r t where t: "storage_store x sa port s = (r, t)" by fastforce
  have "storage_inv s" using a(1) by (simp add: safe_def dht_inv_def)
  from storage_store_ok [OF this a(2) t] have "storage_inv t" by simp
  then show ?thesis using safe_storage_step [OF a(1) storage_store_step, of x sa port] t by simp
qed

lemma kept_expire_storage: "safe c s \<Longrightarrow> kept c s (expire_storage s)"
proof -
  assume a: "safe c s"
  then have "storage_inv s" by (simp add: safe_def dht_inv_def)
  then have i: "storage_inv (expire_storage s)" by (rule expire_storage_inv)
  obtain st n where "expire_storages (now s) (storages s) (numstorage s) = (st, n)" by fastforce
  then have e: "expire_storage s = s\<lparr>storages := st, numstorage := n\<rparr>" by (simp add: expire_storage_def)
  have "storage_step s (expire_storage s)"
    unfolding e by (rule storage_stepI [where st = st and n = n and ca = "calloc_src s"]) simp_all
  then show ?thesis using safe_storage_step [OF a _ i] by simp
qed

lemma kept_expire_buckets: "safe c s \<Longrightarrow> inet af \<Longrightarrow> kept c s (expire_buckets af s)"
  using expire_buckets_ok [of s af] safe_rt [of c s] by (intro safe_table_step) auto

text \<open>A misbehaving node: marked in the table, dropped from the searches, and remembered.\<close>

lemma searches_inv_flush:
  "searches_inv s \<Longrightarrow> searches_inv (s\<lparr>searches := map (\<lambda>sr. sr\<lparr>sr_nodes := flush_id x 0 (sr_nodes sr)\<rparr>) (searches s)\<rparr>)"
  by (auto simp: searches_inv_def search_ok_def nodes_ok_flush_id)

lemma safe_blacklist_node:
  assumes "safe c s" "\<And>x. y = Some x \<Longrightarrow> valid_id x" "good_sa sa salen"
  shows "safe c (blacklist_node y sa salen s)" "myid (blacklist_node y sa salen s) = myid s"
    "now (blacklist_node y sa salen s) = now s"
proof -
  define af where "af = sa_family sa"
  have af: "inet af" using assms(3) by (simp add: af_def)
  define t where "t = (case y of None \<Rightarrow> s | Some x \<Rightarrow>
      let u = (case find_node x af s of None \<Rightarrow> s
               | Some (i, j) \<Rightarrow> pinged af i j None (upd_node af i j (\<lambda>n. n\<lparr>n_pinged := 3\<rparr>) s))
      in u\<lparr>searches := map (\<lambda>sr. sr\<lparr>sr_nodes := flush_id x 0 (sr_nodes sr)\<rparr>) (searches u)\<rparr>)"
  have "safe c t \<and> myid t = myid s \<and> now t = now s"
  proof (cases y)
    case None
    then show ?thesis using assms(1) by (simp add: t_def)
  next
    case (Some x)
    define u where "u = (case find_node x af s of None \<Rightarrow> s
               | Some (i, j) \<Rightarrow> pinged af i j None (upd_node af i j (\<lambda>n. n\<lparr>n_pinged := 3\<rparr>) s))"
    have u: "kept c s u"
    proof (cases "find_node x af s")
      case None
      then show ?thesis using assms(1) by (simp add: u_def kept_refl)
    next
      case p: (Some p)
      obtain i j where ij: "p = (i, j)" by (cases p)
      let ?v = "upd_node af i j (\<lambda>n. n\<lparr>n_pinged := 3\<rparr>) s"
      note f = find_node_position [OF safe_rt [OF assms(1)] af assms(2) [OF Some] p [unfolded ij]]
      have "rt_inv ?v" using safe_rt [OF assms(1)] af by (rule rt_inv_upd_node) (simp_all add: node_ok_def)
      then have v: "kept c s ?v" using assms(1) by (intro safe_table_step) auto
      have "kept c ?v (pinged af i j None ?v)"
        using f by (intro safe_pinged [OF keptD(1) [OF v] af]) (simp_all add: upd_node_def nth_update_at)
      then show ?thesis using kept_trans [OF v] p ij by (simp add: u_def)
    qed
    have "safe c (u\<lparr>searches := map (\<lambda>sr. sr\<lparr>sr_nodes := flush_id x 0 (sr_nodes sr)\<rparr>) (searches u)\<rparr>)"
      using keptD(1) [OF u] searches_inv_flush [of u x]
      by (simp add: safe_def dht_inv_def) (simp add: rt_inv_def storage_inv_def)
    then show ?thesis using Some keptD(3,4) [OF u] by (simp add: t_def u_def [symmetric])
  qed
  then have st: "safe c t" "myid t = myid s" "now t = now s" by simp_all
  define bl where "bl = update_at (next_blacklisted t) (\<lambda>b. memcpy b 0 sa salen) (blist t)"
  define nx where "nx = (next_blacklisted t + 1) mod DHT_MAX_BLACKLISTED"
  have eq: "blacklist_node y sa salen s = t\<lparr>blist := bl, next_blacklisted := nx\<rparr>"
    by (simp only: blacklist_node_def t_def af_def bl_def nx_def Let_def)
  have m: "length (memcpy b 0 sa salen) = sizeof_ss" if "length b = sizeof_ss" for b
    using memcpy_good_sa(1) [OF assms(3) that] .
  have bt: "\<forall>b \<in> set (blist t). length b = sizeof_ss" "length bl = length (blist t)"
    using st(1) by (simp_all add: safe_def dht_inv_def bl_def)
  have "length b = sizeof_ss" if "b \<in> set bl" for b
    by (rule ball_update_at [where P = "\<lambda>b. length b = sizeof_ss", OF bt(1) _ that [unfolded bl_def]]) (rule m)
  moreover have "nx < DHT_MAX_BLACKLISTED" by (simp add: nx_def DHT_MAX_BLACKLISTED_def)
  moreover have "rt_inv (t\<lparr>blist := bl, next_blacklisted := nx\<rparr>) = rt_inv t"
    "searches_inv (t\<lparr>blist := bl, next_blacklisted := nx\<rparr>) = searches_inv t"
    "storage_inv (t\<lparr>blist := bl, next_blacklisted := nx\<rparr>) = storage_inv t"
    by (simp_all add: rt_inv_def searches_inv_def storage_inv_def)
  ultimately show "safe c (blacklist_node y sa salen s)"
    using st(1) bt(2) unfolding eq by (simp add: safe_def dht_inv_def)
  show "myid (blacklist_node y sa salen s) = myid s" "now (blacklist_node y sa salen s) = now s"
    using st(2,3) unfolding eq by simp_all
qed

subsection \<open>Properties\<close>

lemma safe_one_bucket [simp]: "safe (plain True) one_bucket_dht"
  using one_bucket_ok storage_inv_static [of "\<lambda>_. 0" "\<lambda>_. True" "\<lambda>_. 0"]
  by (simp add: safe_def dht_inv_def searches_inv_def)
    (simp add: one_bucket_dht_def static_dht_def storage_inv_def DHT_MAX_BLACKLISTED_def DHT_MAX_SEARCHES_def)

text \<open>
  Starting a search keeps the whole state well-formed and does not abort. In a state that
  satisfies the invariants of the routing table, the searches and the storage, \<^verbatim>\<open>dht_search\<close> for a
  valid identifier keeps them, whatever the allocator and the network answer, for a call-back that
  does so; and it reaches no \<^verbatim>\<open>abort\<close> when allocations succeed (\<open>c\<close>). The counter of searches stays right and
  at most 1024.
\<close>

theorem dht_search_safe:
  assumes "safe c s" "cb_ok c cb" "valid_id x" "inet af"
  shows "safe c (snd (dht_search x port af cb s)) \<and> myid (snd (dht_search x port af cb s)) = myid s \<and>
    numsearches (snd (dht_search x port af cb s)) = int (length (searches (snd (dht_search x port af cb s)))) \<and>
    numsearches (snd (dht_search x port af cb s)) \<le> 1024"
  using safe_dht_search [OF assms, of port]
  by (simp add: safe_def dht_inv_def searches_inv_def DHT_MAX_SEARCHES_def)

lemma dht_search_safe_witness:
  "aborted (snd (dht_search (replicate 20 7) 80 AF_INET None one_bucket_dht)) = False"
proof -
  have "cb_ok (plain True) (None :: unit callback option)" "valid_id (replicate 20 7)" by (simp_all add: cb_ok_def valid_id_def)
  from dht_search_safe [OF safe_one_bucket this inet_family(1), of 80] show ?thesis by (simp only: safe_def mode.sel simp_thms)
qed

lemma oldest_done_None: "oldest_done i srs r = None \<longleftrightarrow> r = None \<and> (\<forall>sr \<in> set srs. \<not> sr_done sr)"
  by (induction i srs r rule: oldest_done.induct) auto

lemma find_bucket_None: "find_bucket x af s = None \<longleftrightarrow> table af s = []"
proof -
  have "find_bucket_in x bs = None \<longleftrightarrow> bs = []" for bs
    by (induction x bs rule: find_bucket_in.induct) auto
  then show ?thesis by (simp add: find_bucket_def)
qed

lemma new_search_None:
  "fst (new_search s) = None \<longleftrightarrow>
     (\<forall>sr \<in> set (searches s). \<not> sr_done sr) \<and> (numsearches s \<ge> DHT_MAX_SEARCHES \<or> \<not> calloc_src s 0)"
  using oldest_done_None [of 0 "searches s" None]
  by (cases "oldest_done 0 (searches s) None")
    (auto simp: new_search_def Let_def c_calloc_def not_less)

lemma new_search_failed:
  "fst (new_search s) = None \<Longrightarrow>
     new_search s = (None, if numsearches s \<ge> DHT_MAX_SEARCHES then s else s\<lparr>calloc_src := later (calloc_src s)\<rparr>)"
  by (auto simp: new_search_def Let_def c_calloc_def split: if_splits)

text \<open>
  C15: the failures of \<^verbatim>\<open>dht_search\<close> and the cause of each. A family without a bucket gives -1 with
  \<^verbatim>\<open>EAFNOSUPPORT\<close>. When no search for the identifier in this family exists and none of the others is
  done, a table of 1024 searches gives -1 with \<^verbatim>\<open>ENOSPC\<close>, and so does a failing allocation; in each
  of the three cases nothing but \<^verbatim>\<open>errno\<close> (and the answers the allocator has used up) changes. In all
  other cases \<^verbatim>\<open>dht_search\<close> returns 1.
\<close>

theorem dht_search_errors:
  "if table af s = [] then dht_search x port af cb s = (- 1, s\<lparr>errno := EAFNOSUPPORT\<rparr>)
   else if (\<exists>sr \<in> set (searches s). sr_af sr = af \<and> id_cmp (sr_id sr) x = 0) \<or>
      (\<exists>sr \<in> set (searches s). sr_done sr)
     then fst (dht_search x port af cb s) = 1
   else if numsearches s \<ge> 1024 then dht_search x port af cb s = (- 1, s\<lparr>errno := ENOSPC\<rparr>)
   else if \<not> calloc_src s 0
     then dht_search x port af cb s = (- 1, s\<lparr>calloc_src := later (calloc_src s), errno := ENOSPC\<rparr>)
   else fst (dht_search x port af cb s) = 1"
proof (cases "find_bucket x af s")
  case None
  then show ?thesis using find_bucket_None [of x af s] by (simp add: dht_search_def set_errno_def)
next
  case (Some i)
  then have t: "table af s \<noteq> []" using find_bucket_None [of x af s] by auto
  show ?thesis
  proof (cases "find_index (\<lambda>sr. sr_af sr = af \<and> id_cmp (sr_id sr) x = 0) (searches s)")
    case k: (Some k)
    then have "\<exists>sr \<in> set (searches s). sr_af sr = af \<and> id_cmp (sr_id sr) x = 0"
      using find_index_None [of "\<lambda>sr. sr_af sr = af \<and> id_cmp (sr_id sr) x = 0" "searches s"] by auto
    then show ?thesis using Some k t by (simp add: dht_search_def Let_def)
  next
    case none: None
    then have n: "\<not> (\<exists>sr \<in> set (searches s). sr_af sr = af \<and> id_cmp (sr_id sr) x = 0)"
      by (simp add: find_index_None)
    have r: "fst (new_search s) = None \<longleftrightarrow>
        \<not> (\<exists>sr \<in> set (searches s). sr_done sr) \<and> (numsearches s \<ge> 1024 \<or> \<not> calloc_src s 0)"
      using new_search_None [of s] by (simp add: DHT_MAX_SEARCHES_def)
    show ?thesis
    proof (cases "fst (new_search s)")
      case f: None
      have "dht_search x port af cb s =
          (- 1, (if numsearches s \<ge> 1024 then s else s\<lparr>calloc_src := later (calloc_src s)\<rparr>)\<lparr>errno := ENOSPC\<rparr>)"
        using Some none new_search_failed [OF f] by (simp add: dht_search_def set_errno_def DHT_MAX_SEARCHES_def)
      then show ?thesis using r f n t by auto
    next
      case k: (Some k)
      then obtain u where "new_search s = (Some k, u)" by (metis prod.collapse)
      then have "fst (dht_search x port af cb s) = 1" using Some none by (simp add: dht_search_def Let_def)
      then show ?thesis using r k n t by auto
    qed
  qed
qed

lemma dht_search_errors_witness:
  "dht_search (replicate 20 7) 80 AF_INET6 None one_bucket_dht = (- 1, one_bucket_dht\<lparr>errno := EAFNOSUPPORT\<rparr>) \<and>
   dht_search (replicate 20 7) 80 AF_INET None (one_bucket_dht\<lparr>numsearches := 1024\<rparr>) =
     (- 1, one_bucket_dht\<lparr>numsearches := 1024, errno := ENOSPC\<rparr>)"
proof -
  have t: "table AF_INET6 one_bucket_dht = []" "table AF_INET (one_bucket_dht\<lparr>numsearches := 1024\<rparr>) \<noteq> []"
    "searches (one_bucket_dht\<lparr>numsearches := 1024\<rparr>) = []"
    by (simp_all add: one_bucket_dht_def static_dht_def table_def AF_INET_def AF_INET6_def)
  show ?thesis
    using dht_search_errors [of AF_INET6 one_bucket_dht "replicate 20 7" 80 None]
      dht_search_errors [of AF_INET "one_bucket_dht\<lparr>numsearches := 1024\<rparr>" "replicate 20 7" 80 None] t
    by simp
qed

lemma blacklist_mark_step:
  assumes "safe c s" "inet af" "valid_id x"
  shows "table_step s (case find_node x af s of None \<Rightarrow> s
    | Some (i, j) \<Rightarrow> pinged af i j None (upd_node af i j (\<lambda>n. n\<lparr>n_pinged := 3\<rparr>) s))"
proof (cases "find_node x af s")
  case p: (Some p)
  obtain i j where ij: "p = (i, j)" by (cases p)
  let ?v = "upd_node af i j (\<lambda>n. n\<lparr>n_pinged := 3\<rparr>) s"
  note f = find_node_position [OF safe_rt [OF assms(1)] assms(2,3) p [unfolded ij]]
  have "rt_inv ?v" using safe_rt [OF assms(1)] assms(2) by (rule rt_inv_upd_node) (simp_all add: node_ok_def)
  moreover have "i < length (table af ?v)" "j < length (b_nodes (table af ?v ! i))"
    using f by (simp_all add: upd_node_def nth_update_at)
  ultimately have "table_step ?v (pinged af i j None ?v)" using assms(2) by (intro pinged_ok(2)) simp_all
  from table_step_trans [OF table_step_upd(2) this] show ?thesis by (simp add: p ij)
qed simp

text \<open>
  The internal blacklist is a ring of ten addresses: each call of \<^verbatim>\<open>blacklist_node\<close> writes the next slot
  and leaves the others alone.
\<close>

lemma blacklist_node_ring:
  assumes "safe c s" "pred_option valid_id y" "good_sa sa salen"
  shows "blist (blacklist_node y sa salen s) =
      (blist s)[next_blacklisted s := memcpy (blist s ! next_blacklisted s) 0 sa salen]"
    "next_blacklisted (blacklist_node y sa salen s) = (next_blacklisted s + 1) mod DHT_MAX_BLACKLISTED"
    "\<And>x. y = Some x \<Longrightarrow> searches (blacklist_node y sa salen s) =
      map (\<lambda>sr. sr\<lparr>sr_nodes := flush_id x 0 (sr_nodes sr)\<rparr>) (searches s)"
proof -
  have n: "next_blacklisted s < length (blist s)" using assms(1) by (simp add: safe_def dht_inv_def)
  have st: "table_step s (case find_node x (sa_family sa) s of None \<Rightarrow> s
      | Some (i, j) \<Rightarrow> pinged (sa_family sa) i j None (upd_node (sa_family sa) i j (\<lambda>n. n\<lparr>n_pinged := 3\<rparr>) s))"
    if "y = Some x" for x using assms that by (intro blacklist_mark_step) simp_all
  show "blist (blacklist_node y sa salen s) =
      (blist s)[next_blacklisted s := memcpy (blist s ! next_blacklisted s) 0 sa salen]"
    "next_blacklisted (blacklist_node y sa salen s) = (next_blacklisted s + 1) mod DHT_MAX_BLACKLISTED"
    using n by (cases y; simp add: blacklist_node_def Let_def table_step_fields [OF st] update_at_def)+
  show "searches (blacklist_node y sa salen s) = map (\<lambda>sr. sr\<lparr>sr_nodes := flush_id x 0 (sr_nodes sr)\<rparr>) (searches s)"
    if "y = Some x" for x
    using that by (simp add: blacklist_node_def Let_def table_step_fields [OF st])
qed

definition blacklistings :: "(mem option \<times> mem \<times> nat) list \<Rightarrow> 'a dht_scheme \<Rightarrow> 'a dht_scheme" where
  "blacklistings = fold (\<lambda>(y, sa, salen). blacklist_node y sa salen)"

definition blockable :: "mem option \<times> mem \<times> nat \<Rightarrow> bool" where
  "blockable b \<longleftrightarrow> (case b of (y, sa, salen) \<Rightarrow> pred_option valid_id y \<and> good_sa sa salen)"

lemma safe_blocked: "safe c s \<Longrightarrow> pred_option valid_id y \<Longrightarrow> good_sa sa n \<Longrightarrow> safe c (blacklist_node y sa n s)"
  by (rule safe_blacklist_node) auto

lemma blacklistings_keep_slot:
  assumes "safe c s" "\<forall>b \<in> set bs. blockable b" "length bs \<le> d" "d < 10" "k = (next_blacklisted s + d) mod 10"
  shows "blist (blacklistings bs s) ! k = blist s ! k"
  using assms
proof (induction bs arbitrary: s d)
  case (Cons b bs)
  obtain y sa n where b: "b = (y, sa, n)" by (cases b) auto
  have ok: "pred_option valid_id y" "good_sa sa n"
    using Cons.prems(2) by (simp_all add: b blockable_def)
  define t where "t = blacklist_node y sa n s"
  note r = blacklist_node_ring [OF Cons.prems(1) ok, folded t_def]
  have nx: "next_blacklisted s < 10"
    using Cons.prems(1) by (simp add: safe_def dht_inv_def DHT_MAX_BLACKLISTED_def)
  have k: "k = (next_blacklisted t + (d - 1)) mod 10"
    using Cons.prems(3,5) r(2) by (cases d) (simp_all add: DHT_MAX_BLACKLISTED_def mod_simps)
  have "safe c t" unfolding t_def using Cons.prems(1) ok by (rule safe_blocked)
  from Cons.IH [OF this _ _ _ k] have "blist (blacklistings bs t) ! k = blist t ! k"
    using Cons.prems(2,3,4) by auto
  moreover have "k \<noteq> next_blacklisted s" using Cons.prems(3-5) nx by (auto simp: mod_if)
  ultimately show ?case using r(1) by (simp add: blacklistings_def b t_def)
qed (simp add: blacklistings_def)

lemma safe_blacklistings: "safe c s \<Longrightarrow> \<forall>b \<in> set bs. blockable b \<Longrightarrow> safe c (blacklistings bs s)"
  by (induction bs arbitrary: s) (auto simp: blacklistings_def blockable_def safe_blocked)

lemma blacklist_node_lasts:
  assumes "safe c s" "pred_option valid_id y" "good_sa sa salen" "\<forall>b \<in> set bs. blockable b"
    "length bs < DHT_MAX_BLACKLISTED" "blist u = blist (blacklistings bs (blacklist_node y sa salen s))"
  shows "node_blacklisted sa salen u = (True, u)"
proof -
  define t where "t = blacklist_node y sa salen s"
  note r = blacklist_node_ring [OF assms(1-3), folded t_def]
  have t: "safe c t" unfolding t_def using assms(1-3) by (rule safe_blocked)
  have nx: "next_blacklisted s < 10" "length (blist s) = 10"
    using assms(1) by (simp_all add: safe_def dht_inv_def DHT_MAX_BLACKLISTED_def)
  then have "next_blacklisted s = (next_blacklisted t + 9) mod 10"
    using r(2) by (simp add: DHT_MAX_BLACKLISTED_def mod_simps)
  then have e: "blist u ! next_blacklisted s = memcpy (blist s ! next_blacklisted s) 0 sa salen"
    using blacklistings_keep_slot [OF t assms(4), of 9 "next_blacklisted s"] assms(5,6) r(1) nx
    by (simp add: t_def DHT_MAX_BLACKLISTED_def)
  have "length (blist u) = 10"
    using safe_blacklistings [OF t assms(4)] assms(6) by (simp add: t_def safe_def dht_inv_def DHT_MAX_BLACKLISTED_def)
  then have "memcpy (blist s ! next_blacklisted s) 0 sa salen \<in> set (blist u)" using e nx(1) by (metis nth_mem)
  moreover have "memcmp (memcpy m 0 sa salen) sa salen = 0" for m
    using assms(3) by (simp add: memcmp_def memcpy_def good_sa_def)
  ultimately show ?thesis using good_sa_len(2) [OF assms(3)] by (auto simp: node_blacklisted_def)
qed

lemma blacklist_node_unsearched:
  assumes "safe c s" "valid_id x" "good_sa sa salen" "sr \<in> set (searches (blacklist_node (Some x) sa salen s))"
  shows "x \<notin> sn_id ` set (sr_nodes sr)"
proof -
  have "x \<notin> sn_id ` set (flush_id x 0 (sr_nodes sr))" if "sr \<in> set (searches s)" for sr
  proof -
    have "nodes_ok (sr_id sr) (sr_af sr) (sr_nodes sr)"
      using assms(1) that by (simp add: safe_def dht_inv_def searches_inv_def search_ok_def)
    then show ?thesis
      using nodes_ok_distinct by (intro flush_id_gone assms(2)) (auto simp: nodes_ok_def sn_ok_def)
  qed
  moreover obtain r where "r \<in> set (searches s)" "sr_nodes sr = flush_id x 0 (sr_nodes r)"
    using assms blacklist_node_ring(3) [of c s "Some x" sa salen x] by auto
  ultimately show ?thesis by simp
qed

end
