(* ===== verification/Replies.thy ===== *)
theory Replies
  imports Dht_Inv
begin

text \<open>
  The replies of \<^verbatim>\<open>dht.c\<close> that carry nodes, a token and peers, and the maintenance of the routing
  table. A node buffer is the list of its entries of 26 (IPv4) or 38 (IPv6) bytes.
\<close>

subsection \<open>The closest nodes\<close>

text \<open>One entry: identifier, address, port; \<open>None\<close> is the call of \<^verbatim>\<open>abort\<close>.\<close>

definition compact_node :: "node \<Rightarrow> mem option" where
  "compact_node n =
     (if sa_family (n_ss n) = AF_INET then Some (take 20 (n_id n) @ sin_addr (n_ss n) @ sin_port (n_ss n))
      else if sa_family (n_ss n) = AF_INET6 then Some (take 20 (n_id n) @ sin6_addr (n_ss n) @ sin_port (n_ss n))
      else None)"

text \<open>The loop: already there, or the place of the new entry.\<close>

fun closest_slot :: "mem \<Rightarrow> mem \<Rightarrow> mem list \<Rightarrow> bool \<times> nat" where
  "closest_slot x ref [] = (False, 0)"
| "closest_slot x ref (e # es) =
     (if id_cmp x e = 0 then (True, 0)
      else if xorcmp x e ref < 0 then (False, 0)
      else let (found, i) = closest_slot x ref es in (found, Suc i))"

definition place_closest :: "mem \<Rightarrow> mem \<Rightarrow> mem \<Rightarrow> mem list \<Rightarrow> mem list" where
  "place_closest ref x e es =
     (let (found, i) = closest_slot x ref es in
      if found then es
      else if i = 8 then es
      else take (if length es < 8 then Suc (length es) else length es) (take i es @ e # drop i es))"

definition insert_closest_node :: "mem \<Rightarrow> node \<Rightarrow> mem list \<Rightarrow> mem list option" where
  "insert_closest_node ref n es = map_option (\<lambda>e. place_closest ref (n_id n) e es) (compact_node n)"

fun buffer_closest :: "int \<Rightarrow> mem \<Rightarrow> node list \<Rightarrow> mem list \<Rightarrow> mem list option" where
  "buffer_closest t ref [] es = Some es"
| "buffer_closest t ref (n # ns) es =
     (if node_good t n then insert_closest_node ref n es \<bind> buffer_closest t ref ns
      else buffer_closest t ref ns es)"

definition buffer_closest_nodes :: "int \<Rightarrow> mem \<Rightarrow> bucket \<Rightarrow> mem list \<Rightarrow> mem list option" where
  "buffer_closest_nodes t ref b es = buffer_closest t ref (b_nodes b) es"

text \<open>The part of \<^verbatim>\<open>send_closest_nodes\<close> for one address family.\<close>

definition closest_nodes :: "nat \<Rightarrow> mem \<Rightarrow> 'a dht_scheme \<Rightarrow> mem list option" where
  "closest_nodes af x s =
     (case find_bucket x af s of None \<Rightarrow> Some []
      | Some i \<Rightarrow> do {
          es \<leftarrow> buffer_closest_nodes (now s) x (table af s ! i) [];
          es \<leftarrow> (if Suc i < length (table af s)
                 then buffer_closest_nodes (now s) x (table af s ! Suc i) es else Some es);
          (case previous_bucket i of None \<Rightarrow> Some es
           | Some p \<Rightarrow> buffer_closest_nodes (now s) x (table af s ! p) es) })"

subsection \<open>The message\<close>

definition nodes_peers_head :: "mem \<Rightarrow> mem \<Rightarrow> mem \<Rightarrow> mem \<Rightarrow> mem option" where
  "nodes_peers_head me nodes nodes6 token = do {
     b \<leftarrow> put_fmt 2048 (ascii ''d1:rd2:id20:'') [];
     b \<leftarrow> put_mem 2048 me b;
     b \<leftarrow> (if nodes \<noteq> [] then do {
             b \<leftarrow> put_fmt 2048 (ascii ''5:nodes'' @ dec (length nodes) @ ascii '':'') b;
             put_mem 2048 nodes b } else Some b);
     b \<leftarrow> (if nodes6 \<noteq> [] then do {
             b \<leftarrow> put_fmt 2048 (ascii ''6:nodes6'' @ dec (length nodes6) @ ascii '':'') b;
             put_mem 2048 nodes6 b } else Some b);
     (if token \<noteq> [] then do {
        b \<leftarrow> put_fmt 2048 (ascii ''5:token'' @ dec (length token) @ ascii '':'') b;
        put_mem 2048 token b } else Some b) }"

text \<open>The ring of peers, unrolled from its random start; it ends after one round or 50 peers.\<close>

fun put_peers :: "nat \<Rightarrow> nat \<Rightarrow> peer list \<Rightarrow> mem \<Rightarrow> mem option" where
  "put_peers len k [] b = Some b"
| "put_peers len k (p # ps) b =
     (if length (p_ip p) = len then do {
        b \<leftarrow> put_fmt 2048 (dec (len + 2) @ ascii '':'') b;
        b \<leftarrow> put_mem 2048 (p_ip p) b;
        b \<leftarrow> put_mem 2048 [word_of_nat (p_port p div 256), word_of_nat (p_port p)] b;
        if Suc k < 50 then put_peers len (Suc k) ps b else Some b }
      else if k < 50 then put_peers len k ps b else Some b)"

definition put_values :: "nat \<Rightarrow> peer list \<Rightarrow> mem \<Rightarrow> mem option" where
  "put_values af ps b = do {
     b \<leftarrow> put_fmt 2048 (ascii ''6:valuesl'') b;
     b \<leftarrow> put_peers (if af = AF_INET then 4 else 16) 0 ps b;
     put_fmt 2048 (ascii ''e'') b }"

definition nodes_peers_tail :: "mem \<Rightarrow> mem option \<Rightarrow> mem \<Rightarrow> mem option" where
  "nodes_peers_tail tid v b = do {
     b \<leftarrow> put_fmt 2048 (ascii ''e1:t'' @ dec (length tid) @ ascii '':'') b;
     b \<leftarrow> put_mem 2048 tid b;
     b \<leftarrow> add_v 2048 v b;
     put_fmt 2048 (ascii ''1:y1:re'') b }"

definition send_nodes_peers ::
  "mem \<Rightarrow> nat \<Rightarrow> mem \<Rightarrow> mem \<Rightarrow> mem \<Rightarrow> nat \<Rightarrow> storage option \<Rightarrow> mem \<Rightarrow> 'a dht_scheme \<Rightarrow> int \<times> 'a dht_scheme" where
  "send_nodes_peers sa salen tid nodes nodes6 af st token s =
     (case nodes_peers_head (myid s) nodes nodes6 token of
        None \<Rightarrow> (- 1, set_errno ENOSPC s)
      | Some b \<Rightarrow>
          (case st of
             Some st' \<Rightarrow>
               if st_peers st' \<noteq> [] then
                 let (r, s) = c_random s; j0 = r mod length (st_peers st')
                 in send_or_fail (do {
                      b \<leftarrow> put_values af (drop j0 (st_peers st') @ take j0 (st_peers st')) b;
                      nodes_peers_tail tid (my_v s) b }) 0 sa salen s
               else send_or_fail (nodes_peers_tail tid (my_v s) b) 0 sa salen s
           | None \<Rightarrow> send_or_fail (nodes_peers_tail tid (my_v s) b) 0 sa salen s))"

definition send_closest_nodes ::
  "mem \<Rightarrow> nat \<Rightarrow> mem \<Rightarrow> mem \<Rightarrow> int \<Rightarrow> nat \<Rightarrow> storage option \<Rightarrow> mem \<Rightarrow> 'a dht_scheme \<Rightarrow> int \<times> 'a dht_scheme" where
  "send_closest_nodes sa salen tid x want af st token s =
     (let want = (if want < 0 then (if sa_family sa = AF_INET then 1 else 2) else want) in
      case (do { es \<leftarrow> (if want AND 1 \<noteq> 0 then closest_nodes AF_INET x s else Some []);
                 es6 \<leftarrow> (if want AND 2 \<noteq> 0 then closest_nodes AF_INET6 x s else Some []);
                 Some (es, es6) }) of
        None \<Rightarrow> (- 1, c_abort s)
      | Some (es, es6) \<Rightarrow> send_nodes_peers sa salen tid (concat es) (concat es6) af st token s)"

subsection \<open>Maintenance of the routing table\<close>

text \<open>
  The choice of the bucket to ask: the next one, then the one before, when the bucket is empty
  or by a chance of one in eight. The chance is drawn only when the count does not decide.
\<close>

definition empty_or_chance :: "bucket \<Rightarrow> 'a dht_scheme \<Rightarrow> bool \<times> 'a dht_scheme" where
  "empty_or_chance b s =
     (if b_count b = 0 then (True, s) else let (r, s) = c_random s in (r mod 8 = 0, s))"

definition pick_bucket :: "nat \<Rightarrow> nat \<Rightarrow> 'a dht_scheme \<Rightarrow> nat \<times> 'a dht_scheme" where
  "pick_bucket af i s =
     (let bs = table af s;
          (q, s) = (if Suc i < length bs then let (c, s) = empty_or_chance (bs ! i) s in (if c then Suc i else i, s)
                    else (i, s));
          (c, s) = empty_or_chance (bs ! q) s
      in (if c then (case previous_bucket i of None \<Rightarrow> q
                     | Some p \<Rightarrow> if b_count (bs ! p) > 0 then p else q) else q, s))"

text \<open>Ask node \<open>j\<close> of bucket \<open>q\<close> for an identifier.\<close>

definition ask_node :: "nat \<Rightarrow> nat \<Rightarrow> nat \<Rightarrow> mem \<Rightarrow> int \<Rightarrow> 'a dht_scheme \<Rightarrow> 'a dht_scheme" where
  "ask_node af q j x want s =
     (let n = b_nodes (table af s ! q) ! j;
          s = snd (send_find_node (n_ss n) (n_sslen n) (make_tid (ascii ''fn'') 0) x want
                     (n_reply_time n \<ge> now s - 15) s)
      in pinged af q j (Some q) s)"

definition neighbourhood_maintenance :: "nat \<Rightarrow> 'a dht_scheme \<Rightarrow> bool \<times> 'a dht_scheme" where
  "neighbourhood_maintenance af s =
     (case find_bucket (myid s) af s of None \<Rightarrow> (False, s)
      | Some i \<Rightarrow>
          let (r, s) = c_random s; x = take 19 (myid s) @ [word_of_nat r]; (q, s) = pick_bucket af i s;
              want = (if dht_socket s \<ge> 0 \<and> dht_socket6 s \<ge> 0 then 3 else - 1);
              (n, s) = random_node (table af s ! q) s
          in (True, case n of None \<Rightarrow> s | Some j \<Rightarrow> ask_node af q j x want s))"

definition other_family :: "nat \<Rightarrow> nat" where
  "other_family af = (if af = AF_INET then AF_INET6 else AF_INET)"

definition maintenance_want :: "nat \<Rightarrow> mem \<Rightarrow> 'a dht_scheme \<Rightarrow> int \<times> 'a dht_scheme" where
  "maintenance_want af x s =
     (if dht_socket s \<ge> 0 \<and> dht_socket6 s \<ge> 0 then
        (case find_bucket x (other_family af) s of
           Some o' \<Rightarrow> if b_count (table (other_family af) s ! o') < 8 then (3, s)
             else let (r, s) = c_random s in (if r mod 37 = 0 then 3 else - 1, s)
         | None \<Rightarrow> let (r, s) = c_random s in (if r mod 37 = 0 then 3 else - 1, s))
      else (- 1, s))"

fun bucket_maintenance_from :: "nat \<Rightarrow> nat list \<Rightarrow> 'a dht_scheme \<Rightarrow> bool \<times> 'a dht_scheme" where
  "bucket_maintenance_from af [] s = (False, s)"
| "bucket_maintenance_from af (i # is) s =
     (if b_time (table af s ! i) < now s - 600 then
        let (x, s) = bucket_random (b_first (table af s ! i)) (next_first (table af s) i) s;
            (q, s) = pick_bucket af i s;
            (n, s) = random_node (table af s ! q) s
        in case n of None \<Rightarrow> bucket_maintenance_from af is s
           | Some j \<Rightarrow> let (want, s) = maintenance_want af x s in (True, ask_node af q j x want s)
      else bucket_maintenance_from af is s)"

definition bucket_maintenance :: "nat \<Rightarrow> 'a dht_scheme \<Rightarrow> bool \<times> 'a dht_scheme" where
  "bucket_maintenance af s = bucket_maintenance_from af [0..<length (table af s)] s"

subsection \<open>The reply holds the closest good nodes\<close>

lemma id_cmp_take [simp]: "id_cmp x (take 20 y) = id_cmp x y"
  by (simp add: id_cmp_def memcmp_def)

lemma xorcmp_take [simp]: "xorcmp x (take 20 y) r = xorcmp x y r"
  by (simp add: xorcmp_def)

definition entry_dist :: "mem \<Rightarrow> mem \<Rightarrow> nat" where
  "entry_dist ref e = xor_dist (take 20 e) ref"

lemma closest_slot_search:
  "closest_slot x ref es = search_slot x ref (map fresh_search_node es)"
  by (induction es) (simp_all add: fresh_search_node_def)

lemma closest_slot_spec:
  assumes "closest_slot x ref es = (found, i)" "valid_id x" "valid_id ref" "\<forall>e \<in> set es. 20 \<le> length e"
    "sorted_wrt (<) (map (entry_dist ref) es)"
  shows "found \<longleftrightarrow> xor_dist x ref \<in> set (map (entry_dist ref) es)"
    "\<not> found \<Longrightarrow> i \<le> length es \<and> insort (xor_dist x ref) (map (entry_dist ref) es) =
       take i (map (entry_dist ref) es) @ xor_dist x ref # drop i (map (entry_dist ref) es)"
proof -
  let ?ns = "map fresh_search_node es"
  have m: "map (sn_dist ref) ?ns = map (entry_dist ref) es"
    by (simp add: sn_dist_def entry_dist_def fresh_search_node_def)
  have v: "\<forall>n \<in> set ?ns. valid_id (sn_id n)" using assms(4) by (auto simp: fresh_search_node_def valid_id_def)
  note s = search_slot_spec [OF assms(1) [unfolded closest_slot_search] assms(2,3) v, unfolded m, OF assms(5)]
  have "xor_dist x ref \<in> set (map (entry_dist ref) es)" if "found"
  proof -
    have i: "i < length es" "take 20 (es ! i) = x" using s that by (auto simp: fresh_search_node_def)
    then have "entry_dist ref (es ! i) = xor_dist x ref" by (simp add: entry_dist_def)
    then show ?thesis using nth_mem [OF i(1)] by force
  qed
  then show "found \<longleftrightarrow> xor_dist x ref \<in> set (map (entry_dist ref) es)" using s by blast
  show "\<not> found \<Longrightarrow> i \<le> length es \<and> insort (xor_dist x ref) (map (entry_dist ref) es) =
       take i (map (entry_dist ref) es) @ xor_dist x ref # drop i (map (entry_dist ref) es)" using s by simp
qed

text \<open>An offer: an identifier and the entry that begins with it.\<close>

definition entry_ok :: "mem \<times> mem \<Rightarrow> bool" where
  "entry_ok k \<longleftrightarrow> valid_id (fst k) \<and> take 20 (snd k) = fst k"

lemma place_closest_set: "set (place_closest ref x e es) \<subseteq> insert e (set es)"
proof (cases "closest_slot x ref es")
  case (Pair found i)
  have "set (take m (take i es @ e # drop i es)) \<subseteq> insert e (set es)" for m
    using set_take_subset [of m "take i es @ e # drop i es"] set_take_subset [of i es] set_drop_subset [of i es] by auto
  then show ?thesis by (auto simp: place_closest_def Pair)
qed

interpretation closest: bounded_insertion "\<lambda>k. place_closest ref (fst k) (snd k)" "\<lambda>k. xor_dist (fst k) ref"
  "entry_dist ref" 8 "\<lambda>k. entry_ok k \<and> valid_id ref" "\<lambda>e. 20 \<le> length e" for ref
proof unfold_locales
  fix k :: "mem \<times> mem" and es :: "mem list" and ref
  assume kv: "entry_ok k \<and> valid_id ref" and ev: "\<forall>e \<in> set es. 20 \<le> length e"
  obtain x e where k: "k = (x, e)" by (cases k)
  have x: "valid_id x" "valid_id ref" "take 20 e = x" using kv by (auto simp: entry_ok_def k)
  then have "length (take 20 e) = 20" by (simp add: valid_id_def)
  then have "20 \<le> length e" by (cases "20 \<le> length e") simp_all
  then show "\<forall>e \<in> set (place_closest ref (fst k) (snd k) es). 20 \<le> length e"
    using place_closest_set [of ref x e es] ev by (auto simp: k)
  assume sorted: "sorted_wrt (<) (map (entry_dist ref) es)" and len: "length es \<le> 8"
  obtain found i where fi: "closest_slot x ref es = (found, i)" by fastforce
  note sl = closest_slot_spec [OF fi x(1,2) ev sorted]
  have eq: "place_closest ref x e es = (if found then es else if i = 8 then es
      else take (if length es < 8 then Suc (length es) else length es) (take i es @ e # drop i es))"
    by (simp add: place_closest_def fi)
  have "entry_dist ref e = xor_dist x ref" using x(3) by (simp add: entry_dist_def)
  then have m: "map (entry_dist ref) (take i es @ e # drop i es) = insort (xor_dist x ref) (map (entry_dist ref) es)"
    if "\<not> found" using sl(2) [OF that] by (simp add: take_map drop_map)
  have t: "take (if length es < 8 then Suc (length es) else length es) (insort (xor_dist x ref) (map (entry_dist ref) es)) =
      take 8 (insort (xor_dist x ref) (map (entry_dist ref) es))"
    using len by (cases "length es < 8") auto
  have full: "take 8 (insort (xor_dist x ref) (map (entry_dist ref) es)) = map (entry_dist ref) es" if "\<not> found" "i = 8"
  proof -
    have "length es = 8" using sl(2) [OF that(1)] that(2) len by simp
    then show ?thesis using sl(2) [OF that(1)] that(2) by simp
  qed
  have "map (entry_dist ref) (place_closest ref x e es) = (if found then map (entry_dist ref) es
      else take 8 (insort (xor_dist x ref) (map (entry_dist ref) es)))"
  proof (cases found)
    case False
    show ?thesis
    proof (cases "i = 8")
      case True
      then show ?thesis using False full [OF False True] by (simp add: eq)
    next
      case i8: False
      show ?thesis unfolding eq using i8 False t by (simp only: if_False take_map [symmetric] m [OF False])
    qed
  qed (simp add: eq)
  then show "map (entry_dist ref) (place_closest ref (fst k) (snd k) es) =
      (if xor_dist (fst k) ref \<in> set (map (entry_dist ref) es) then map (entry_dist ref) es
       else take 8 (insort (xor_dist (fst k) ref) (map (entry_dist ref) es)))"
    unfolding sl(1) by (simp only: k fst_conv snd_conv)
qed

definition offers :: "int \<Rightarrow> node list \<Rightarrow> (mem \<times> mem) list" where
  "offers t ns = map (\<lambda>n. (n_id n, the (compact_node n))) (filter (node_good t) ns)"

abbreviation place_offers :: "mem \<Rightarrow> (mem \<times> mem) list \<Rightarrow> mem list \<Rightarrow> mem list" where
  "place_offers ref \<equiv> fold (\<lambda>k. place_closest ref (fst k) (snd k))"

definition wire_ok :: "node \<Rightarrow> bool" where
  "wire_ok n \<longleftrightarrow> valid_id (n_id n) \<and> inet (sa_family (n_ss n)) \<and> length (n_ss n) = sizeof_ss"

lemma wire_compact:
  assumes "wire_ok n"
  obtains e where "compact_node n = Some e" "take 20 e = n_id n"
    "length e = (if sa_family (n_ss n) = AF_INET then 26 else 38)"
  using assms by (auto simp: wire_ok_def compact_node_def valid_id_def inet_def sin_addr_def sin6_addr_def sin_port_def
      sizeof_ss_def AF_INET_def AF_INET6_def)

lemma offers_ok: "\<forall>n \<in> set ns. wire_ok n \<Longrightarrow> \<forall>k \<in> set (offers t ns). entry_ok k"
proof
  fix k assume w: "\<forall>n \<in> set ns. wire_ok n" and k: "k \<in> set (offers t ns)"
  obtain n where n: "n \<in> set ns" "k = (n_id n, the (compact_node n))" using k by (auto simp: offers_def)
  then have wn: "wire_ok n" using w by simp
  then have "valid_id (n_id n)" by (simp add: wire_ok_def)
  with wn show "entry_ok k" using n(2) by (cases rule: wire_compact) (simp_all add: entry_ok_def)
qed

lemma buffer_closest_eq:
  "\<forall>n \<in> set ns. wire_ok n \<Longrightarrow> buffer_closest t ref ns es = Some (place_offers ref (offers t ns) es)"
proof (induction ns arbitrary: es)
  case (Cons n ns)
  have "wire_ok n" using Cons.prems by simp
  then obtain e where "compact_node n = Some e" by (rule wire_compact)
  then show ?case using Cons by (simp add: insert_closest_node_def offers_def)
qed (simp add: offers_def)

text \<open>The nodes a reply is chosen from: those of the bucket, of the next one, of the one before.\<close>

definition near_nodes :: "nat \<Rightarrow> nat \<Rightarrow> 'a dht_scheme \<Rightarrow> node list" where
  "near_nodes af i s = filter (node_good (now s))
     (b_nodes (table af s ! i) @
      (if Suc i < length (table af s) then b_nodes (table af s ! Suc i) else []) @
      (if i = 0 then [] else b_nodes (table af s ! (i - 1))))"

lemma bucket_wire_ok:
  assumes "rt_inv s" "inet af" "k < length (table af s)"
  shows "\<forall>n \<in> set (b_nodes (table af s ! k)). wire_ok n \<and> sa_family (n_ss n) = af"
  using rt_bucket [OF assms] assms(2) by (auto simp: bucket_ok_def node_ok_def wire_ok_def)

lemma offers_append: "offers t (ms @ ns) = offers t ms @ offers t ns"
  by (simp add: offers_def)

lemma offers_near:
  "offers (now s) (near_nodes af i s) = offers (now s) (b_nodes (table af s ! i)) @
     (if Suc i < length (table af s) then offers (now s) (b_nodes (table af s ! Suc i)) else []) @
     (if i = 0 then [] else offers (now s) (b_nodes (table af s ! (i - 1))))"
  by (simp add: near_nodes_def offers_def)

lemma closest_nodes_eq:
  assumes "rt_inv s" "inet af" "valid_id x" "find_bucket x af s = Some i"
  shows "closest_nodes af x s = Some (place_offers x (offers (now s) (near_nodes af i s)) [])"
    "\<forall>n \<in> set (near_nodes af i s). wire_ok n \<and> sa_family (n_ss n) = af"
proof -
  have i: "i < length (table af s)" using find_bucket_interval [OF assms] by simp
  then have i1: "i - 1 < length (table af s)" by simp
  note w = bucket_wire_ok [OF assms(1,2)]
  show "\<forall>n \<in> set (near_nodes af i s). wire_ok n \<and> sa_family (n_ss n) = af"
    using w [OF i] w [OF i1] w [of "Suc i"] by (auto simp: near_nodes_def)
  have b: "buffer_closest_nodes t x (table af s ! k) es = Some (place_offers x (offers t (b_nodes (table af s ! k))) es)"
    if "k < length (table af s)" for k es t
    using w [OF that] by (simp add: buffer_closest_nodes_def buffer_closest_eq)
  show "closest_nodes af x s = Some (place_offers x (offers (now s) (near_nodes af i s)) [])"
    using i by (simp add: closest_nodes_def assms(4) offers_near previous_bucket_def b)
qed

lemma place_offers_set: "set (place_offers ref ks es) \<subseteq> snd ` set ks \<union> set es"
proof (induction ks arbitrary: es)
  case (Cons k ks)
  show ?case using Cons.IH [of "place_closest ref (fst k) (snd k) es"] place_closest_set [of ref "fst k" "snd k" es]
    by auto
qed simp

text \<open>
  C13: a node reply names the closest good nodes. For the bucket of the identifier asked for, the
  entries \<^verbatim>\<open>send_closest_nodes\<close> collects are the up to eight nodes closest to it (XOR distance,
  increasing) of all good nodes of the bucket, its successor and its predecessor, each in the compact
  format of its family, and the collection never reaches \<^verbatim>\<open>abort\<close>.
\<close>

theorem reply_holds_closest_nodes:
  assumes "rt_inv s" "inet af" "valid_id x" "find_bucket x af s = Some i"
  shows "\<exists>es. closest_nodes af x s = Some es \<and>
    map (\<lambda>e. xor_dist (take 20 e) x) es =
      take 8 (sorted_list_of_set ((\<lambda>n. xor_dist (n_id n) x) ` set (near_nodes af i s))) \<and>
    (\<forall>e \<in> set es. length e = (if af = AF_INET then 26 else 38) \<and>
       (\<exists>n \<in> set (near_nodes af i s). compact_node n = Some e))"
proof -
  let ?ks = "offers (now s) (near_nodes af i s)"
  note c = closest_nodes_eq [OF assms]
  have o: "\<forall>k \<in> set ?ks. entry_ok k" using c(2) by (intro offers_ok) simp
  have near: "filter (node_good (now s)) (near_nodes af i s) = near_nodes af i s" by (simp add: near_nodes_def)
  have ks: "set ?ks = (\<lambda>n. (n_id n, the (compact_node n))) ` set (near_nodes af i s)"
    unfolding offers_def near by simp
  have "map (entry_dist x) (place_offers x ?ks []) = take 8 (sorted_list_of_set ((\<lambda>k. xor_dist (fst k) x) ` set ?ks))"
    using closest.closest_of_all [of ?ks x] o assms(3) by simp
  then have d: "map (\<lambda>e. xor_dist (take 20 e) x) (place_offers x ?ks []) =
      take 8 (sorted_list_of_set ((\<lambda>n. xor_dist (n_id n) x) ` set (near_nodes af i s)))"
    by (simp add: ks image_image entry_dist_def [abs_def])
  have "length e = (if af = AF_INET then 26 else 38) \<and> (\<exists>n \<in> set (near_nodes af i s). compact_node n = Some e)"
    if "e \<in> set (place_offers x ?ks [])" for e
  proof -
    have "e \<in> snd ` set ?ks" using place_offers_set [of x ?ks "[]"] that by auto
    then obtain n where n: "n \<in> set (near_nodes af i s)" "e = the (compact_node n)" unfolding ks by auto
    with c(2) have "wire_ok n" "sa_family (n_ss n) = af" by simp_all
    then show ?thesis using n by (cases rule: wire_compact) auto
  qed
  with c(1) d show ?thesis by blast
qed

lemma reply_holds_closest_nodes_witness:
  "\<exists>es. closest_nodes AF_INET (replicate 20 9) two_node_dht = Some es \<and> length es \<le> 8"
proof -
  obtain b where b: "table AF_INET two_node_dht = [b]"
    using two_node_ok(2) by (metis One_nat_def length_0_conv length_Suc_conv)
  then have "find_bucket (replicate 20 9) AF_INET two_node_dht = Some 0" by (simp add: find_bucket_def)
  from reply_holds_closest_nodes [OF two_node_ok(1) inet_family(1) _ this] obtain es where
    es: "closest_nodes AF_INET (replicate 20 9) two_node_dht = Some es"
      "map (\<lambda>e. xor_dist (take 20 e) (replicate 20 9)) es = take 8 (sorted_list_of_set
         ((\<lambda>n. xor_dist (n_id n) (replicate 20 9)) ` set (near_nodes AF_INET 0 two_node_dht)))"
    unfolding valid_id_def by (elim meta_impE) (simp, blast)
  from es(2) [THEN arg_cong, of length] have "length es \<le> 8" by (simp only: length_map length_take min.cobounded2)
  with es(1) show ?thesis by blast
qed

subsection \<open>Drawing random numbers\<close>

definition drawn :: "'a dht_scheme \<Rightarrow> 'a dht_scheme \<Rightarrow> bool" where
  "drawn s t \<longleftrightarrow> (\<exists>ra. t = s\<lparr>rand_src := ra\<rparr>)"

lemma drawn_refl [simp, intro]: "drawn s s"
  unfolding drawn_def by (rule exI [of _ "rand_src s"]) simp

lemma drawn_trans: "drawn s t \<Longrightarrow> drawn t u \<Longrightarrow> drawn s u"
  by (auto simp: drawn_def)

lemma drawn_random [simp, intro]: "drawn s (snd (c_random s))"
  by (auto simp: drawn_def c_random_def)

lemma drawn_fields:
  assumes "drawn s t"
  shows "table af t = table af s" "now t = now s" "myid t = myid s" "dht_socket t = dht_socket s"
    "dht_socket6 t = dht_socket6 s" "my_v t = my_v s" "aborted t = aborted s" "calloc_src t = calloc_src s"
    "searches t = searches s" "storages t = storages s"
  using assms by (auto simp: drawn_def table_def)

lemma kept_drawn: "safe c s \<Longrightarrow> drawn s t \<Longrightarrow> kept c s t"
  by (rule safe_table_step) (auto simp: drawn_def safe_def dht_inv_def)

lemma drawn_random_pair: "c_random s = (r, t) \<Longrightarrow> drawn s t"
  using drawn_random [of s] by simp

lemma drawn_empty_or_chance: "empty_or_chance b s = (c, t) \<Longrightarrow> drawn s t"
  by (auto simp: empty_or_chance_def Let_def drawn_random_pair split: if_splits prod.splits)

lemma drawn_random_bytes: "random_bytes n s = (bs, t) \<Longrightarrow> drawn s t"
  unfolding drawn_def by (rule random_bytes_src)

lemma pick_bucket_ok:
  assumes "pick_bucket af i s = (q, t)" "i < length (table af s)"
  shows "drawn s t" "q < length (table af s)"
proof -
  obtain c0 s0 where 0: "empty_or_chance (table af s ! i) s = (c0, s0)" by fastforce
  define nxt where "nxt \<longleftrightarrow> Suc i < length (table af s)"
  define q1 where "q1 = (if nxt \<and> c0 then Suc i else i)"
  define s1 where "s1 = (if nxt then s0 else s)"
  have a: "drawn s s1" "q1 < length (table af s)"
    using drawn_empty_or_chance [OF 0] assms(2) by (auto simp: s1_def q1_def nxt_def)
  obtain c s2 where 2: "empty_or_chance (table af s ! q1) s1 = (c, s2)" by fastforce
  have "pick_bucket af i s = (if c then (case previous_bucket i of None \<Rightarrow> q1
      | Some p \<Rightarrow> if b_count (table af s ! p) > 0 then p else q1) else q1, s2)"
    using 2 by (cases nxt; cases c0) (simp_all add: pick_bucket_def Let_def 0 q1_def s1_def nxt_def [symmetric] split: option.split)
  then have e: "q = (if c then (case previous_bucket i of None \<Rightarrow> q1
      | Some p \<Rightarrow> if b_count (table af s ! p) > 0 then p else q1) else q1)" "t = s2"
    using assms(1) by simp_all
  show "drawn s t" using drawn_trans [OF a(1) drawn_empty_or_chance [OF 2]] e(2) by simp
  show "q < length (table af s)" using e(1) a(2) assms(2) by (auto simp: previous_bucket_def)
qed

lemma random_node_ok:
  assumes "random_node b s = (r, t)"
  shows "drawn s t" "\<And>j. r = Some j \<Longrightarrow> j < length (b_nodes b)"
proof -
  show "drawn s t" using assms
    by (auto simp: random_node_def Let_def drawn_random_pair split: if_splits prod.splits)
  show "j < length (b_nodes b)" if "r = Some j" for j
    using assms that by (auto simp: random_node_def Let_def split: if_splits prod.splits)
qed

lemma bucket_random_ok: "bucket_random f nxt s = (x, t) \<Longrightarrow> drawn s t"
  by (auto simp: bucket_random_def Let_def split: if_splits prod.splits
      intro: drawn_trans [OF drawn_random_pair drawn_random_bytes])

lemma maintenance_want_ok: "maintenance_want af x s = (w, t) \<Longrightarrow> drawn s t"
  by (auto simp: maintenance_want_def Let_def drawn_random_pair split: if_splits prod.splits option.splits)

subsection \<open>Replies and maintenance keep the invariant\<close>

lemma kept_send_or_fail:
  assumes "safe c s" "0 < n" "n \<le> sizeof_ss"
  shows "kept c s (snd (send_or_fail m fl sa n s))"
  using assms by (intro safe_quiet) (simp_all add: aborted_send_or_fail)

lemma kept_send_nodes_peers:
  assumes "safe c s" "0 < n" "n \<le> sizeof_ss"
  shows "kept c s (snd (send_nodes_peers sa n tid nodes nodes6 af st token s))"
proof -
  have f: "kept c s (snd (send_or_fail m fl sa n s))" for m fl using assms by (rule kept_send_or_fail)
  obtain r t where t: "c_random s = (r, t)" by fastforce
  have kt: "kept c s t" using assms(1) drawn_random_pair [OF t] by (rule kept_drawn)
  have g: "kept c s (snd (send_or_fail m fl sa n t))" for m fl
    using kept_trans [OF kt kept_send_or_fail [OF keptD(1) [OF kt] assms(2,3)]] .
  have e: "kept c s (set_errno ENOSPC s)" using assms(1) by (intro safe_quiet) simp_all
  show ?thesis
    using f g e by (simp add: send_nodes_peers_def t Let_def split: option.split)
qed

lemma closest_nodes_total:
  assumes "rt_inv s" "inet af" "valid_id x"
  obtains es where "closest_nodes af x s = Some es"
  using closest_nodes_eq(1) [OF assms] by (cases "find_bucket x af s") (auto simp: closest_nodes_def)

lemma kept_send_closest_nodes:
  assumes "safe c s" "0 < n" "n \<le> sizeof_ss" "valid_id x"
  shows "kept c s (snd (send_closest_nodes sa n tid x want af st token s))"
proof -
  obtain es where es: "closest_nodes AF_INET x s = Some es"
    using closest_nodes_total [OF safe_rt [OF assms(1)] _ assms(4), of AF_INET] by auto
  obtain es6 where es6: "closest_nodes AF_INET6 x s = Some es6"
    using closest_nodes_total [OF safe_rt [OF assms(1)] _ assms(4), of AF_INET6] by auto
  show ?thesis
    using kept_send_nodes_peers [OF assms(1-3)] by (simp add: send_closest_nodes_def es es6 Let_def)
qed

lemma bucket_node_good_sa:
  assumes "rt_inv s" "inet af" "q < length (table af s)" "j < length (b_nodes (table af s ! q))"
  shows "good_sa (n_ss (b_nodes (table af s ! q) ! j)) (n_sslen (b_nodes (table af s ! q) ! j))"
  using rt_bucket [OF assms(1-3)] nth_mem [OF assms(4)] by (auto simp: bucket_ok_def node_ok_def)

lemma kept_ask_node:
  assumes "safe c s" "inet af" "q < length (table af s)" "j < length (b_nodes (table af s ! q))"
  shows "kept c s (ask_node af q j x want s)"
proof -
  define n where "n = b_nodes (table af s ! q) ! j"
  define u where "u = snd (send_find_node (n_ss n) (n_sslen n) (make_tid (ascii ''fn'') 0) x want (n_reply_time n \<ge> now s - 15) s)"
  note g = good_sa_len [OF bucket_node_good_sa [OF safe_rt [OF assms(1)] assms(2-4), folded n_def]]
  have u: "kept c s u" unfolding u_def using assms(1) aborted_sends(3) [OF g] by (intro safe_quiet) simp_all
  have tu: "table af u = table af s" by (simp add: u_def)
  have "kept c u (pinged af q j (Some q) u)"
    using assms(2-4) by (intro safe_pinged [OF keptD(1) [OF u]]) (simp_all add: tu)
  from kept_trans [OF u this] show ?thesis by (simp add: ask_node_def n_def [symmetric] u_def [symmetric])
qed

lemma kept_ask_drawn:
  assumes "safe c s" "drawn s t" "inet af" "q < length (table af s)" "j < length (b_nodes (table af s ! q))"
  shows "kept c s (ask_node af q j x want t)"
  using kept_trans [OF kept_drawn [OF assms(1,2)]] kept_ask_node [OF keptD(1) [OF kept_drawn [OF assms(1,2)]], of af q j]
    assms(3-5) drawn_fields [OF assms(2)] by simp

lemma kept_neighbourhood_maintenance:
  assumes "safe c s" "inet af"
  shows "kept c s (snd (neighbourhood_maintenance af s))"
proof (cases "find_bucket (myid s) af s")
  case None
  then show ?thesis using assms(1) by (simp add: neighbourhood_maintenance_def kept_refl)
next
  case (Some i)
  have "valid_id (myid s)" using safe_rt [OF assms(1)] by (simp add: rt_inv_def)
  then have i: "i < length (table af s)" using find_bucket_interval [OF safe_rt [OF assms(1)] assms(2) _ Some] by simp
  obtain r s1 where 1: "c_random s = (r, s1)" by fastforce
  obtain q s2 where 2: "pick_bucket af i s1 = (q, s2)" by fastforce
  obtain n s3 where 3: "random_node (table af s2 ! q) s2 = (n, s3)" by fastforce
  note d1 = drawn_random_pair [OF 1]
  have i1: "i < length (table af s1)" using i drawn_fields(1) [OF d1] by simp
  note p = pick_bucket_ok [OF 2 i1]
  note d2 = drawn_trans [OF d1 p(1)]
  note d3 = drawn_trans [OF d2 random_node_ok(1) [OF 3]]
  have q: "q < length (table af s)" "table af s2 = table af s"
    using p(2) drawn_fields(1) [OF d1] drawn_fields(1) [OF d2] by simp_all
  show ?thesis
    using kept_drawn [OF assms(1) d3] kept_ask_drawn [OF assms(1) d3 assms(2) q(1)] random_node_ok(2) [OF 3] q(2)
    by (simp add: neighbourhood_maintenance_def Some 1 2 3 [unfolded q(2)] Let_def split: option.split)
qed

lemma kept_bucket_maintenance_from:
  "safe c (s :: 'a dht_scheme) \<Longrightarrow> inet af \<Longrightarrow> \<forall>i \<in> set is. i < length (table af s) \<Longrightarrow>
     kept c s (snd (bucket_maintenance_from af is s))"
proof (induction "is" arbitrary: s)
  case Nil
  then show ?case by (simp add: kept_refl)
next
  case (Cons i "is")
  obtain x s1 where 1: "bucket_random (b_first (table af s ! i)) (next_first (table af s) i) s = (x, s1)" by fastforce
  obtain q s2 where 2: "pick_bucket af i s1 = (q, s2)" by fastforce
  obtain n s3 where 3: "random_node (table af s2 ! q) s2 = (n, s3)" by fastforce
  obtain w s4 where 4: "maintenance_want af x s3 = (w, s4)" by fastforce
  note d1 = bucket_random_ok [OF 1]
  have i1: "i < length (table af s1)" using Cons.prems(3) drawn_fields(1) [OF d1] by simp
  note p = pick_bucket_ok [OF 2 i1]
  note d2 = drawn_trans [OF d1 p(1)]
  note d3 = drawn_trans [OF d2 random_node_ok(1) [OF 3]]
  note d4 = drawn_trans [OF d3 maintenance_want_ok [OF 4]]
  have q: "q < length (table af s)" "table af s2 = table af s"
    using p(2) drawn_fields(1) [OF d1] drawn_fields(1) [OF d2] by simp_all
  have k3: "kept c s s3" using Cons.prems(1) d3 by (rule kept_drawn)
  have ih: "kept c t (snd (bucket_maintenance_from af is t))" if "safe c t" "table af t = table af s"
    for t :: "'a dht_scheme"
    using Cons.IH [OF that(1) Cons.prems(2)] Cons.prems(3) that(2) by simp
  show ?case
    using ih [OF Cons.prems(1)] kept_trans [OF k3 ih [OF keptD(1) [OF k3] drawn_fields(1) [OF d3]]]
      kept_ask_drawn [OF Cons.prems(1) d4 Cons.prems(2) q(1)] random_node_ok(2) [OF 3] q(2)
    by (simp add: 1 2 3 [unfolded q(2)] 4 Let_def split: option.split)
qed

lemma kept_bucket_maintenance: "safe c s \<Longrightarrow> inet af \<Longrightarrow> kept c s (snd (bucket_maintenance af s))"
  by (simp add: bucket_maintenance_def kept_bucket_maintenance_from)

end
