(* ===== verification/Parser.thy ===== *)
theory Parser
  imports Messages
begin

text \<open>
  The reading side of \<^verbatim>\<open>dht.c\<close>: \<^verbatim>\<open>dht_memmem\<close>, \<^verbatim>\<open>parse_message\<close> and the parsers of the DTN
  messages. A message is a buffer \<open>m\<close> with the number \<open>n\<close> of its bytes; the parsers look at positions
  in it. \<open>None\<close> is the jump to \<^verbatim>\<open>overflow\<close>.
\<close>

subsection \<open>Library routines\<close>

fun memmem_at :: "mem \<Rightarrow> mem \<Rightarrow> nat option" where
  "memmem_at [] needle = (if needle = [] then Some 0 else None)"
| "memmem_at (x # xs) needle =
     (if take (length needle) (x # xs) = needle then Some 0 else map_option Suc (memmem_at xs needle))"

definition dht_memmem :: "mem \<Rightarrow> mem \<Rightarrow> nat option" where
  "dht_memmem haystack needle =
     (if length haystack < length needle then None else memmem_at haystack needle)"

text \<open>\<^verbatim>\<open>dht_memmem(buf + p, buflen - p, needle, ...)\<close>, as a position in the buffer.\<close>

definition search_from :: "mem \<Rightarrow> nat \<Rightarrow> nat \<Rightarrow> mem \<Rightarrow> nat option" where
  "search_from m n p needle = map_option ((+) p) (dht_memmem (slice p (n - p) m) needle)"

text \<open>\<^verbatim>\<open>strtol(buf + p, &q, 10)\<close>: the value and the position \<open>q\<close>.\<close>

definition is_space :: "byte \<Rightarrow> bool" where
  "is_space b \<longleftrightarrow> b = 32 \<or> (9 \<le> b \<and> b \<le> 13)"

definition is_digit :: "byte \<Rightarrow> bool" where
  "is_digit b \<longleftrightarrow> 48 \<le> b \<and> b \<le> 57"

definition digits_val :: "mem \<Rightarrow> int" where
  "digits_val ds = foldl (\<lambda>v d. v * 10 + (int (unat d) - 48)) 0 ds"

definition c_long :: "int \<Rightarrow> int" where
  "c_long v = max (- (2 ^ 63)) (min (2 ^ 63 - 1) v)"

definition strtol :: "mem \<Rightarrow> nat \<Rightarrow> int \<times> nat" where
  "strtol m p =
     (let a = p + length (takeWhile is_space (drop p m));
          b = (if rd m a = 43 \<or> rd m a = 45 then Suc a else a);
          ds = takeWhile is_digit (drop b m)
      in if ds = [] then (0, p)
         else (c_long (if rd m a = 45 then - digits_val ds else digits_val ds), b + length ds))"

lemma strtol_ge: "p \<le> snd (strtol m p)"
  by (simp add: strtol_def Let_def)

subsection \<open>Fields of a message\<close>

text \<open>A string \<open>l:...\<close> at position \<open>p\<close>; what is malformed or too long counts as empty.\<close>

definition string_at :: "mem \<Rightarrow> nat \<Rightarrow> nat \<Rightarrow> nat \<Rightarrow> mem option" where
  "string_at m n p lim =
     (let (l, q) = strtol m p in
      if rd m q = 58 \<and> 0 < l \<and> l < int lim
      then (if n < q + 1 + nat l then None else Some (slice (q + 1) (nat l) m))
      else Some [])"

definition string_field :: "mem \<Rightarrow> nat \<Rightarrow> mem \<Rightarrow> nat \<Rightarrow> mem \<Rightarrow> mem option" where
  "string_field m n pat lim dflt =
     (case search_from m n 0 pat of None \<Rightarrow> Some dflt | Some p \<Rightarrow> string_at m n (p + length pat) lim)"

definition id_field :: "mem \<Rightarrow> nat \<Rightarrow> mem \<Rightarrow> mem option" where
  "id_field m n pat =
     (case search_from m n 0 pat of None \<Rightarrow> Some (replicate 20 0)
      | Some p \<Rightarrow> if n < p + length pat + 20 then None else Some (slice (p + length pat) 20 m))"

definition port_field :: "mem \<Rightarrow> nat \<Rightarrow> nat" where
  "port_field m n =
     (case search_from m n 0 (ascii ''porti'') of None \<Rightarrow> 0
      | Some p \<Rightarrow> let (l, q) = strtol m (p + 5) in if rd m q = 101 \<and> 0 < l \<and> l < 0x10000 then nat l else 0)"

function values_loop :: "mem \<Rightarrow> nat \<Rightarrow> nat \<Rightarrow> mem \<Rightarrow> mem \<Rightarrow> (mem \<times> mem) option" where
  "values_loop m n i vs vs6 =
     (let (l, q) = strtol m i; i' = q + 1 + nat l in
      if rd m q = 58 \<and> 0 < l then
        if n < i' then None
        else values_loop m n i'
               (if l = 6 \<and> length vs + 6 \<le> 2048 then vs @ slice (q + 1) 6 m else vs)
               (if l = 18 \<and> length vs6 + 18 \<le> 2048 then vs6 @ slice (q + 1) 18 m else vs6)
      else Some (vs, vs6))"
  by pat_completeness auto
termination
proof (relation "measure (\<lambda>(m, n, i, vs, vs6). n - i)")
  fix m :: mem and n i :: nat and vs vs6 x l q i'
  assume a: "x = strtol m i" "(l, q) = x" "i' = q + 1 + nat l" "\<not> n < i'"
  have "i \<le> q" using strtol_ge [of i m] a(1,2) by (metis snd_conv)
  then show "((m, n, i', if l = 6 \<and> length vs + 6 \<le> 2048 then vs @ slice (q + 1) 6 m else vs,
       if l = 18 \<and> length vs6 + 18 \<le> 2048 then vs6 @ slice (q + 1) 18 m else vs6), m, n, i, vs, vs6)
     \<in> measure (\<lambda>(m, n, i, vs, vs6). n - i)" using a(3,4) by simp
qed simp

declare values_loop.simps [simp del]

definition values_field :: "mem \<Rightarrow> nat \<Rightarrow> (mem \<times> mem) option" where
  "values_field m n =
     (case search_from m n 0 (ascii ''6:valuesl'') of None \<Rightarrow> Some ([], [])
      | Some p \<Rightarrow> values_loop m n (p + 9) [] [])"

function want_loop :: "mem \<Rightarrow> nat \<Rightarrow> nat \<Rightarrow> int \<Rightarrow> int" where
  "want_loop m n i want =
     (let d = unat (rd m i) - 48 in
      if 48 < rd m i \<and> rd m i \<le> 57 \<and> rd m (i + 1) = 58 \<and> i + 2 + d < n then
        want_loop m n (i + 2 + d)
          (if rd m i = 50 \<and> slice (i + 2) 2 m = ascii ''n4'' then want OR 1
           else if rd m i = 50 \<and> slice (i + 2) 2 m = ascii ''n6'' then want OR 2 else want)
      else want)"
  by pat_completeness auto
termination by (relation "measure (\<lambda>(m, n, i, want). n - i)") auto

declare want_loop.simps [simp del]

definition want_field :: "mem \<Rightarrow> nat \<Rightarrow> int" where
  "want_field m n =
     (case search_from m n 0 (ascii ''4:wantl'') of None \<Rightarrow> - 1 | Some p \<Rightarrow> want_loop m n (p + 7) 0)"

subsection \<open>The messages of the DHT\<close>

datatype message = ERROR | REPLY | PING | FIND_NODE | GET_PEERS | ANNOUNCE_PEER

record parsed =
  pm_type :: message
  pm_tid :: mem
  pm_id :: mem
  pm_info_hash :: mem
  pm_port :: nat
  pm_target :: mem
  pm_token :: mem
  pm_nodes :: mem
  pm_nodes6 :: mem
  pm_values :: mem
  pm_values6 :: mem
  pm_want :: int

definition message_type :: "mem \<Rightarrow> nat \<Rightarrow> message option" where
  "message_type m n =
     (let has = (\<lambda>pat. search_from m n 0 (ascii pat) \<noteq> None) in
      if has ''1:y1:r'' then Some REPLY
      else if has ''1:y1:e'' then Some ERROR
      else if \<not> has ''1:y1:q'' then None
      else if has ''1:q4:ping'' then Some PING
      else if has ''1:q9:find_node'' then Some FIND_NODE
      else if has ''1:q9:get_peers'' then Some GET_PEERS
      else if has ''1:q13:announce_peer'' then Some ANNOUNCE_PEER
      else None)"

text \<open>
  \<open>tid0\<close> is what the caller's buffer for the transaction identifier holds (\<^verbatim>\<open>tid_len\<close> bytes of it):
  it stays when the message has no such field. The result \<open>None\<close> is -1.
\<close>

definition parse_message :: "mem \<Rightarrow> nat \<Rightarrow> mem \<Rightarrow> parsed option" where
  "parse_message m n tid0 =
     (if rd m n \<noteq> 0 then None
      else do {
        tid \<leftarrow> string_field m n (ascii ''1:t'') (length tid0) tid0;
        x \<leftarrow> id_field m n (ascii ''2:id20:'');
        h \<leftarrow> id_field m n (ascii ''9:info_hash20:'');
        target \<leftarrow> id_field m n (ascii ''6:target20:'');
        token \<leftarrow> string_field m n (ascii ''5:token'') 128 [];
        nodes \<leftarrow> string_field m n (ascii ''5:nodes'') 256 [];
        nodes6 \<leftarrow> string_field m n (ascii ''6:nodes6'') 1024 [];
        (vs, vs6) \<leftarrow> values_field m n;
        t \<leftarrow> message_type m n;
        Some \<lparr>pm_type = t, pm_tid = tid, pm_id = x, pm_info_hash = h, pm_port = port_field m n,
          pm_target = target, pm_token = token, pm_nodes = nodes, pm_nodes6 = nodes6,
          pm_values = vs, pm_values6 = vs6, pm_want = want_field m n\<rparr> })"

subsection \<open>The DTN messages\<close>

text \<open>A list of endpoint identifiers: the number of bytes consumed, and the list.\<close>

function parse_dtn_eid_list :: "mem \<Rightarrow> nat \<Rightarrow> nat \<Rightarrow> (nat \<times> mem list) option" where
  "parse_dtn_eid_list m p len =
     (if rd m p = 101 then Some (0, [])
      else let (l, q) = strtol m p in
        if rd m q = 58 \<and> 0 < l then
          if p + len < q + 1 + nat l then None
          else let used = q + 1 + nat l - p in
            map_option (\<lambda>(k, es). (k + used, slice (q + 1) (nat l) m # (if k = 0 then [] else es)))
              (parse_dtn_eid_list m (q + 1 + nat l) (len - used))
        else Some (0, []))"
  by pat_completeness auto
termination
proof (relation "measure (\<lambda>(m, p, len). len)")
  fix m :: mem and p len :: nat and x l q u
  assume a: "x = strtol m p" "(l, q) = x" "\<not> p + len < q + 1 + nat l" "u = q + 1 + nat l - p"
  have "p \<le> q" using strtol_ge [of p m] a(1,2) by (metis snd_conv)
  then show "((m, q + 1 + nat l, len - u), m, p, len) \<in> measure (\<lambda>(m, p, len). len)" using a(3,4) by simp
qed simp

declare parse_dtn_eid_list.simps [simp del]

text \<open>The bytes before the next \<open>c\<close>, at most \<open>len\<close>.\<close>

definition scan_to :: "byte \<Rightarrow> mem \<Rightarrow> nat \<Rightarrow> nat \<Rightarrow> nat" where
  "scan_to c m p len = length (takeWhile (\<lambda>b. b \<noteq> c) (slice p len m))"

function parse_dtn_convergence_layer_args :: "mem \<Rightarrow> nat \<Rightarrow> nat \<Rightarrow> (nat \<times> cl_arg list) option" where
  "parse_dtn_convergence_layer_args m p len =
     (let keylen = scan_to 61 m p len;
          valuelen = scan_to 59 m (p + keylen + 1) (len - (keylen + 1));
          result = keylen + valuelen + 2;
          arg = \<lparr>arg_key = slice p keylen m, arg_value = slice (p + keylen + 1) valuelen m\<rparr>
      in if rd m (p + keylen) \<noteq> 61 then None
         else if rd m (p + keylen + 1 + valuelen) \<noteq> 59 then None
         else if result < len then
           map_option (\<lambda>(rc, args). (result + rc, arg # (if rc > 0 then args else [])))
             (parse_dtn_convergence_layer_args m (p + result) (len - result))
         else Some (result, [arg]))"
  by pat_completeness auto
termination by (relation "measure (\<lambda>(m, p, len). len)") auto

declare parse_dtn_convergence_layer_args.simps [simp del]

text \<open>\<^verbatim>\<open>inet_ntop\<close> of the C library.\<close>

definition ntop4 :: "mem \<Rightarrow> mem" where
  "ntop4 a = dec (unat (rd a 0)) @ ascii ''.'' @ dec (unat (rd a 1)) @ ascii ''.'' @
     dec (unat (rd a 2)) @ ascii ''.'' @ dec (unat (rd a 3))"

definition hex_digit :: "nat \<Rightarrow> byte" where
  "hex_digit d = word_of_nat (if d < 10 then 48 + d else 87 + d)"

fun hex :: "nat \<Rightarrow> mem" where
  "hex w = (if w < 16 then [hex_digit w] else hex (w div 16) @ [hex_digit (w mod 16)])"

declare hex.simps [simp del]

text \<open>The first longest run of zero words: its start and length.\<close>

fun zero_run :: "nat \<Rightarrow> nat list \<Rightarrow> nat \<times> nat \<Rightarrow> nat \<times> nat" where
  "zero_run i [] best = best"
| "zero_run i (w # ws) best =
     (let k = length (takeWhile (\<lambda>w. w = 0) (w # ws))
      in zero_run (Suc i) ws (if snd best < k then (i, k) else best))"

fun ntop6_words :: "mem \<Rightarrow> nat \<times> nat \<Rightarrow> nat \<Rightarrow> nat list \<Rightarrow> mem" where
  "ntop6_words a (z, k) i [] = (if 0 < k \<and> z + k = 8 then ascii '':'' else [])"
| "ntop6_words a (z, k) i (w # ws) =
     (if z \<le> i \<and> i < z + k then (if i = z then ascii '':'' else []) @ ntop6_words a (z, k) (Suc i) ws
      else (if i \<noteq> 0 then ascii '':'' else []) @
        (if i = 6 \<and> z = 0 \<and> (k = 6 \<or> k = 5 \<and> rd a 10 = 255 \<and> rd a 11 = 255) then ntop4 (drop 12 a)
         else hex w @ ntop6_words a (z, k) (Suc i) ws))"

definition ntop6 :: "mem \<Rightarrow> mem" where
  "ntop6 a =
     (let ws = map (\<lambda>i. 256 * unat (rd a (2 * i)) + unat (rd a (2 * i + 1))) [0..<8];
          (z, k) = zero_run 0 ws (0, 0)
      in ntop6_words a (if k < 2 then (0, 0) else (z, k)) 0 ws)"

definition sender_ip :: "mem \<Rightarrow> mem" where
  "sender_ip sa =
     (if sa_family sa = AF_INET then ntop4 (sin_addr sa)
      else if sa_family sa = AF_INET6 then ntop6 (sin6_addr sa) else [])"

definition is_ip_layer :: "mem \<Rightarrow> bool" where
  "is_ip_layer name \<longleftrightarrow>
     take (min (length name) 3) name = take (min (length name) 3) (ascii ''tcp'') \<or>
     take (min (length name) 3) name = take (min (length name) 3) (ascii ''udp'')"

text \<open>
  The convergence layers. Two failures differ: \<open>Freed\<close> has already released the structure the
  caller passed, \<open>Malformed\<close> has not.
\<close>

datatype cl_error = Malformed | Freed

function parse_dtn_convergence_layer ::
  "mem \<Rightarrow> nat \<Rightarrow> nat \<Rightarrow> mem \<Rightarrow> cl_error + (nat \<times> convergence_layer list)" where
  "parse_dtn_convergence_layer m p len sa =
     (if rd m p = 101 then Inr (0, [])
      else let (l, q) = strtol m p in
        if \<not> (rd m q = 58 \<and> 5 < l) then Inl Malformed
        else if p + len < q + 1 + nat l then Inl Malformed
        else if slice (q + 1) 5 m \<noteq> ascii ''name='' then Inl Malformed
        else
          let namelen = scan_to 59 m (q + 6) (nat l - 6);
              name = (if rd m (q + 6 + namelen) = 59 then slice (q + 6) namelen m else [])
          in case parse_dtn_convergence_layer_args m (q + 6 + namelen + 1) (nat l - namelen - 6) of
               None \<Rightarrow> Inl Malformed
             | Some (_, args) \<Rightarrow>
                 let layer = \<lparr>clname = name,
                       cl_args = (if is_ip_layer name
                         then \<lparr>arg_key = ascii ''ip'', arg_value = sender_ip sa\<rparr> # args else args)\<rparr>
                 in case parse_dtn_convergence_layer m (q + nat l + 1) (p + len - (q + nat l + 1)) sa of
                      Inl _ \<Rightarrow> Inl Freed
                    | Inr (pos, layers) \<Rightarrow> Inr (nat l + pos, layer # (if pos = 0 then [] else layers)))"
  by pat_completeness auto
termination
proof (relation "measure (\<lambda>(m, p, len, sa). len)")
  fix m :: mem and p len :: nat and sa x l q
  assume a: "x = strtol m p" "(l, q) = x" "\<not> p + len < q + 1 + nat l"
  have "p \<le> q" using strtol_ge [of p m] a(1,2) by (metis snd_conv)
  then show "((m, q + nat l + 1, p + len - (q + nat l + 1), sa), m, p, len, sa) \<in> measure (\<lambda>(m, p, len, sa). len)"
    using a(3) by simp
qed simp

declare parse_dtn_convergence_layer.simps [simp del]

text \<open>
  The outcome: no DTN message (-1), a query for an identifier, a reply, or the release of a
  structure that has been released before. The buffer of the transaction identifier is threaded.
\<close>

datatype dtn_parse =
    Dtn_none mem
  | Dtn_query mem mem
  | Dtn_reply mem lookup_result
  | Dtn_double_free

definition parse_dtn_query :: "mem \<Rightarrow> nat \<Rightarrow> mem \<Rightarrow> dtn_parse" where
  "parse_dtn_query m n tid0 =
     (let (l, q) = strtol m 10 in
      if \<not> (rd m q = 58 \<and> 0 < l) then Dtn_none tid0
      else if n < q + 1 + nat l then Dtn_none tid0
      else (case string_field m n (ascii ''e1:q3:dtn1:t'') (length tid0) tid0 of
              None \<Rightarrow> Dtn_none tid0
            | Some tid \<Rightarrow> Dtn_query tid (slice (q + 1) (nat l) m)))"

definition parse_reply_tid :: "mem \<Rightarrow> nat \<Rightarrow> nat \<Rightarrow> mem \<Rightarrow> lookup_result \<Rightarrow> dtn_parse" where
  "parse_reply_tid m n pos tid0 r =
     (case search_from m n pos (ascii ''e1:t'') of None \<Rightarrow> Dtn_none tid0
      | Some p \<Rightarrow> (case string_at m n (p + 4) (length tid0) of None \<Rightarrow> Dtn_none tid0
                   | Some tid \<Rightarrow> if tid = [] then Dtn_none [] else Dtn_reply tid r))"

definition parse_reply_lists :: "mem \<Rightarrow> nat \<Rightarrow> nat \<Rightarrow> mem \<Rightarrow> mem \<Rightarrow> convergence_layer list \<Rightarrow> dtn_parse" where
  "parse_reply_lists m n pos tid0 eid layers =
     (case do {
        p \<leftarrow> search_from m n pos (ascii ''2:grl'');
        (k, groups) \<leftarrow> parse_dtn_eid_list m (p + 5) (n - (p + 5));
        p \<leftarrow> search_from m n (p + 5 + k) (ascii ''e2:nbl'');
        (j, neighbours) \<leftarrow> parse_dtn_eid_list m (p + 6) (n - (p + 6));
        Some (p + 6 + j, \<lparr>lr_eid = Some eid, lr_groups = groups, lr_neighbours = neighbours, lr_clayer = layers\<rparr>) } of
        None \<Rightarrow> Dtn_none tid0
      | Some (pos, r) \<Rightarrow> parse_reply_tid m n pos tid0 r)"

definition parse_dtn_reply :: "mem \<Rightarrow> nat \<Rightarrow> mem \<Rightarrow> mem \<Rightarrow> dtn_parse" where
  "parse_dtn_reply m n sa tid0 =
     (case parse_dtn_convergence_layer m 10 (n - 10) sa of
        Inl Freed \<Rightarrow> Dtn_double_free
      | Inl Malformed \<Rightarrow> Dtn_none tid0
      | Inr (k, layers) \<Rightarrow>
          if k = 0 then Dtn_none tid0
          else (case search_from m n (10 + k) (ascii ''e3:eid'') of None \<Rightarrow> Dtn_none tid0
                | Some p \<Rightarrow>
                    let (l, q) = strtol m (p + 6) in
                    if \<not> (rd m q = 58 \<and> 5 < l) then Dtn_none tid0
                    else if n < q + 1 + nat l then Dtn_none tid0
                    else parse_reply_lists m n (p + 6 + nat l) tid0 (slice (q + 1) (nat l) m) layers))"

definition parse_dtn_message :: "mem \<Rightarrow> nat \<Rightarrow> mem \<Rightarrow> mem \<Rightarrow> dtn_parse" where
  "parse_dtn_message m n sa tid0 =
     (if rd m n \<noteq> 0 then Dtn_none tid0
      else if take 10 m = ascii ''d1:ad3:eid'' then parse_dtn_query m n tid0
      else if take 10 m = ascii ''d1:rd2:cll'' then parse_dtn_reply m n sa tid0
      else Dtn_none tid0)"

subsection \<open>What a search finds\<close>

lemma memmem_at_SomeD:
  "memmem_at h nd = Some p \<Longrightarrow> take (length nd) (drop p h) = nd \<and> p \<le> length h"
  by (induction h nd arbitrary: p rule: memmem_at.induct) (auto split: if_splits)

lemma dht_memmem_SomeD:
  assumes "dht_memmem h nd = Some p"
  shows "slice p (length nd) h = nd" "p + length nd \<le> length h"
proof -
  have m: "take (length nd) (drop p h) = nd" "p \<le> length h"
    using assms memmem_at_SomeD [of h nd p] by (auto simp: dht_memmem_def split: if_splits)
  then show "slice p (length nd) h = nd" by (simp add: slice_def)
  from arg_cong [OF m(1), of length] show "p + length nd \<le> length h" using m(2) by (simp add: min_def split: if_splits)
qed

lemma search_from_SomeD:
  assumes "search_from m n p nd = Some k"
  shows "p \<le> k" "nd \<noteq> [] \<Longrightarrow> k + length nd \<le> n" "k + length nd \<le> length m \<or> nd = []"
proof -
  obtain j where j: "dht_memmem (slice p (n - p) m) nd = Some j" "k = p + j"
    using assms by (auto simp: search_from_def)
  note d = dht_memmem_SomeD [OF j(1)]
  show "p \<le> k" using j(2) by simp
  have l: "j + length nd \<le> min (n - p) (length m - p)" using d(2) by simp
  show "k + length nd \<le> n" if "nd \<noteq> []"
  proof -
    from that have "0 < length nd" by simp
    then show ?thesis using l j(2) by linarith
  qed
  show "k + length nd \<le> length m \<or> nd = []"
  proof (cases nd)
    case (Cons a as)
    then have "0 < length nd" by simp
    then show ?thesis using l j(2) by linarith
  qed simp
qed

lemma string_at_bound: "string_at m n p lim = Some bs \<Longrightarrow> bs = [] \<or> length bs < lim"
  by (auto simp: string_at_def split: prod.splits if_splits)

lemma string_field_bound: "string_field m n pat lim dflt = Some bs \<Longrightarrow> bs = dflt \<or> bs = [] \<or> length bs < lim"
  by (auto simp: string_field_def split: option.splits dest: string_at_bound)

lemma id_field_valid:
  assumes "id_field m n pat = Some x" "n \<le> length m"
  shows "length x = 20"
  using assms by (auto simp: id_field_def split: option.splits if_splits)

lemma port_field_bound: "port_field m n < 65536"
  by (auto simp: port_field_def split: option.splits prod.splits)

lemma values_loop_bound:
  "values_loop m n i vs vs6 = Some (ws, ws6) \<Longrightarrow> n \<le> length m \<Longrightarrow>
     length vs \<le> 2048 \<Longrightarrow> 6 dvd length vs \<Longrightarrow> length vs6 \<le> 2048 \<Longrightarrow> 18 dvd length vs6 \<Longrightarrow>
     length ws \<le> 2048 \<and> 6 dvd length ws \<and> length ws6 \<le> 2048 \<and> 18 dvd length ws6"
proof (induction m n i vs vs6 rule: values_loop.induct)
  case (1 m n i vs vs6)
  obtain l q where lq: "strtol m i = (l, q)" by fastforce
  show ?case
  proof (cases "rd m q = 58 \<and> 0 < l")
    case False
    then show ?thesis using "1.prems" by (subst (asm) values_loop.simps) (auto simp: lq)
  next
    case True
    let ?vs = "if l = 6 \<and> length vs + 6 \<le> 2048 then vs @ slice (q + 1) 6 m else vs"
    let ?vs6 = "if l = 18 \<and> length vs6 + 18 \<le> 2048 then vs6 @ slice (q + 1) 18 m else vs6"
    have e: "values_loop m n i vs vs6 =
        (if n < q + 1 + nat l then None else values_loop m n (q + 1 + nat l) ?vs ?vs6)"
      using True by (subst values_loop.simps) (simp only: lq Let_def prod.case simp_thms if_True)
    have n: "\<not> n < q + 1 + nat l"
    proof
      assume "n < q + 1 + nat l"
      then show False using "1.prems"(1) unfolding e by (simp only: if_True) simp
    qed
    then have r: "values_loop m n (q + 1 + nat l) ?vs ?vs6 = Some (ws, ws6)"
      using "1.prems"(1) unfolding e by (simp only: if_False)
    have "length ?vs \<le> 2048" "6 dvd length ?vs" "length ?vs6 \<le> 2048" "18 dvd length ?vs6"
      using "1.prems"(2-6) n True by auto
    with "1.IH" [OF lq [symmetric] refl refl True n r "1.prems"(2)] show ?thesis by simp
  qed
qed

lemma want_loop_bound: "want \<in> {0, 1, 2, 3} \<Longrightarrow> want_loop m n i want \<in> {0, 1, 2, 3}"
proof (induction m n i want rule: want_loop.induct)
  case (1 m n i want)
  have "want OR 1 \<in> {0, 1, 2, 3}" "want OR 2 \<in> {0, 1, 2, 3}" using "1.prems" by auto
  then show ?case using 1 by (subst want_loop.simps) (auto simp: Let_def)
qed

lemma parse_message_lengths:
  assumes "parse_message m n tid0 = Some p" "n < length m"
  shows "(pm_tid p = tid0 \<or> length (pm_tid p) < length tid0 \<or> pm_tid p = []) \<and> length (pm_id p) = 20 \<and>
    length (pm_info_hash p) = 20 \<and> length (pm_target p) = 20 \<and> length (pm_token p) < 128 \<and>
    length (pm_nodes p) < 256 \<and> length (pm_nodes6 p) < 1024 \<and>
    length (pm_values p) \<le> 2048 \<and> 6 dvd length (pm_values p) \<and>
    length (pm_values6 p) \<le> 2048 \<and> 18 dvd length (pm_values6 p) \<and>
    pm_port p < 65536 \<and> pm_want p \<in> {- 1, 0, 1, 2, 3}"
proof -
  have n: "n \<le> length m" using assms(2) by simp
  obtain tid x h target token nodes nodes6 vs vs6 t where
    f: "string_field m n (ascii ''1:t'') (length tid0) tid0 = Some tid"
       "id_field m n (ascii ''2:id20:'') = Some x" "id_field m n (ascii ''9:info_hash20:'') = Some h"
       "id_field m n (ascii ''6:target20:'') = Some target"
       "string_field m n (ascii ''5:token'') 128 [] = Some token"
       "string_field m n (ascii ''5:nodes'') 256 [] = Some nodes"
       "string_field m n (ascii ''6:nodes6'') 1024 [] = Some nodes6" "values_field m n = Some (vs, vs6)"
    and p: "p = \<lparr>pm_type = t, pm_tid = tid, pm_id = x, pm_info_hash = h, pm_port = port_field m n,
          pm_target = target, pm_token = token, pm_nodes = nodes, pm_nodes6 = nodes6,
          pm_values = vs, pm_values6 = vs6, pm_want = want_field m n\<rparr>"
    using assms(1) by (auto simp: parse_message_def split: if_splits bind_splits)
  have v: "length vs \<le> 2048 \<and> 6 dvd length vs \<and> length vs6 \<le> 2048 \<and> 18 dvd length vs6"
    using f(8) values_loop_bound [OF _ n] by (auto simp: values_field_def split: option.splits)
  have w: "want_field m n \<in> {- 1, 0, 1, 2, 3}"
  proof (cases "search_from m n 0 (ascii ''4:wantl'')")
    case (Some k)
    have "want_loop m n (k + 7) 0 \<in> {0, 1, 2, 3}" by (rule want_loop_bound) simp
    then show ?thesis by (auto simp: want_field_def Some)
  qed (simp add: want_field_def)
  have s: "tid = tid0 \<or> length tid < length tid0 \<or> tid = []" "length token < 128" "length nodes < 256"
    "length nodes6 < 1024"
    using string_field_bound [OF f(1)] string_field_bound [OF f(5)] string_field_bound [OF f(6)]
      string_field_bound [OF f(7)] by auto
  show ?thesis
    using v w s id_field_valid [OF f(2) n] id_field_valid [OF f(3) n] id_field_valid [OF f(4) n]
      port_field_bound [of m n] unfolding p by (simp only: parsed.simps simp_thms)
qed

subsection \<open>Properties\<close>

text \<open>
  C5: \<^verbatim>\<open>parse_message\<close> never stores more than its caller's buffers hold. In a buffer that contains the
  terminating zero, whatever the bytes of the message are, the identifiers are exactly 20 bytes, the
  transaction identifier is shorter than the caller's buffer (or untouched), the token shorter than 128,
  the nodes than 256 and 1024, the values fit in 2048 bytes in whole records of 6 and 18, the port
  fits 16 bits, and the wanted families are -1 or a combination of the two flags.
\<close>

theorem parse_message_bounds:
  assumes "parse_message m n tid0 = Some p" "n < length m"
  shows "(pm_tid p = tid0 \<or> length (pm_tid p) < length tid0 \<or> pm_tid p = []) \<and> length (pm_id p) = 20 \<and>
    length (pm_info_hash p) = 20 \<and> length (pm_target p) = 20 \<and> length (pm_token p) < 128 \<and>
    length (pm_nodes p) < 256 \<and> length (pm_nodes6 p) < 1024 \<and>
    length (pm_values p) \<le> 2048 \<and> 6 dvd length (pm_values p) \<and>
    length (pm_values6 p) \<le> 2048 \<and> 18 dvd length (pm_values6 p) \<and>
    pm_port p < 65536 \<and> pm_want p \<in> {- 1, 0, 1, 2, 3}"
  using assms by (rule parse_message_lengths)

lemma parse_message_bounds_witness:
  "\<exists>p. parse_message (ascii ''1:y1:r'' @ [0]) 6 (replicate 16 0) = Some p \<and> length (pm_id p) = 20"
proof -
  obtain p where p: "parse_message (ascii ''1:y1:r'' @ [0]) 6 (replicate 16 0) = Some p"
  proof -
    have "parse_message (ascii ''1:y1:r'' @ [0]) 6 (replicate 16 0) \<noteq> None" by code_simp
    then show thesis using that by auto
  qed
  have "6 < length (ascii ''1:y1:r'' @ [0])" by (simp add: ascii_def)
  from parse_message_bounds [OF p this] have "length (pm_id p) = 20" by blast
  with p show ?thesis by blast
qed

end
