(* ===== verification/Periodic.thy ===== *)
theory Periodic
  imports Replies Parser
begin

text \<open>
  The main loop of \<^verbatim>\<open>dht.c\<close>: \<^verbatim>\<open>dht_periodic\<close>, cut into the handlers of the messages and the timed
  work, with \<^verbatim>\<open>dht_init\<close>, \<^verbatim>\<open>dht_uninit\<close> and the endpoint identifiers of this node.
\<close>

subsection \<open>Replies\<close>

text \<open>The nodes of a reply: into the table, and into the search they answer (\<open>k\<close>) when of its family.\<close>

fun learn_nodes :: "nat \<Rightarrow> nat option \<Rightarrow> (mem \<times> mem) list \<Rightarrow> nat \<Rightarrow> 'a dht_scheme \<Rightarrow> 'a dht_scheme" where
  "learn_nodes af k [] salen s = s"
| "learn_nodes af k ((x, sa) # ns) salen s =
     (if id_cmp x (myid s) = 0 then learn_nodes af k ns salen s
      else
        let s = snd (new_node x sa salen 0 s);
            s = (case k of None \<Rightarrow> s
                 | Some k \<Rightarrow> if sr_af (searches s ! k) = af
                     then upd_search k (\<lambda>sr. snd (insert_search_node x sa salen False None (now s) sr)) s
                     else s)
        in learn_nodes af k ns salen s)"

definition split_nodes :: "mem \<Rightarrow> (mem \<times> mem) list" where
  "split_nodes m = map (\<lambda>i. (slice (26 * i) 20 m, mk_sin (slice (26 * i + 20) 4 m) (slice (26 * i + 24) 2 m)))
     [0..<length m div 26]"

definition split_nodes6 :: "mem \<Rightarrow> (mem \<times> mem) list" where
  "split_nodes6 m = map (\<lambda>i. (slice (38 * i) 20 m, mk_sin6 (slice (38 * i + 20) 16 m) (slice (38 * i + 36) 2 m)))
     [0..<length m div 38]"

definition ask_next :: "nat option \<Rightarrow> 'a dht_scheme \<Rightarrow> 'a dht_scheme" where
  "ask_next k s = (case k of None \<Rightarrow> s | Some k \<Rightarrow> snd (search_send_get_peers k None s))"

definition call_back ::
  "'a callback option \<Rightarrow> dht_event \<Rightarrow> nat \<Rightarrow> mem \<Rightarrow> mem \<Rightarrow> nat \<Rightarrow> 'a dht_scheme \<Rightarrow> 'a dht_scheme" where
  "call_back cb ev k values sa salen s =
     (case cb of None \<Rightarrow> s
      | Some f \<Rightarrow> if values \<noteq> [] then f ev (sr_id (searches s ! k)) values sa salen s else s)"

definition search_replied ::
  "parsed \<Rightarrow> mem \<Rightarrow> nat \<Rightarrow> nat \<Rightarrow> 'a callback option \<Rightarrow> 'a dht_scheme \<Rightarrow> 'a dht_scheme" where
  "search_replied p sa salen k cb s =
     (let s = upd_search k (\<lambda>sr. snd (insert_search_node (pm_id p) sa salen True (Some (pm_token p)) (now s) sr)) s;
          s = call_back cb DHT_EVENT_VALUES k (pm_values p) sa salen s
      in call_back cb DHT_EVENT_VALUES6 k (pm_values6 p) sa salen s)"

definition handle_nodes_reply ::
  "parsed \<Rightarrow> mem \<Rightarrow> nat \<Rightarrow> 'a callback option \<Rightarrow> 'a dht_scheme \<Rightarrow> 'a dht_scheme" where
  "handle_nodes_reply p sa salen cb s =
     (let gp = tid_match (pm_tid p) (ascii ''gp'');
          k = (case gp of None \<Rightarrow> None | Some t \<Rightarrow> find_search t (sa_family sa) s);
          s = (if length (pm_nodes p) mod 26 \<noteq> 0 \<or> length (pm_nodes6 p) mod 38 \<noteq> 0
               then blacklist_node (Some (pm_id p)) sa salen s
               else if gp \<noteq> None \<and> k = None then snd (new_node (pm_id p) sa salen 1 s)
               else
                 let s = snd (new_node (pm_id p) sa salen 2 s);
                     s = learn_nodes AF_INET k (split_nodes (pm_nodes p)) sizeof_sin s;
                     s = learn_nodes AF_INET6 k (split_nodes6 (pm_nodes6 p)) sizeof_sin6 s
                 in ask_next k s)
      in case k of None \<Rightarrow> s | Some k \<Rightarrow> search_replied p sa salen k cb s)"

definition ack_node :: "mem \<Rightarrow> int \<Rightarrow> search_node list \<Rightarrow> search_node list" where
  "ack_node x t ns =
     (case find_index (\<lambda>n. id_cmp (sn_id n) x = 0) ns of None \<Rightarrow> ns
      | Some i \<Rightarrow> update_at i
          (\<lambda>n. n\<lparr>sn_request_time := 0, sn_reply_time := t, sn_acked := True, sn_pinged := 0\<rparr>) ns)"

definition handle_announce_reply :: "parsed \<Rightarrow> 16 word \<Rightarrow> mem \<Rightarrow> nat \<Rightarrow> 'a dht_scheme \<Rightarrow> 'a dht_scheme" where
  "handle_announce_reply p ttid sa salen s =
     (case find_search ttid (sa_family sa) s of
        None \<Rightarrow> snd (new_node (pm_id p) sa salen 1 s)
      | Some k \<Rightarrow>
          let s = snd (new_node (pm_id p) sa salen 2 s);
              s = upd_search k (\<lambda>sr. sr\<lparr>sr_nodes := ack_node (pm_id p) (now s) (sr_nodes sr)\<rparr>) s
          in ask_next (Some k) s)"

definition handle_reply ::
  "parsed \<Rightarrow> mem \<Rightarrow> nat \<Rightarrow> 'a callback option \<Rightarrow> 'a dht_scheme \<Rightarrow> 'a dht_scheme" where
  "handle_reply p sa salen cb s =
     (if length (pm_tid p) \<noteq> 4 then blacklist_node (Some (pm_id p)) sa salen s
      else if tid_match (pm_tid p) (ascii ''pn'') \<noteq> None then snd (new_node (pm_id p) sa salen 2 s)
      else if tid_match (pm_tid p) (ascii ''fn'') \<noteq> None \<or> tid_match (pm_tid p) (ascii ''gp'') \<noteq> None
      then handle_nodes_reply p sa salen cb s
      else (case tid_match (pm_tid p) (ascii ''ap'') of None \<Rightarrow> s
            | Some ttid \<Rightarrow> handle_announce_reply p ttid sa salen s))"

subsection \<open>Requests\<close>

definition answer_get_peers :: "parsed \<Rightarrow> mem \<Rightarrow> nat \<Rightarrow> 'a dht_scheme \<Rightarrow> 'a dht_scheme" where
  "answer_get_peers p sa salen s =
     (if id_cmp (pm_info_hash p) zeroes = 0
      then snd (send_error sa salen (pm_tid p) 203 (ascii ''Get_peers with no info_hash'') s)
      else
        case make_token sa False s of None \<Rightarrow> c_abort s
        | Some token \<Rightarrow>
            (case find_storage (pm_info_hash p) s of
               Some i \<Rightarrow> if st_peers (storages s ! i) \<noteq> []
                 then snd (send_closest_nodes sa salen (pm_tid p) (pm_info_hash p) (pm_want p) (sa_family sa)
                        (Some (storages s ! i)) token s)
                 else snd (send_closest_nodes sa salen (pm_tid p) (pm_info_hash p) (pm_want p) 0 None token s)
             | None \<Rightarrow> snd (send_closest_nodes sa salen (pm_tid p) (pm_info_hash p) (pm_want p) 0 None token s)))"

definition answer_announce_peer :: "parsed \<Rightarrow> mem \<Rightarrow> nat \<Rightarrow> 'a dht_scheme \<Rightarrow> 'a dht_scheme" where
  "answer_announce_peer p sa salen s =
     (if id_cmp (pm_info_hash p) zeroes = 0
      then snd (send_error sa salen (pm_tid p) 203 (ascii ''Announce_peer with no info_hash'') s)
      else case token_match (pm_token p) sa s of
        None \<Rightarrow> c_abort s
      | Some False \<Rightarrow> snd (send_error sa salen (pm_tid p) 203 (ascii ''Announce_peer with wrong token'') s)
      | Some True \<Rightarrow>
          if pm_port p = 0
          then snd (send_error sa salen (pm_tid p) 203 (ascii ''Announce_peer with forbidden port number'') s)
          else snd (send_peer_announced sa salen (pm_tid p) (snd (storage_store (pm_info_hash p) sa (pm_port p) s))))"

definition handle_message ::
  "parsed \<Rightarrow> mem \<Rightarrow> nat \<Rightarrow> 'a callback option \<Rightarrow> 'a dht_scheme \<Rightarrow> 'a dht_scheme" where
  "handle_message p sa salen cb s =
     (case pm_type p of
        ERROR \<Rightarrow> s
      | REPLY \<Rightarrow> handle_reply p sa salen cb s
      | PING \<Rightarrow> snd (send_pong sa salen (pm_tid p) (snd (new_node (pm_id p) sa salen 1 s)))
      | FIND_NODE \<Rightarrow> snd (send_closest_nodes sa salen (pm_tid p) (pm_target p) (pm_want p) 0 None []
                        (snd (new_node (pm_id p) sa salen 1 s)))
      | GET_PEERS \<Rightarrow> answer_get_peers p sa salen (snd (new_node (pm_id p) sa salen 1 s))
      | ANNOUNCE_PEER \<Rightarrow> answer_announce_peer p sa salen (snd (new_node (pm_id p) sa salen 1 s)))"

text \<open>The checks before the handlers: our own messages, zero identifiers, the rate limit.\<close>

definition dispatch ::
  "parsed option \<Rightarrow> mem \<Rightarrow> nat \<Rightarrow> 'a callback option \<Rightarrow> 'a dht_scheme \<Rightarrow> 'a dht_scheme" where
  "dispatch q sa salen cb s =
     (case q of None \<Rightarrow> s
      | Some p \<Rightarrow>
          if pm_type p = ERROR \<or> id_cmp (pm_id p) zeroes = 0 then s
          else if id_cmp (pm_id p) (myid s) = 0 then s
          else if pm_type p = REPLY then handle_message p sa salen cb s
          else let (ok, s) = token_bucket s in if ok then handle_message p sa salen cb s else s)"

definition same_eid :: "mem \<Rightarrow> 'a dht_scheme \<Rightarrow> bool" where
  "same_eid eid s \<longleftrightarrow> length (dtn_my_eid s) = length eid \<and> memcmp (dtn_my_eid s) eid (length eid) = 0"

text \<open>The packet part of \<^verbatim>\<open>dht_periodic\<close>; the flag says whether it returns early with -1.\<close>

definition receive ::
  "mem \<Rightarrow> nat \<Rightarrow> mem \<Rightarrow> nat \<Rightarrow> mem \<Rightarrow> convergence_layer list \<Rightarrow> 'a callback option \<Rightarrow> 'a dht_scheme \<Rightarrow>
     bool \<times> 'a dht_scheme" where
  "receive buf n sa salen tid0 cls cb s =
     (if is_martian sa then (False, s)
      else
        let (bad, s) = node_blacklisted sa salen s in
        if bad then (False, s)
        else if rd buf n \<noteq> 0 then (True, set_errno EINVAL s)
        else (False,
          case parse_dtn_message buf n sa tid0 of
            Dtn_double_free \<Rightarrow> c_abort s
          | Dtn_query tid eid \<Rightarrow>
              if dtn_my_eid_changed s \<and> \<not> same_eid eid s
              then snd (send_dtninfo sa salen tid (dtn_my_eid s) cls (myneighbours s) (mygroups s) s) else s
          | Dtn_reply tid r \<Rightarrow>
              (case lr_eid r of None \<Rightarrow> s
               | Some eid \<Rightarrow> if same_eid eid s then s else visible (Lookup_result eid r) s)
          | Dtn_none tid \<Rightarrow> dispatch (parse_message buf n tid) sa salen cb s))"

subsection \<open>Timed work\<close>

definition timed_expiry :: "'a dht_scheme \<Rightarrow> 'a dht_scheme" where
  "timed_expiry s =
     (if now s \<ge> expire_stuff_time s
      then expire_searches (expire_storage (expire_buckets AF_INET6 (expire_buckets AF_INET s))) else s)"

fun step_searches :: "nat list \<Rightarrow> 'a callback option \<Rightarrow> 'a dht_scheme \<Rightarrow> 'a dht_scheme" where
  "step_searches [] cb s = s"
| "step_searches (k # ks) cb s =
     step_searches ks cb
       (if \<not> sr_done (searches s ! k) \<and> sr_step_time (searches s ! k) + 5 \<le> now s then search_step k cb s else s)"

fun next_search_time :: "search list \<Rightarrow> 'a dht_scheme \<Rightarrow> 'a dht_scheme" where
  "next_search_time [] s = s"
| "next_search_time (sr # srs) s =
     next_search_time srs
       (if sr_done sr then s
        else let (r, s) = c_random s; tm = sr_step_time sr + 15 + int (r mod 10)
             in if search_time s = 0 \<or> search_time s > tm then s\<lparr>search_time := tm\<rparr> else s)"

definition timed_searches :: "'a callback option \<Rightarrow> 'a dht_scheme \<Rightarrow> 'a dht_scheme" where
  "timed_searches cb s =
     (if search_time s > 0 \<and> now s \<ge> search_time s then
        let s = step_searches [0..<length (searches s)] cb s; s = s\<lparr>search_time := 0\<rparr>
        in next_search_time (searches s) s
      else s)"

definition timed_maintenance :: "'a dht_scheme \<Rightarrow> 'a dht_scheme" where
  "timed_maintenance s =
     (if now s \<ge> confirm_nodes_time s then
        let (soon4, s) = bucket_maintenance AF_INET s;
            (soon6, s) = bucket_maintenance AF_INET6 s;
            (soon, s) =
              (if soon4 \<or> soon6 then (True, s)
               else
                 let (a, s) = (if mybucket_grow_time s \<ge> now s - 150 then neighbourhood_maintenance AF_INET s
                               else (False, s));
                     (b, s) = (if mybucket6_grow_time s \<ge> now s - 150 then neighbourhood_maintenance AF_INET6 s
                               else (False, s))
                 in (a \<or> b, s));
            (r, s) = c_random s
        in s\<lparr>confirm_nodes_time := (if soon then now s + 5 + int (r mod 20) else now s + 60 + int (r mod 120))\<rparr>
      else s)"

definition sleep_time :: "'a dht_scheme \<Rightarrow> int" where
  "sleep_time s =
     (let tosleep = (if confirm_nodes_time s > now s then confirm_nodes_time s - now s else 0)
      in if search_time s > 0 then
           (if search_time s \<le> now s then 0
            else if tosleep > search_time s - now s then search_time s - now s else tosleep)
         else tosleep)"

definition timed_work :: "'a callback option \<Rightarrow> 'a dht_scheme \<Rightarrow> 'a dht_scheme" where
  "timed_work cb s =
     timed_maintenance (timed_searches cb (timed_expiry
       (if now s \<ge> rotate_secrets_time s then rotate_secrets s else s)))"

text \<open>
  \<open>t\<close> is the time \<^verbatim>\<open>gettimeofday\<close> returns, \<open>tid0\<close> the 16 bytes of the stack under \<^verbatim>\<open>tid\<close>. The
  result: the return value and \<^verbatim>\<open>*tosleep\<close>, which stays unset on failure.
\<close>

definition dht_periodic ::
  "mem \<Rightarrow> nat \<Rightarrow> mem \<Rightarrow> nat \<Rightarrow> mem \<Rightarrow> int \<Rightarrow> convergence_layer list \<Rightarrow> 'a callback option \<Rightarrow> 'a dht_scheme \<Rightarrow>
     (int \<times> int option) \<times> 'a dht_scheme" where
  "dht_periodic buf n sa salen tid0 t cls cb s =
     (let s = s\<lparr>now := t\<rparr>;
          (early, s) = (if n > 0 then receive buf n sa salen tid0 cls cb s else (False, s))
      in if early then ((- 1, None), s)
         else let s = timed_work cb s in ((1, Some (sleep_time s)), s))"

subsection \<open>Start and stop\<close>

text \<open>\<open>nb\<close> and \<open>nb6\<close> say whether \<^verbatim>\<open>set_nonblocking\<close> succeeds on the two sockets.\<close>

definition init_socket :: "nat \<Rightarrow> int \<Rightarrow> 'a dht_scheme \<Rightarrow> bool \<times> 'a dht_scheme" where
  "init_socket af sock s =
     (if sock < 0 then (True, s)
      else let (ok, s) = c_calloc s in
        if \<not> ok then (False, set_table af [] s) else (True, set_table af [calloc_bucket af] s))"

definition init_rest :: "int \<Rightarrow> int \<Rightarrow> mem \<Rightarrow> mem option \<Rightarrow> int \<Rightarrow> 'a dht_scheme \<Rightarrow> 'a dht_scheme" where
  "init_rest sock sock6 x v t s =
     (let s = s\<lparr>myid := take 20 x, my_v := map_option (\<lambda>v. ascii ''1:v4:'' @ take 4 v) v, now := t,
                mybucket_grow_time := t, mybucket6_grow_time := t\<rparr>;
          (r, s) = c_random s; s = s\<lparr>confirm_nodes_time := t + int (r mod 3)\<rparr>;
          (r, s) = c_random s;
          s = s\<lparr>search_id := word_of_nat r, search_time := 0, next_blacklisted := 0, token_bucket_time := t,
                token_bucket_tokens := MAX_TOKEN_BUCKET_TOKENS, secret := replicate 8 0\<rparr>;
          s = rotate_secrets s;
          s = s\<lparr>dht_socket := sock, dht_socket6 := sock6\<rparr>
      in expire_buckets AF_INET6 (expire_buckets AF_INET s))"

definition dht_init ::
  "int \<Rightarrow> int \<Rightarrow> mem \<Rightarrow> mem option \<Rightarrow> bool \<Rightarrow> bool \<Rightarrow> int \<Rightarrow> 'a dht_scheme \<Rightarrow> int \<times> 'a dht_scheme" where
  "dht_init sock sock6 x v nb nb6 t s =
     (if dht_socket s \<ge> 0 \<or> dht_socket6 s \<ge> 0 \<or> buckets s \<noteq> [] \<or> buckets6 s \<noteq> []
      then (- 1, set_errno EBUSY s)
      else
        let s = s\<lparr>searches := [], numsearches := 0, storages := [], numstorage := 0,
                  mygroups := [], myneighbours := []\<rparr>;
            (ok, s) = init_socket AF_INET sock s in
        if \<not> ok then (- 1, s)
        else if sock \<ge> 0 \<and> \<not> nb then (- 1, s\<lparr>buckets := []\<rparr>)
        else
          let (ok, s) = init_socket AF_INET6 sock6 s in
          if \<not> ok then (- 1, s)
          else if sock6 \<ge> 0 \<and> \<not> nb6 then (- 1, s\<lparr>buckets := []\<rparr>)
          else (1, init_rest sock sock6 x v t s))"

text \<open>The lists of identifiers are freed but not reset: they dangle until \<^verbatim>\<open>dht_init\<close> resets them.\<close>

definition dht_uninit :: "'a dht_scheme \<Rightarrow> int \<times> 'a dht_scheme" where
  "dht_uninit s =
     (if dht_socket s < 0 \<and> dht_socket6 s < 0 then (- 1, set_errno EINVAL s)
      else (1, s\<lparr>dht_socket := - 1, dht_socket6 := - 1, buckets := [], buckets6 := [],
                 storages := [], searches := []\<rparr>))"

subsection \<open>Our endpoint identifiers\<close>

definition DTN_EID_MAX_LENGTH :: nat where "DTN_EID_MAX_LENGTH = 256"

datatype dtn_dht_lookup_type = SINGLETON | NEIGHBOUR | GROUP

definition dht_set_dtn_eid :: "mem \<Rightarrow> 'a dht_scheme \<Rightarrow> int \<times> 'a dht_scheme" where
  "dht_set_dtn_eid eid s =
     (0, s\<lparr>dtn_my_eid := take (min (length eid) DTN_EID_MAX_LENGTH) eid, dtn_my_eid_changed := True\<rparr>)"

text \<open>\<^verbatim>\<open>list->eidlen == eidlen && memcmp(...) == 0\<close>.\<close>

definition eid_eq :: "mem \<Rightarrow> mem \<Rightarrow> bool" where
  "eid_eq eid e \<longleftrightarrow> length e = length eid \<and> memcmp eid e (length eid) = 0"

definition dht_add_dtn_eid :: "mem \<Rightarrow> dtn_dht_lookup_type \<Rightarrow> 'a dht_scheme \<Rightarrow> int \<times> 'a dht_scheme" where
  "dht_add_dtn_eid eid ty s =
     (case ty of
        SINGLETON \<Rightarrow> dht_set_dtn_eid eid s
      | GROUP \<Rightarrow> if \<exists>e \<in> set (mygroups s). eid_eq eid e then (0, s) else (1, s\<lparr>mygroups := eid # mygroups s\<rparr>)
      | NEIGHBOUR \<Rightarrow> if \<exists>e \<in> set (myneighbours s). eid_eq eid e then (0, s)
          else (1, s\<lparr>myneighbours := eid # myneighbours s\<rparr>))"

fun remove_first_eid :: "mem \<Rightarrow> mem list \<Rightarrow> int \<times> mem list" where
  "remove_first_eid eid [] = (0, [])"
| "remove_first_eid eid (e # es) =
     (if eid_eq eid e then (1, es) else let (r, es) = remove_first_eid eid es in (r, e # es))"

definition remove_dtn_neighbour :: "mem \<Rightarrow> 'a dht_scheme \<Rightarrow> int \<times> 'a dht_scheme" where
  "remove_dtn_neighbour eid s =
     (let (r, es) = remove_first_eid eid (myneighbours s) in (r, s\<lparr>myneighbours := es\<rparr>))"

definition remove_dtn_group :: "mem \<Rightarrow> 'a dht_scheme \<Rightarrow> int \<times> 'a dht_scheme" where
  "remove_dtn_group eid s =
     (let (r, es) = remove_first_eid eid (mygroups s) in (r, s\<lparr>mygroups := es\<rparr>))"

definition dht_remove_dtn_eid :: "mem \<Rightarrow> 'a dht_scheme \<Rightarrow> int \<times> 'a dht_scheme" where
  "dht_remove_dtn_eid eid s =
     (let (r, s) = remove_dtn_neighbour eid s; (r', s) = remove_dtn_group eid s in (r + r', s))"

end
