(* ===== verification/Periodic_Inv.thy ===== *)
theory Periodic_Inv
  imports Periodic
begin

text \<open>
  Every step of the main loop keeps the invariant of the whole state, for every packet and every
  answer of the environment; the program as a machine of its interface calls.
\<close>

subsection \<open>Steps that keep the searches in place\<close>

text \<open>As \<open>kept\<close>, but the candidates of the searches may change.\<close>

definition moved :: "'a mode \<Rightarrow> 'a dht_scheme \<Rightarrow> 'a dht_scheme \<Rightarrow> bool" where
  "moved c s t \<longleftrightarrow> safe c t \<and> myid t = myid s \<and> now t = now s \<and> length (searches t) = length (searches s)"

lemma movedD: "moved c s t \<Longrightarrow> safe c t" "moved c s t \<Longrightarrow> myid t = myid s" "moved c s t \<Longrightarrow> now t = now s"
  "moved c s t \<Longrightarrow> length (searches t) = length (searches s)"
  by (simp_all add: moved_def)

lemma moved_trans: "moved c s t \<Longrightarrow> moved c t u \<Longrightarrow> moved c s u"
  by (simp add: moved_def)

lemma moved_refl: "safe c s \<Longrightarrow> moved c s s"
  by (simp add: moved_def)

lemma kept_moved: "kept c s t \<Longrightarrow> moved c s t"
  using skel_length [of t s] by (simp add: kept_def moved_def)

lemma moved_new_node: "safe c s \<Longrightarrow> good_sa sa n \<Longrightarrow> valid_id x \<Longrightarrow> moved c s (snd (new_node x sa n cf s))"
  by (rule kept_moved) (rule safe_new_node)

lemma moved_upd_search:
  assumes "safe c s" "\<And>sr. search_ok sr \<Longrightarrow> search_ok (f sr)"
  shows "moved c s (upd_search k f s)"
  using safe_upd_search [OF assms(1), of k f] assms(2) by (simp add: moved_def)

lemma moved_insert:
  assumes "safe c s" "valid_id x" "good_sa sa n"
  shows "moved c s (upd_search k (\<lambda>sr. snd (insert_search_node x sa n r tok t sr)) s)"
  using assms by (intro moved_upd_search insert_search_node_ok)

lemma length_searches_blacklist_node:
  assumes "safe c s" "\<And>x. y = Some x \<Longrightarrow> valid_id x" "good_sa sa n"
  shows "length (searches (blacklist_node y sa n s)) = length (searches s)"
proof (cases y)
  case (Some x)
  have "inet (sa_family sa)" "valid_id x" using assms(2,3) Some by auto
  note u = blacklist_mark_step [OF assms(1) this]
  show ?thesis by (simp add: blacklist_node_def Some Let_def table_step_fields(5) [OF u])
qed (simp add: blacklist_node_def)

lemma moved_blacklist_node:
  assumes "safe c s" "valid_id x" "good_sa sa n"
  shows "moved c s (blacklist_node (Some x) sa n s)"
  using safe_blacklist_node [OF assms(1) _ assms(3), of "Some x"]
    length_searches_blacklist_node [OF assms(1) _ assms(3), of "Some x"] assms(2)
  by (simp add: moved_def)

lemma moved_quiet: "safe c s \<Longrightarrow> quiet s t \<Longrightarrow> aborted t = aborted s \<Longrightarrow> moved c s t"
  by (rule kept_moved) (rule safe_quiet)

subsection \<open>Replies\<close>

definition node_list_ok :: "nat \<Rightarrow> nat \<Rightarrow> (mem \<times> mem) list \<Rightarrow> bool" where
  "node_list_ok af n ns \<longleftrightarrow> (\<forall>(x, sa) \<in> set ns. valid_id x \<and> good_sa sa n \<and> sa_family sa = af)"

lemma good_sa_mk_sin6: "length a = 16 \<Longrightarrow> length p = 2 \<Longrightarrow> good_sa (mk_sin6 a p) 28"
  by (simp add: good_sa_def mk_sin6_def sizeof_ss_def sa_family_def rd_def AF_INET_def AF_INET6_def)

lemma family_mk:
  "sa_family (mk_sin a p) = AF_INET" "sa_family (mk_sin6 a p) = AF_INET6"
  by (simp_all add: mk_sin_def mk_sin6_def sa_family_def rd_def AF_INET_def AF_INET6_def)

lemma split_nodes_ok: "node_list_ok AF_INET sizeof_sin (split_nodes m)"
proof -
  have "valid_id (slice (26 * i) 20 m) \<and> good_sa (mk_sin (slice (26 * i + 20) 4 m) (slice (26 * i + 24) 2 m)) sizeof_sin"
    if "i < length m div 26" for i
  proof -
    have l: "26 * i + 26 \<le> length m" using that by (simp add: less_eq_div_iff_mult_less_eq [symmetric] Suc_leI mult.commute)
    then show ?thesis by (simp add: valid_id_def sizeof_sin_def)
  qed
  then show ?thesis by (auto simp: node_list_ok_def split_nodes_def family_mk)
qed

lemma split_nodes6_ok: "node_list_ok AF_INET6 sizeof_sin6 (split_nodes6 m)"
proof -
  have "valid_id (slice (38 * i) 20 m) \<and> good_sa (mk_sin6 (slice (38 * i + 20) 16 m) (slice (38 * i + 36) 2 m)) sizeof_sin6"
    if "i < length m div 38" for i
  proof -
    have l: "38 * i + 38 \<le> length m" using that by (simp add: less_eq_div_iff_mult_less_eq [symmetric] Suc_leI mult.commute)
    then show ?thesis by (simp add: valid_id_def sizeof_sin6_def good_sa_mk_sin6)
  qed
  then show ?thesis by (auto simp: node_list_ok_def split_nodes6_def family_mk)
qed

lemma moved_learn_nodes:
  "safe c s \<Longrightarrow> node_list_ok af n ns \<Longrightarrow> moved c s (learn_nodes af k ns n s)"
proof (induction af k ns n s rule: learn_nodes.induct)
  case (1 af k n s)
  then show ?case by (simp add: moved_refl)
next
  case (2 af k x sa ns n s)
  have ok: "valid_id x" "good_sa sa n" "node_list_ok af n ns" using "2.prems"(2) by (auto simp: node_list_ok_def)
  show ?case
  proof (cases "id_cmp x (myid s) = 0")
    case True
    then show ?thesis using "2.IH"(1) [OF True "2.prems"(1) ok(3)] by simp
  next
    case False
    define u where "u = snd (new_node x sa n 0 s)"
    define v where "v = (case k of None \<Rightarrow> u
      | Some k \<Rightarrow> if sr_af (searches u ! k) = af
          then upd_search k (\<lambda>sr. snd (insert_search_node x sa n False None (now u) sr)) u else u)"
    have u: "moved c s u" unfolding u_def by (rule moved_new_node [OF "2.prems"(1) ok(2,1)])
    have v: "moved c u v"
      using moved_refl [OF movedD(1) [OF u]] moved_insert [OF movedD(1) [OF u] ok(1,2)]
      by (simp add: v_def split: option.split)
    have "moved c v (learn_nodes af k ns n v)"
      by (rule "2.IH"(2) [OF False refl refl, folded u_def, folded v_def, OF movedD(1) [OF v] ok(3)])
    moreover have "learn_nodes af k ((x, sa) # ns) n s = learn_nodes af k ns n v"
      unfolding learn_nodes.simps if_not_P [OF False] Let_def u_def v_def ..
    ultimately show ?thesis using moved_trans [OF u moved_trans [OF v]] by simp
  qed
qed

lemma moved_ask_next:
  assumes "safe c s" "\<And>j. k = Some j \<Longrightarrow> j < length (searches s)"
  shows "moved c s (ask_next k s)"
  using assms kept_moved [OF kept_search_send_get_peers [OF assms(1), of _ None]]
  by (cases k) (simp_all add: ask_next_def moved_refl)

lemma moved_call_back: "safe c s \<Longrightarrow> cb_ok c cb \<Longrightarrow> good_sa sa n \<Longrightarrow> moved c s (call_back cb ev k vs sa n s)"
  by (cases cb) (simp_all add: call_back_def cb_ok_def moved_refl kept_moved)

lemma moved_search_replied:
  assumes "safe c s" "cb_ok c cb" "valid_id (pm_id p)" "good_sa sa n"
  shows "moved c s (search_replied p sa n k cb s)"
proof -
  define u where "u = upd_search k (\<lambda>sr. snd (insert_search_node (pm_id p) sa n True (Some (pm_token p)) (now s) sr)) s"
  define v where "v = call_back cb DHT_EVENT_VALUES k (pm_values p) sa n u"
  have u: "moved c s u" unfolding u_def by (rule moved_insert [OF assms(1,3,4)])
  have v: "moved c u v" unfolding v_def by (rule moved_call_back [OF movedD(1) [OF u] assms(2,4)])
  have "moved c v (call_back cb DHT_EVENT_VALUES6 k (pm_values6 p) sa n v)"
    by (rule moved_call_back [OF movedD(1) [OF v] assms(2,4)])
  with u v show ?thesis unfolding search_replied_def Let_def u_def [symmetric] v_def [symmetric]
    using moved_trans by blast
qed

lemma find_search_less: "find_search t af s = Some k \<Longrightarrow> k < length (searches s)"
  by (auto simp: find_search_def dest: find_index_Some_less)

lemma moved_nodes_reply:
  assumes "safe c s" "cb_ok c cb" "valid_id (pm_id p)" "good_sa sa n"
  shows "moved c s (handle_nodes_reply p sa n cb s)"
proof -
  define gp where "gp = tid_match (pm_tid p) (ascii ''gp'')"
  define k where "k = (case gp of None \<Rightarrow> None | Some t \<Rightarrow> find_search t (sa_family sa) s)"
  have k: "j < length (searches s)" if "k = Some j" for j
    using that by (auto simp: k_def find_search_less split: option.splits)
  define u where "u = snd (new_node (pm_id p) sa n 2 s)"
  define v where "v = learn_nodes AF_INET k (split_nodes (pm_nodes p)) sizeof_sin u"
  define w where "w = learn_nodes AF_INET6 k (split_nodes6 (pm_nodes6 p)) sizeof_sin6 v"
  define y where "y = (if length (pm_nodes p) mod 26 \<noteq> 0 \<or> length (pm_nodes6 p) mod 38 \<noteq> 0
    then blacklist_node (Some (pm_id p)) sa n s
    else if gp \<noteq> None \<and> k = None then snd (new_node (pm_id p) sa n 1 s) else ask_next k w)"
  have u: "moved c s u" unfolding u_def by (rule moved_new_node [OF assms(1,4,3)])
  have v: "moved c u v" unfolding v_def by (rule moved_learn_nodes [OF movedD(1) [OF u] split_nodes_ok])
  have w: "moved c v w" unfolding w_def by (rule moved_learn_nodes [OF movedD(1) [OF v] split_nodes6_ok])
  have sw: "moved c s w" using moved_trans [OF u moved_trans [OF v w]] .
  have "moved c s (ask_next k w)"
    using moved_trans [OF sw moved_ask_next [OF movedD(1) [OF sw]]] k movedD(4) [OF sw] by simp
  then have y: "moved c s y"
    using moved_blacklist_node [OF assms(1,3,4)] moved_new_node [OF assms(1,4,3), of 1] by (simp add: y_def)
  have e: "handle_nodes_reply p sa n cb s = (case k of None \<Rightarrow> y | Some k \<Rightarrow> search_replied p sa n k cb y)"
    unfolding handle_nodes_reply_def Let_def gp_def [symmetric] k_def [symmetric] y_def w_def v_def u_def ..
  show ?thesis unfolding e
    using y moved_trans [OF y moved_search_replied [OF movedD(1) [OF y] assms(2-4)]] by (simp split: option.split)
qed

lemma nodes_ok_ack: "nodes_ok ref af ns \<Longrightarrow> nodes_ok ref af (ack_node x t ns)"
  by (auto simp: ack_node_def sn_ok_def intro: nodes_ok_update split: option.split)

lemma moved_announce_reply:
  assumes "safe c s" "valid_id (pm_id p)" "good_sa sa n"
  shows "moved c s (handle_announce_reply p t sa n s)"
proof (cases "find_search t (sa_family sa) s")
  case None
  then show ?thesis using moved_new_node [OF assms(1,3,2)] by (simp add: handle_announce_reply_def)
next
  case (Some k)
  define u where "u = snd (new_node (pm_id p) sa n 2 s)"
  define v where "v = upd_search k (\<lambda>sr. sr\<lparr>sr_nodes := ack_node (pm_id p) (now u) (sr_nodes sr)\<rparr>) u"
  have u: "moved c s u" unfolding u_def by (rule moved_new_node [OF assms(1,3,2)])
  have v: "moved c u v" unfolding v_def
    by (rule moved_upd_search [OF movedD(1) [OF u]]) (simp add: search_ok_def nodes_ok_ack)
  have "moved c v (ask_next (Some k) v)"
    using find_search_less [OF Some] movedD(4) [OF u] movedD(4) [OF v]
    by (intro moved_ask_next [OF movedD(1) [OF v]]) simp
  with u v show ?thesis using moved_trans
    unfolding handle_announce_reply_def Some option.case Let_def u_def [symmetric] v_def [symmetric] by blast
qed

lemma moved_reply:
  assumes "safe c s" "cb_ok c cb" "valid_id (pm_id p)" "good_sa sa n"
  shows "moved c s (handle_reply p sa n cb s)"
  using moved_nodes_reply [OF assms] moved_announce_reply [OF assms(1,3,4)] moved_blacklist_node [OF assms(1,3,4)]
    moved_new_node [OF assms(1,4,3)] moved_refl [OF assms(1)]
  by (simp add: handle_reply_def split: option.split)

subsection \<open>Requests\<close>

lemma sa_ip_good: "good_sa sa n \<Longrightarrow> sa_ip sa \<noteq> None"
  by (auto simp: sa_ip_def good_sa_def AF_INET_def AF_INET6_def)

lemma token_total:
  assumes "good_sa sa n"
  obtains t where "make_token sa b s = Some t"
  using sa_ip_good [OF assms] by (auto simp: make_token_def)

lemma token_match_total:
  assumes "good_sa sa n"
  obtains b where "token_match tok sa s = Some b"
proof -
  obtain t t' where "make_token sa False s = Some t" "make_token sa True s = Some t'"
    using token_total [OF assms] by metis
  then have "token_match tok sa s = (if length tok \<noteq> TOKEN_SIZE then Some False
      else if memcmp t tok TOKEN_SIZE = 0 then Some True else Some (memcmp t' tok TOKEN_SIZE = 0))"
    by (simp add: token_match_def)
  then show thesis using that by (cases "length tok = TOKEN_SIZE"; cases "memcmp t tok TOKEN_SIZE = 0") simp_all
qed

lemma moved_send:
  assumes "safe c s" "good_sa sa n"
  shows "moved c s (snd (send_error sa n tid code msg s))" "moved c s (snd (send_pong sa n tid s))"
    "moved c s (snd (send_peer_announced sa n tid s))" "moved c s (snd (send_dtninfo sa n tid eid cls nb gr s))"
  using assms good_sa_len [OF assms(2)] by (simp_all add: moved_quiet)

lemma moved_closest:
  assumes "safe c s" "good_sa sa n" "valid_id x"
  shows "moved c s (snd (send_closest_nodes sa n tid x want af st tok s))"
  using kept_moved [OF kept_send_closest_nodes [OF assms(1) good_sa_len [OF assms(2)] assms(3)]] .

lemma moved_get_peers:
  assumes "safe c s" "good_sa sa n" "valid_id (pm_info_hash p)"
  shows "moved c s (answer_get_peers p sa n s)"
proof -
  obtain t where "make_token sa False s = Some t" by (rule token_total [OF assms(2)])
  then show ?thesis
    using moved_closest [OF assms] moved_send(1) [OF assms(1,2)] by (simp add: answer_get_peers_def split: option.split)
qed

lemma moved_announce_peer:
  assumes "safe c s" "good_sa sa n" "valid_id (pm_info_hash p)"
  shows "moved c s (answer_announce_peer p sa n s)"
proof -
  define u where "u = snd (storage_store (pm_info_hash p) sa (pm_port p) s)"
  have u: "moved c s u" unfolding u_def by (rule kept_moved [OF kept_storage_store [OF assms(1,3)]])
  have "moved c s (snd (send_peer_announced sa n (pm_tid p) u))"
    using moved_trans [OF u moved_send(3) [OF movedD(1) [OF u] assms(2)]] .
  moreover obtain b where b: "token_match (pm_token p) sa s = Some b" by (rule token_match_total [OF assms(2)])
  ultimately show ?thesis
    using moved_send(1) [OF assms(1,2)]
    by (cases b) (simp_all add: answer_announce_peer_def u_def [symmetric] b)
qed

definition fields_ok :: "parsed \<Rightarrow> bool" where
  "fields_ok p \<longleftrightarrow> valid_id (pm_id p) \<and> valid_id (pm_info_hash p) \<and> valid_id (pm_target p)"

lemma moved_message:
  assumes "safe c s" "cb_ok c cb" "fields_ok p" "good_sa sa n"
  shows "moved c s (handle_message p sa n cb s)"
proof -
  have ok: "valid_id (pm_id p)" "valid_id (pm_info_hash p)" "valid_id (pm_target p)"
    using assms(3) by (simp_all add: fields_ok_def)
  define u where "u = snd (new_node (pm_id p) sa n 1 s)"
  have u: "moved c s u" unfolding u_def by (rule moved_new_node [OF assms(1,4) ok(1)])
  note su = movedD(1) [OF u]
  show ?thesis
    unfolding handle_message_def u_def [symmetric]
    using moved_refl [OF assms(1)] moved_reply [OF assms(1,2) ok(1) assms(4)]
      moved_trans [OF u moved_send(2) [OF su assms(4)]] moved_trans [OF u moved_closest [OF su assms(4) ok(3)]]
      moved_trans [OF u moved_get_peers [OF su assms(4) ok(2)]]
      moved_trans [OF u moved_announce_peer [OF su assms(4) ok(2)]]
    by (simp split: message.split)
qed

lemma token_bucket_frame [simp]:
  "rt_inv (snd (token_bucket s)) = rt_inv s" "searches (snd (token_bucket s)) = searches s"
  "numsearches (snd (token_bucket s)) = numsearches s" "storages (snd (token_bucket s)) = storages s"
  "numstorage (snd (token_bucket s)) = numstorage s" "secret (snd (token_bucket s)) = secret s"
  "oldsecret (snd (token_bucket s)) = oldsecret s" "blist (snd (token_bucket s)) = blist s"
  "next_blacklisted (snd (token_bucket s)) = next_blacklisted s" "aborted (snd (token_bucket s)) = aborted s"
  "calloc_src (snd (token_bucket s)) = calloc_src s" "myid (snd (token_bucket s)) = myid s"
  "now (snd (token_bucket s)) = now s" "dht.more (snd (token_bucket s)) = dht.more s"
  by (simp_all add: token_bucket_def Let_def rt_inv_def)

lemma moved_token_bucket: "safe c s \<Longrightarrow> moved c s (snd (token_bucket s))"
  using safe_frame [of c s "snd (token_bucket s)"] by (simp add: moved_def)

subsection \<open>Packets\<close>

lemma parse_fields_ok: "parse_message m n tid0 = Some p \<Longrightarrow> n < length m \<Longrightarrow> fields_ok p"
  by (drule (1) parse_message_lengths) (simp add: fields_ok_def valid_id_def)

lemma moved_dispatch:
  assumes "safe c s" "cb_ok c cb" "good_sa sa n" "\<And>p. q = Some p \<Longrightarrow> fields_ok p"
  shows "moved c s (dispatch q sa n cb s)"
proof (cases q)
  case None
  then show ?thesis using assms(1) by (simp add: dispatch_def moved_refl)
next
  case (Some p)
  note ok = assms(4) [OF Some]
  obtain b u where u: "token_bucket s = (b, u)" by fastforce
  have mu: "moved c s u" using moved_token_bucket [OF assms(1)] u by simp
  show ?thesis
    using Some moved_refl [OF assms(1)] moved_message [OF assms(1,2) ok assms(3)] mu
      moved_trans [OF mu moved_message [OF movedD(1) [OF mu] assms(2) ok assms(3)]]
    by (simp add: dispatch_def u)
qed

text \<open>The packet that makes the program release a structure twice.\<close>

definition double_free :: "mem \<Rightarrow> nat \<Rightarrow> mem \<Rightarrow> mem \<Rightarrow> bool" where
  "double_free buf n sa tid0 \<longleftrightarrow> parse_dtn_message buf n sa tid0 = Dtn_double_free"

lemma moved_receive:
  assumes "safe c s" "cb_ok c cb" "good_sa sa m" "n < length buf" "no_fail c \<longrightarrow> \<not> double_free buf n sa tid0"
  shows "moved c s (snd (receive buf n sa m tid0 cls cb s))"
proof -
  have nb: "snd (node_blacklisted sa m s) = s" using node_blacklisted_state good_sa_len(2) [OF assms(3)] by blast
  have q: "moved c s (visible a s)" for a using assms(1) by (intro moved_quiet) simp_all
  have e: "moved c s (set_errno x s)" for x using assms(1) by (intro moved_quiet) simp_all
  have ab: "moved c s (c_abort s)" if "\<not> no_fail c"
    using that assms(1)
    by (simp add: moved_def safe_def dht_inv_def searches_inv_def storage_inv_def quiet_rt_inv [OF quiet_abort])
  have d: "moved c s (dispatch (parse_message buf n tid) sa m cb s)" for tid
    using parse_fields_ok [OF _ assms(4)] by (intro moved_dispatch [OF assms(1-3)])
  have ab': "moved c s (c_abort s)" if "parse_dtn_message buf n sa tid0 = Dtn_double_free"
    using that assms(5) ab by (cases "no_fail c") (simp_all add: double_free_def)
  show ?thesis
    using nb q e ab' d moved_refl [OF assms(1)] moved_send(4) [OF assms(1,3)]
    by (simp add: receive_def case_prod_unfold Let_def split: dtn_parse.split option.split)
qed

subsection \<open>Timed work\<close>

lemma moved_calm: "moved c s t \<Longrightarrow> calm c s t"
  by (simp add: moved_def calm_def)

lemma expire_searches_frame [simp]:
  "myid (expire_searches s) = myid s" "now (expire_searches s) = now s"
  by (simp_all add: expire_searches_def Let_def)

lemma calm_expiry:
  assumes "safe c s"
  shows "calm c s (timed_expiry s)"
proof -
  define u where "u = expire_buckets AF_INET s"
  define v where "v = expire_buckets AF_INET6 u"
  define w where "w = expire_storage v"
  have u: "calm c s u" unfolding u_def by (rule kept_calm [OF kept_expire_buckets [OF assms]]) simp
  have v: "calm c u v" unfolding v_def by (rule kept_calm [OF kept_expire_buckets [OF calmD(1) [OF u]]]) simp
  have w: "calm c v w" unfolding w_def by (rule kept_calm [OF kept_expire_storage [OF calmD(1) [OF v]]])
  have "calm c w (expire_searches w)" using safe_expire_searches [OF calmD(1) [OF w]] by (simp add: calm_def)
  from calm_trans [OF u calm_trans [OF v calm_trans [OF w this]]] calm_refl [OF assms] show ?thesis
    by (simp add: timed_expiry_def u_def v_def w_def)
qed

lemma kept_step_searches:
  "safe c s \<Longrightarrow> cb_ok c cb \<Longrightarrow> \<forall>k \<in> set ks. k < length (searches s) \<Longrightarrow> kept c s (step_searches ks cb s)"
proof (induction ks arbitrary: s)
  case Nil
  then show ?case by (simp add: kept_refl)
next
  case (Cons k ks)
  define u where "u = (if \<not> sr_done (searches s ! k) \<and> sr_step_time (searches s ! k) + 5 \<le> now s
    then search_step k cb s else s)"
  have u: "kept c s u"
    using kept_search_step [OF Cons.prems(1,2), of k] Cons.prems(3) kept_refl [OF Cons.prems(1)] by (simp add: u_def)
  have "kept c u (step_searches ks cb u)"
    using Cons.prems skel_length [OF keptD(2) [OF u]] by (intro Cons.IH keptD(1) [OF u]) auto
  with u show ?case using kept_trans by (simp only: step_searches.simps u_def) blast
qed

lemma safe_clock:
  "safe c (s\<lparr>search_time := x\<rparr>) = safe c s" "safe c (s\<lparr>confirm_nodes_time := x\<rparr>) = safe c s"
  "safe c (s\<lparr>now := x\<rparr>) = safe c s"
  by (simp_all add: safe_def dht_inv_def searches_inv_def rt_inv_def storage_inv_def)

lemma calm_next_search_time: "safe c s \<Longrightarrow> calm c s (next_search_time srs s)"
proof (induction srs arbitrary: s)
  case Nil
  then show ?case by (simp add: calm_refl)
next
  case (Cons sr srs)
  obtain r t where t: "c_random s = (r, t)" by fastforce
  have k: "calm c s t" using kept_calm [OF kept_drawn [OF Cons.prems drawn_random_pair [OF t]]] .
  then have k': "calm c s (t\<lparr>search_time := x\<rparr>)" for x by (simp add: calm_def safe_clock)
  show ?case
    using Cons.IH [OF Cons.prems] calm_trans [OF k Cons.IH [OF calmD(1) [OF k]]]
      calm_trans [OF k' Cons.IH [OF calmD(1) [OF k']]] by (simp add: t Let_def)
qed

lemma calm_searches:
  assumes "safe c s" "cb_ok c cb"
  shows "calm c s (timed_searches cb s)"
proof -
  define u where "u = step_searches [0..<length (searches s)] cb s"
  have "kept c s u" unfolding u_def using assms by (intro kept_step_searches) auto
  then have "calm c s (u\<lparr>search_time := 0\<rparr>)" by (simp add: calm_def kept_def safe_clock)
  from calm_trans [OF this calm_next_search_time [OF calmD(1) [OF this]]] calm_refl [OF assms(1)]
  show ?thesis by (simp add: timed_searches_def u_def Let_def)
qed

lemma calm_maintenance_rest:
  assumes "safe c s"
  shows "calm c s (snd (if a then (True, s)
     else let (p, s) = (if mybucket_grow_time s \<ge> now s - 150 then neighbourhood_maintenance AF_INET s else (False, s));
              (q, s) = (if mybucket6_grow_time s \<ge> now s - 150 then neighbourhood_maintenance AF_INET6 s else (False, s))
          in (p \<or> q, s)))" (is "calm c s (snd (if a then _ else ?r))")
proof -
  have m: "calm c t (snd (if b then neighbourhood_maintenance af t else (False, t)))" if "safe c t" "inet af"
    for b af and t :: "'a dht_scheme"
    using kept_calm [OF kept_neighbourhood_maintenance [OF that]] calm_refl [OF that(1)] by simp
  obtain p u where u: "(if mybucket_grow_time s \<ge> now s - 150 then neighbourhood_maintenance AF_INET s else (False, s)) = (p, u)"
    by fastforce
  obtain q v where v: "(if mybucket6_grow_time u \<ge> now u - 150 then neighbourhood_maintenance AF_INET6 u else (False, u)) = (q, v)"
    by fastforce
  have su: "calm c s u" using m [OF assms, of AF_INET "mybucket_grow_time s \<ge> now s - 150"] u by simp
  have "calm c u v" using m [OF calmD(1) [OF su], of AF_INET6 "mybucket6_grow_time u \<ge> now u - 150"] v by simp
  moreover have "?r = (p \<or> q, v)" unfolding u Let_def prod.case v ..
  ultimately show ?thesis using calm_trans [OF su] calm_refl [OF assms] by simp
qed

lemma calm_maintenance:
  assumes "safe c s"
  shows "calm c s (timed_maintenance s)"
proof -
  obtain a4 u where u: "bucket_maintenance AF_INET s = (a4, u)" by fastforce
  obtain a6 v where v: "bucket_maintenance AF_INET6 u = (a6, v)" by fastforce
  obtain soon w where w: "(if a4 \<or> a6 then (True, v)
     else let (p, s) = (if mybucket_grow_time v \<ge> now v - 150 then neighbourhood_maintenance AF_INET v else (False, v));
              (q, s) = (if mybucket6_grow_time s \<ge> now s - 150 then neighbourhood_maintenance AF_INET6 s else (False, s))
          in (p \<or> q, s)) = (soon, w)" by fastforce
  obtain r x where x: "c_random w = (r, x)" by fastforce
  have su: "calm c s u" using kept_calm [OF kept_bucket_maintenance [OF assms, of AF_INET]] u by simp
  have uv: "calm c u v" using kept_calm [OF kept_bucket_maintenance [OF calmD(1) [OF su], of AF_INET6]] v by simp
  note sv = calm_trans [OF su uv]
  have vw: "calm c v w" using calm_maintenance_rest [OF calmD(1) [OF sv], of "a4 \<or> a6"] unfolding w by simp
  note sw = calm_trans [OF sv vw]
  have "calm c w x" using kept_calm [OF kept_drawn [OF calmD(1) [OF sw] drawn_random_pair [OF x]]] .
  from calm_trans [OF sw this] have "calm c s (x\<lparr>confirm_nodes_time := y\<rparr>)" for y by (simp add: calm_def safe_clock)
  moreover have "timed_maintenance s = (if now s \<ge> confirm_nodes_time s then
      x\<lparr>confirm_nodes_time := (if soon then now x + 5 + int (r mod 20) else now x + 60 + int (r mod 120))\<rparr> else s)"
    unfolding timed_maintenance_def Let_def u v prod.case w [unfolded Let_def] x ..
  ultimately show ?thesis using calm_refl [OF assms] by simp
qed

lemma calm_timed_work:
  assumes "safe c s" "cb_ok c cb"
  shows "calm c s (timed_work cb s)"
proof -
  define u where "u = (if now s \<ge> rotate_secrets_time s then rotate_secrets s else s)"
  define v where "v = timed_expiry u"
  define w where "w = timed_searches cb v"
  have u: "calm c s u" using safe_rotate_secrets [OF assms(1)] assms(1) by (simp add: u_def calm_def)
  have v: "calm c u v" unfolding v_def by (rule calm_expiry [OF calmD(1) [OF u]])
  have w: "calm c v w" unfolding w_def by (rule calm_searches [OF calmD(1) [OF v] assms(2)])
  have "calm c w (timed_maintenance w)" by (rule calm_maintenance [OF calmD(1) [OF w]])
  with u v w show ?thesis unfolding timed_work_def u_def [symmetric] v_def [symmetric] w_def [symmetric]
    using calm_trans by blast
qed

lemma safe_dht_periodic:
  assumes "safe c s" "cb_ok c cb" "0 < n \<longrightarrow> good_sa sa m \<and> n < length buf \<and> (no_fail c \<longrightarrow> \<not> double_free buf n sa tid0)"
  shows "safe c (snd (dht_periodic buf n sa m tid0 t cls cb s))"
    "myid (snd (dht_periodic buf n sa m tid0 t cls cb s)) = myid s"
    "now (snd (dht_periodic buf n sa m tid0 t cls cb s)) = t"
proof -
  let ?s = "s\<lparr>now := t\<rparr>"
  have s: "safe c ?s" using assms(1) by (simp add: safe_clock)
  obtain early u where u: "(if n > 0 then receive buf n sa m tid0 cls cb ?s else (False, ?s)) = (early, u)" by fastforce
  have su: "calm c ?s u"
  proof (cases "0 < n")
    case True
    then show ?thesis using moved_calm [OF moved_receive [OF s assms(2)], of sa m n buf tid0 cls] assms(3) u by simp
  next
    case False
    then show ?thesis using u calm_refl [OF s] by simp
  qed
  have "calm c ?s (timed_work cb u)" using calm_trans [OF su calm_timed_work [OF calmD(1) [OF su] assms(2)]] .
  then have "calm c ?s (snd (dht_periodic buf n sa m tid0 t cls cb s))"
    using su unfolding dht_periodic_def Let_def u prod.case by simp
  then show "safe c (snd (dht_periodic buf n sa m tid0 t cls cb s))"
    "myid (snd (dht_periodic buf n sa m tid0 t cls cb s)) = myid s"
    "now (snd (dht_periodic buf n sa m tid0 t cls cb s)) = t" by (simp_all add: calm_def)
qed

subsection \<open>Properties\<close>

text \<open>
  C14: a node put on the internal blacklist is ignored until ten further nodes have been put there. After
  \<^verbatim>\<open>blacklist_node\<close> and fewer than ten further calls of it for any nodes, in every state with the ring
  of addresses these calls leave, \<^verbatim>\<open>dht_send\<close> to the same address with the same length fails with \<^verbatim>\<open>EPERM\<close> and
  does nothing else, and a packet from that address is dropped with no effect, before it is parsed.
  Directly after the call no search has the identifier among its candidates, although the loop that
  removes it skips elements; a reply handled later may offer it again.
\<close>

theorem blacklisted_node_silenced:
  assumes "safe c s" "valid_id x" "good_sa sa salen" "\<forall>b \<in> set bs. blockable b" "length bs < DHT_MAX_BLACKLISTED"
    "blist u = blist (blacklistings bs (blacklist_node (Some x) sa salen s))"
  shows "dht_send buf fl sa salen u = (- 1, set_errno EPERM u) \<and>
    receive pkt n sa salen tid0 cls cb u = (False, u) \<and>
    (\<forall>sr \<in> set (searches (blacklist_node (Some x) sa salen s)). x \<notin> sn_id ` set (sr_nodes sr))"
proof -
  have "node_blacklisted sa salen u = (True, u)"
    using assms by (intro blacklist_node_lasts [where y = "Some x" and bs = bs]) auto
  then show ?thesis
    using good_sa_len(1) [OF assms(3)] blacklist_node_unsearched [OF assms(1-3)]
    by (simp add: dht_send_def receive_def Let_def)
qed

lemma blacklisted_node_silenced_witness:
  "fst (dht_send [] 0 (mk_sin [10, 0, 0, 1] [0, 7]) 16
     (blacklistings (replicate 9 (None, mk_sin [10, 0, 0, 2] [0, 7], 16))
       (blacklist_node (Some (replicate 20 7)) (mk_sin [10, 0, 0, 1] [0, 7]) 16 one_bucket_dht))) = - 1"
proof -
  have "valid_id (replicate 20 7)" "blockable (None, mk_sin [10, 0, 0, 2] [0, 7], 16)"
    by (simp_all add: valid_id_def blockable_def)
  from blacklisted_node_silenced [OF safe_one_bucket this(1) _ _ _ refl, of "mk_sin [10, 0, 0, 1] [0, 7]" 16
      "replicate 9 (None, mk_sin [10, 0, 0, 2] [0, 7], 16)" "[]" 0] this(2)
  show ?thesis by (simp add: DHT_MAX_BLACKLISTED_def)
qed

end
