(* ===== verification/Parser_Roundtrip.thy ===== *)
theory Parser_Roundtrip
  imports Parser Interfaces
begin

text \<open>
  The parsers read back what the senders of \<^verbatim>\<open>dht.c\<close> write, and the message on which the parser of
  convergence layers releases a structure twice.
\<close>

subsection \<open>Buffers that do not overflow\<close>

lemma put_fmt_fits: "length b + length txt < sz \<Longrightarrow> put_fmt sz txt b = Some (b @ txt)"
  by (simp add: put_fmt_def)

lemma put_mem_fits: "length b + length txt \<le> sz \<Longrightarrow> put_mem sz txt b = Some (b @ txt)"
  by (simp add: put_mem_def)

subsection \<open>Decimal numbers\<close>

lemma digits_val_snoc: "digits_val (ds @ [d]) = digits_val ds * 10 + (int (unat d) - 48)"
  by (simp add: digits_val_def)

lemma unat_digit: "d < 10 \<Longrightarrow> unat (word_of_nat (48 + d) :: byte) = 48 + d"
  by (simp add: unsigned_of_nat take_bit_eq_mod del: of_nat_add)

lemma uint_digit: "d < 10 \<Longrightarrow> uint (word_of_nat (48 + d) :: byte) = 48 + int d"
  by (simp add: unsigned_of_nat take_bit_eq_mod del: of_nat_add)

lemma is_digit_dec: "d < 10 \<Longrightarrow> is_digit (word_of_nat (48 + d))"
  using unat_digit [of d] by (simp add: is_digit_def word_le_nat_alt)

lemma dec_digits: "\<forall>d \<in> set (dec k). is_digit d"
proof (induction k rule: dec.induct)
  case (1 n)
  then show ?case by (subst dec.simps) (simp add: is_digit_dec del: of_nat_add)
qed

lemma digits_val_dec: "digits_val (dec k) = int k"
proof (induction k rule: dec.induct)
  case (1 n)
  have one: "digits_val [word_of_nat (48 + d)] = int d" if "d < 10" for d
    using uint_digit [OF that] by (simp add: digits_val_def del: of_nat_add)
  show ?case
  proof (cases "n < 10")
    case True
    then show ?thesis using one by (subst dec.simps) simp
  next
    case False
    have u: "uint (word_of_nat (48 + n mod 10) :: byte) = 48 + int (n mod 10)" by (rule uint_digit) simp
    have "digits_val (dec n) = int (n div 10) * 10 + int (n mod 10)"
      using False 1 by (subst dec.simps) (simp add: digits_val_snoc u del: of_nat_add)
    also have "\<dots> = int (n div 10 * 10 + n mod 10)" by (simp only: of_nat_add of_nat_mult of_nat_numeral)
    finally show ?thesis by (simp only: div_mult_mod_eq)
  qed
qed

lemma dec_not_Nil [simp]: "dec k \<noteq> []"
  by (subst dec.simps) simp

lemma length_dec_le: "length (dec k) \<le> Suc k"
proof (induction k rule: dec.induct)
  case (1 n)
  show ?case
  proof (cases "n < 10")
    case True
    then show ?thesis by (subst dec.simps) simp
  next
    case False
    then have "n div 10 < n" by simp
    moreover have "length (dec n) = Suc (length (dec (n div 10)))" using False by (subst dec.simps) simp
    ultimately show ?thesis using 1 [OF False] by simp
  qed
qed

lemma digit_facts: "is_digit d \<Longrightarrow> \<not> is_space d \<and> d \<noteq> 43 \<and> d \<noteq> 45"
  by (auto simp: is_digit_def is_space_def word_le_nat_alt)

text \<open>Reading a number that the senders wrote.\<close>

lemma strtol_dec:
  assumes "drop p m = dec k @ b # rest" "\<not> is_digit b" "k < 2 ^ 63"
  shows "strtol m p = (int k, p + length (dec k))" "rd m (p + length (dec k)) = b"
proof -
  obtain d ds where d: "dec k = d # ds" by (cases "dec k") simp_all
  then have dd: "is_digit d" using dec_digits [of k] by simp
  have sp: "takeWhile is_space (drop p m) = []" using assms(1) d digit_facts [OF dd] by simp
  have len: "p < length m" using assms(1) by (cases "p < length m") simp_all
  then have "rd m p = d" using assms(1) d by (metis append_Cons hd_drop_conv_nth list.sel(1) rd_nth)
  then have sg: "rd m p \<noteq> 43" "rd m p \<noteq> 45" using digit_facts [OF dd] by auto
  have ds: "takeWhile is_digit (drop p m) = dec k"
    using assms(1,2) dec_digits [of k] by (simp add: takeWhile_append)
  have "c_long (int k) = int k" using assms(3) by (simp add: c_long_def)
  then show "strtol m p = (int k, p + length (dec k))"
    using sp sg ds by (simp add: strtol_def digits_val_dec)
  have "drop (p + length (dec k)) m = b # rest"
    using arg_cong [OF assms(1), of "drop (length (dec k))"] by (simp add: add.commute)
  then show "rd m (p + length (dec k)) = b"
    by (metis drop_eq_Nil hd_drop_conv_nth linorder_not_less list.sel(1) list.distinct(1) rd_nth)
qed

lemma string_at_dec:
  assumes "drop p m = dec (length bs) @ 58 # bs @ rest" "0 < length bs" "length bs < lim" "lim < 2 ^ 63"
    "p + length (dec (length bs)) + 1 + length bs \<le> n"
  shows "string_at m n p lim = Some bs"
proof -
  have k: "length bs < 2 ^ 63" using assms(3,4) by (rule less_trans)
  note s = strtol_dec [OF assms(1) _ k]
  have nd: "\<not> is_digit 58" by (simp add: is_digit_def)
  have "drop (Suc (p + length (dec (length bs)))) m = bs @ rest"
    using arg_cong [OF assms(1), of "drop (length (dec (length bs)) + 1)"] by (simp add: add.commute)
  then show ?thesis using s [OF nd] assms(2,3,5) by (simp add: string_at_def slice_def)
qed

subsection \<open>Where a pattern is found\<close>

lemma memmem_at_skip:
  "hd nd \<notin> set xs \<Longrightarrow> nd \<noteq> [] \<Longrightarrow> memmem_at (xs @ h) nd = map_option ((+) (length xs)) (memmem_at h nd)"
proof (induction xs)
  case Nil
  then show ?case by (cases "memmem_at h nd") simp_all
next
  case (Cons x xs)
  then obtain d ds where nd: "nd = d # ds" by (cases nd) simp_all
  have "take (length nd) (x # xs @ h) \<noteq> nd" using Cons.prems(1) nd by auto
  then show ?case using Cons by (cases "memmem_at h nd") simp_all
qed

text \<open>A pattern that does not overlap itself is found behind any text it does not occur in.\<close>

lemma memmem_at_behind:
  "memmem_at xs nd = None \<Longrightarrow> nd \<noteq> [] \<Longrightarrow> hd nd \<notin> set (tl nd) \<Longrightarrow>
     memmem_at (xs @ nd @ rest) nd = Some (length xs)"
proof (induction xs)
  case Nil
  then show ?case by (cases nd) auto
next
  case (Cons x xs)
  have "take (length nd) (x # xs @ nd @ rest) \<noteq> nd"
  proof
    assume t: "take (length nd) (x # xs @ nd @ rest) = nd"
    show False
    proof (cases "length nd \<le> length (x # xs)")
      case True
      then have "take (length nd) (x # xs) = nd" using t by (simp add: take_Cons' split: if_splits)
      then show False using Cons.prems(1) by simp
    next
      case False
      then have l: "length (x # xs) < length nd" by simp
      have "nd ! length (x # xs) = (x # xs @ nd @ rest) ! length (x # xs)"
        using l t by (metis nth_take)
      also have "\<dots> = hd nd" using Cons.prems(2) by (simp add: nth_append hd_conv_nth)
      finally have "hd nd = tl nd ! length xs" using l by (simp add: nth_tl)
      moreover have "length xs < length (tl nd)" using l by simp
      ultimately show False using Cons.prems(3) nth_mem by metis
    qed
  qed
  then show ?case using Cons by (simp split: if_splits)
qed

subsection \<open>A query for an endpoint identifier\<close>

lemma get_dtninfo_msg_eq:
  assumes "get_dtninfo_msg tid eid v = Some m" "length m < 1076"
  shows "m = ascii ''d1:ad3:eid'' @ dec (length eid) @ ascii '':'' @ eid @
     ascii ''e1:q3:dtn1:t'' @ dec (length tid) @ ascii '':'' @ tid @ (case v of None \<Rightarrow> [] | Some w \<Rightarrow> w) @ ascii ''1:y1:qe''"
proof -
  have f: "b' = b @ ts \<or> length b' = 1076" if "put_fmt 1076 ts b = Some b'" for ts b b'
    using that by (auto simp: put_fmt_def split: if_splits)
  have g: "b' = b @ ts" if "put_mem 1076 ts b = Some b'" for ts b b'
    using that by (auto simp: put_mem_def split: if_splits)
  have lf: "length b \<le> length b'" if "put_fmt 1076 ts b = Some b'" for ts b b'
    using that by (auto simp: put_fmt_def split: if_splits)
  obtain b1 b2 b3 b4 b5 where b: "put_fmt 1076 (ascii ''d1:ad3:eid'' @ dec (length eid) @ ascii '':'') [] = Some b1"
    "put_mem 1076 eid b1 = Some b2" "put_fmt 1076 (ascii ''e1:q3:dtn1:t'' @ dec (length tid) @ ascii '':'') b2 = Some b3"
    "put_mem 1076 tid b3 = Some b4" "add_v 1076 v b4 = Some b5" "put_fmt 1076 (ascii ''1:y1:qe'') b5 = Some m"
    using assms(1) by (auto simp: get_dtninfo_msg_def split: bind_splits)
  have v: "b5 = b4 @ (case v of None \<Rightarrow> [] | Some w \<Rightarrow> w)"
    using b(5) g by (auto simp: add_v_def split: option.splits)
  have l: "length b5 < 1076" "length b3 \<le> length b4" "length b4 \<le> length b5" "length b1 \<le> length b2" "length b2 \<le> length b3"
    using lf [OF b(6)] assms(2) g [OF b(4)] v g [OF b(2)] lf [OF b(3)] by auto
  show ?thesis
    using f [OF b(1)] f [OF b(3)] f [OF b(6)] g [OF b(2)] g [OF b(4)] v l assms(2) by auto
qed

lemma rd_append_end: "n = length m \<Longrightarrow> rd (m @ x # r) n = x"
  by (simp add: rd_def)

lemma e_not_digit: "101 \<notin> set (dec k)"
proof
  assume "101 \<in> set (dec k)"
  then have "is_digit 101" using dec_digits [of k] by blast
  then show False by (simp add: is_digit_def)
qed

lemma parse_dtn_query_enc:
  assumes "get_dtninfo_msg tid eid v = Some m" "length m < 1076" "eid \<noteq> []" "tid \<noteq> []" "length tid < length tid0"
    "length tid0 \<le> 16" "memmem_at eid (ascii ''e1:q3:dtn1:t'') = None"
  shows "parse_dtn_query (m @ 0 # rest) (length m) tid0 = Dtn_query tid eid" "take 10 (m @ 0 # rest) = ascii ''d1:ad3:eid''"
proof -
  let ?M = "m @ 0 # rest" and ?pat = "ascii ''e1:q3:dtn1:t''" and ?tail = "(case v of None \<Rightarrow> [] | Some w \<Rightarrow> w) @ ascii ''1:y1:qe''"
  let ?hd = "ascii ''d1:ad3:eid'' @ dec (length eid) @ ascii '':''"
  define post where "post = dec (length tid) @ ascii '':'' @ tid @ ?tail"
  have m: "m = ascii ''d1:ad3:eid'' @ dec (length eid) @ ascii '':'' @ eid @ ?pat @ post"
    using get_dtninfo_msg_eq [OF assms(1,2)] by (simp add: post_def)
  have le: "length eid < 1076" using assms(2) unfolding m by simp
  have d10: "drop 10 ?M = dec (length eid) @ 58 # (eid @ ?pat @ post @ 0 # rest)" unfolding m by (simp add: ascii_def)
  have nd: "\<not> is_digit 58" by (simp add: is_digit_def)
  have s10: "strtol ?M 10 = (int (length eid), 10 + length (dec (length eid)))" "rd ?M (10 + length (dec (length eid))) = 58"
    using strtol_dec [OF d10 nd] le by simp_all
  have p12: "length ?pat = 12" "hd ?pat = 101" "?pat \<noteq> []" "hd ?pat \<notin> set (tl ?pat)" by (simp_all add: ascii_def)
  have "memmem_at (eid @ ?pat @ post) ?pat = Some (length eid)"
    by (rule memmem_at_behind [OF assms(7) p12(3,4)])
  moreover have "memmem_at ((dec (length eid) @ ascii '':'') @ (eid @ ?pat @ post)) ?pat =
      map_option ((+) (length (dec (length eid) @ ascii '':''))) (memmem_at (eid @ ?pat @ post) ?pat)"
    using e_not_digit [of "length eid"] p12 by (intro memmem_at_skip) (simp_all add: ascii_def)
  ultimately have "memmem_at ((dec (length eid) @ ascii '':'') @ (eid @ ?pat @ post)) ?pat = Some (length (dec (length eid)) + 1 + length eid)"
    by (simp add: ascii_def)
  then have "memmem_at m ?pat = Some (10 + (length (dec (length eid)) + 1 + length eid))"
    unfolding m by (simp add: ascii_def)
  moreover have "slice 0 (length m - 0) ?M = m" by (simp add: slice_def)
  moreover have "length ?pat \<le> length m" unfolding m by simp
  ultimately have sf: "search_from ?M (length m) 0 ?pat = Some (length (?hd @ eid))"
    unfolding search_from_def dht_memmem_def by (simp add: ascii_def)
  have dt: "drop (length (?hd @ eid) + 12) ?M = dec (length tid) @ 58 # tid @ (?tail @ 0 # rest)"
  proof -
    have "?M = ((?hd @ eid) @ ?pat) @ (dec (length tid) @ 58 # tid @ (?tail @ 0 # rest))"
      by (simp add: m post_def) (simp add: ascii_def)
    moreover have "length (?hd @ eid) + 12 = length ((?hd @ eid) @ ?pat)" by (simp only: length_append p12(1))
    ultimately show ?thesis by (metis append_eq_conv_conj)
  qed
  have "string_at ?M (length m) (length (?hd @ eid) + 12) (length tid0) = Some tid"
    using assms(4-6) by (intro string_at_dec [OF dt]) (simp_all add: m ascii_def post_def)
  then have "string_field ?M (length m) ?pat (length tid0) tid0 = Some tid"
    by (simp add: string_field_def sf p12(1))
  moreover have "slice (10 + length (dec (length eid)) + 1) (length eid) ?M = eid"
  proof -
    have "drop (10 + length (dec (length eid)) + 1) ?M = drop (length (dec (length eid)) + 1) (drop 10 ?M)"
      by (simp only: drop_drop ac_simps)
    also have "\<dots> = eid @ ?pat @ post @ 0 # rest" unfolding d10 by simp
    finally show ?thesis unfolding slice_def by simp
  qed
  moreover have "\<not> length m < 10 + length (dec (length eid)) + 1 + length eid" unfolding m by (simp add: ascii_def)
  ultimately show "parse_dtn_query ?M (length m) tid0 = Dtn_query tid eid"
    using s10 assms(3) by (simp add: parse_dtn_query_def)
  show "take 10 ?M = ascii ''d1:ad3:eid''" unfolding m by (simp add: ascii_def)
qed

text \<open>
  C6: a query for an endpoint identifier survives the wire. What \<^verbatim>\<open>send_get_dtninfo\<close> writes for an
  identifier that does not contain the bytes \<open>e1:q3:dtn1:t\<close>, \<^verbatim>\<open>parse_dtn_message\<close> reads as the query for exactly
  this identifier with exactly this transaction identifier (up to 15 bytes), whatever follows the
  terminating zero in the buffer.
\<close>

theorem dtn_query_roundtrip:
  assumes "get_dtninfo_msg tid eid v = Some m" "length m < 1076" "eid \<noteq> []" "tid \<noteq> []" "length tid < length tid0"
    "length tid0 \<le> 16" "memmem_at eid (ascii ''e1:q3:dtn1:t'') = None"
  shows "parse_dtn_message (m @ 0 # rest) (length m) sa tid0 = Dtn_query tid eid"
  using parse_dtn_query_enc [OF assms] by (simp add: parse_dtn_message_def rd_append_end)

text \<open>The query as a message format.\<close>

definition query_ok :: "mem \<Rightarrow> mem \<times> mem \<times> mem option \<Rightarrow> bool" where
  "query_ok tid0 = (\<lambda>(tid, eid, v). eid \<noteq> [] \<and> tid \<noteq> [] \<and> length tid < length tid0 \<and> length tid0 \<le> 16 \<and>
     memmem_at eid (ascii ''e1:q3:dtn1:t'') = None \<and> (\<forall>m. get_dtninfo_msg tid eid v = Some m \<longrightarrow> length m < 1076))"

interpretation query: wire_format "\<lambda>(tid, eid, v). get_dtninfo_msg tid eid v" "\<lambda>m. parse_dtn_query (m @ [0]) (length m) tid0"
  "\<lambda>(tid, eid, v). Dtn_query tid eid" "query_ok tid0" for tid0
  by unfold_locales (auto simp: query_ok_def parse_dtn_query_enc(1))

text \<open>Two nodes that ask with the same bytes ask with the same identifier.\<close>

lemma query_names_asker:
  assumes "query_ok tid0 (tid, eid, v)" "query_ok tid0 (tid', eid', v')" "get_dtninfo_msg tid eid v = Some m"
    "get_dtninfo_msg tid' eid' v' = Some m"
  shows "tid = tid' \<and> eid = eid'"
  using query.same_message [OF assms(1,2), of m] assms(3,4) by simp

lemma dtn_query_roundtrip_witness:
  "\<exists>m. get_dtninfo_msg [1, 2] (ascii ''dtn://a'') None = Some m \<and>
     parse_dtn_message (m @ [0]) (length m) [] (replicate 16 0) = Dtn_query [1, 2] (ascii ''dtn://a'')"
proof -
  obtain m where m: "get_dtninfo_msg [1, 2] (ascii ''dtn://a'') None = Some m" "length m < 1076"
    by (simp add: get_dtninfo_msg_def put_fmt_def put_mem_def add_v_def ascii_def dec.simps)
  have "memmem_at (ascii ''dtn://a'') (ascii ''e1:q3:dtn1:t'') = None" by code_simp
  from dtn_query_roundtrip [OF m _ _ _ _ this, of "replicate 16 0" "[]" "[]"] m(1) show ?thesis
    by (simp add: ascii_def)
qed

subsection \<open>A structure released twice\<close>

definition bad_reply :: mem where
  "bad_reply = ascii ''d1:rd2:cll11:name=q;a=b;x''"

lemma bad_reply_parse: "parse_dtn_message (bad_reply @ [0]) 25 sa tid0 = Dtn_double_free"
  unfolding bad_reply_def by code_simp

end
