(* ===== verification/Machine.thy ===== *)
theory Machine
  imports Periodic_Inv Parser_Roundtrip
begin

text \<open>
  \<^verbatim>\<open>dht.c\<close> as a machine: its states are those of the record, its steps the calls of its interface. Before
  \<^verbatim>\<open>dht_init\<close> and after \<^verbatim>\<open>dht_uninit\<close> it is idle, in between it runs; the calls of a client that keeps to
  the interface (initialise first; addresses of the two families; buffers that contain the
  terminating zero) never leave the invariant.
\<close>

subsection \<open>The invariant of the machine\<close>

definition running :: "'a dht_scheme \<Rightarrow> bool" where
  "running s \<longleftrightarrow> dht_socket s \<ge> 0 \<or> dht_socket6 s \<ge> 0"

definition idle :: "'a mode \<Rightarrow> 'a dht_scheme \<Rightarrow> bool" where
  "idle c s \<longleftrightarrow> length (blist s) = DHT_MAX_BLACKLISTED \<and> (\<forall>b \<in> set (blist s). length b = sizeof_ss) \<and>
     ext_inv c (dht.more s) \<and> (no_fail c \<longrightarrow> \<not> aborted s \<and> (\<forall>k. calloc_src s k))"

definition machine_inv :: "'a mode \<Rightarrow> 'a dht_scheme \<Rightarrow> bool" where
  "machine_inv c s \<longleftrightarrow> (if running s then safe c s else idle c s)"

lemma safe_idle: "safe c s \<Longrightarrow> idle c s"
  by (simp add: safe_def dht_inv_def idle_def)

lemma safe_machine: "safe c s \<Longrightarrow> machine_inv c s"
  by (simp add: machine_inv_def safe_idle)

lemma machine_idle: "machine_inv c s \<Longrightarrow> idle c s"
  by (simp add: machine_inv_def safe_idle split: if_splits)

lemma machine_running: "machine_inv c s \<Longrightarrow> running s \<Longrightarrow> safe c s"
  by (simp add: machine_inv_def)

lemma safe_errno: "safe c s \<Longrightarrow> safe c (set_errno e s)"
  by (rule keptD(1) [OF safe_quiet [OF _ quiet_set_errno aborted_set_errno]])

lemma errno_phase [simp]: "running (set_errno e s) = running s" "idle c (set_errno e s) = idle c s"
  by (simp_all add: running_def idle_def set_errno_def)

subsection \<open>Start and stop\<close>

lemma wf_calloc_bucket: "inet af \<Longrightarrow> wf_table af me [calloc_bucket af]"
proof -
  assume "inet af"
  have "dyadic 0 0 (2 ^ 160)" by (simp add: dyadic_def)
  moreover have "be_val (replicate 20 0) = 0" by simp
  moreover have "valid_id (replicate 20 0)" by (simp add: valid_id_def)
  ultimately show ?thesis
    unfolding wf_table_def bkt_lo_def bkt_hi_def bucket_ok_def calloc_bucket_def
    by (auto simp: sizeof_ss_def sa_family_def intro!: exI [of _ 0])
qed

lemma wf_table_Nil [simp]: "wf_table af me []"
  by (simp add: wf_table_def)

text \<open>What \<^verbatim>\<open>dht_init\<close> has prepared when it comes to its last part.\<close>

definition prepared :: "'a mode \<Rightarrow> 'a dht_scheme \<Rightarrow> bool" where
  "prepared c s \<longleftrightarrow> idle c s \<and> searches s = [] \<and> numsearches s = 0 \<and> storages s = [] \<and> numstorage s = 0 \<and>
     buckets s \<in> {[], [calloc_bucket AF_INET]} \<and> buckets6 s \<in> {[], [calloc_bucket AF_INET6]}"

lemma safe_init_rest:
  assumes "prepared c s" "20 \<le> length x"
  shows "safe c (init_rest sock sock6 x v t s)"
proof -
  define u where "u = s\<lparr>myid := take 20 x, my_v := map_option (\<lambda>v. ascii ''1:v4:'' @ take 4 v) v, now := t,
                mybucket_grow_time := t, mybucket6_grow_time := t\<rparr>"
  obtain r1 u1 where u1: "c_random u = (r1, u1)" by fastforce
  define u2 where "u2 = u1\<lparr>confirm_nodes_time := t + int (r1 mod 3)\<rparr>"
  obtain r3 u3 where u3: "c_random u2 = (r3, u3)" by fastforce
  define u4 where "u4 = u3\<lparr>search_id := word_of_nat r3, search_time := 0, next_blacklisted := 0, token_bucket_time := t,
                token_bucket_tokens := MAX_TOKEN_BUCKET_TOKENS, secret := replicate 8 0\<rparr>"
  have src: "u4 = (s\<lparr>myid := take 20 x, my_v := map_option (\<lambda>v. ascii ''1:v4:'' @ take 4 v) v, now := t,
      mybucket_grow_time := t, mybucket6_grow_time := t, rand_src := later (later (rand_src s)),
      confirm_nodes_time := t + int (r1 mod 3), search_id := word_of_nat r3, search_time := 0, next_blacklisted := 0,
      token_bucket_time := t, token_bucket_tokens := MAX_TOKEN_BUCKET_TOKENS, secret := replicate 8 0\<rparr>)"
    using u1 u3 by (auto simp: u4_def u2_def u_def c_random_def)
  define w where "w = (rotate_secrets u4)\<lparr>dht_socket := sock, dht_socket6 := sock6\<rparr>"
  obtain ra bs tm where w: "w = u4\<lparr>rand_src := ra, rotate_secrets_time := tm, oldsecret := secret u4, secret := bs,
      dht_socket := sock, dht_socket6 := sock6\<rparr>" "length bs = 8"
  proof -
    define y where "y = u4\<lparr>rand_src := later (rand_src u4),
      rotate_secrets_time := now u4 + 900 + int (rand_src u4 0 mod 1800), oldsecret := secret u4\<rparr>"
    obtain bs z where b: "random_bytes 8 y = (bs, z)" by fastforce
    obtain ra where "z = y\<lparr>rand_src := ra\<rparr>" using random_bytes_src [OF b] by blast
    then have "rotate_secrets u4 = y\<lparr>rand_src := ra, secret := bs\<rparr>"
      using b by (simp add: rotate_secrets_def c_random_def dht_random_bytes_def y_def Let_def)
    then have "w = u4\<lparr>rand_src := ra, rotate_secrets_time := now u4 + 900 + int (rand_src u4 0 mod 1800),
        oldsecret := secret u4, secret := bs, dht_socket := sock, dht_socket6 := sock6\<rparr>"
      by (simp add: w_def y_def)
    then show thesis using length_random_bytes [OF b] by (rule that)
  qed
  have p: "idle c s" "searches s = []" "numsearches s = 0" "storages s = []" "numstorage s = 0"
    "buckets s \<in> {[], [calloc_bucket AF_INET]}" "buckets6 s \<in> {[], [calloc_bucket AF_INET6]}"
    using assms(1) by (simp_all add: prepared_def)
  have v: "valid_id (take 20 x)" using assms(2) by (simp add: valid_id_def)
  have "rt_inv w"
    unfolding w(1) src using p(6,7) v wf_calloc_bucket [of AF_INET] wf_calloc_bucket [of AF_INET6]
    by (auto simp: rt_inv_def)
  then have sw: "safe c w"
    using p w(2) unfolding w(1) src
    by (simp add: safe_def dht_inv_def searches_inv_def storage_inv_def idle_def DHT_MAX_SEARCHES_def
        DHT_MAX_HASHES_def DHT_MAX_BLACKLISTED_def)
  have e: "init_rest sock sock6 x v t s = expire_buckets AF_INET6 (expire_buckets AF_INET w)"
    unfolding init_rest_def Let_def u_def [symmetric] u1 prod.case u2_def [symmetric] u3 u4_def [symmetric] w_def ..
  have k: "kept c w (expire_buckets AF_INET w)" by (rule kept_expire_buckets [OF sw]) simp
  have "kept c (expire_buckets AF_INET w) (expire_buckets AF_INET6 (expire_buckets AF_INET w))"
    by (rule kept_expire_buckets [OF keptD(1) [OF k]]) simp
  then show ?thesis unfolding e by (rule keptD(1))
qed

lemma init_socket_cases:
  assumes "init_socket af sock s = (ok, t)"
  obtains (off) "ok" "t = s"
  | (failed) "\<not> ok" "t = set_table af [] (s\<lparr>calloc_src := later (calloc_src s)\<rparr>)" "\<not> calloc_src s 0"
  | (fresh) "ok" "t = set_table af [calloc_bucket af] (s\<lparr>calloc_src := later (calloc_src s)\<rparr>)"
  using assms by (auto simp: init_socket_def c_calloc_def Let_def split: if_splits)

lemma safe_dht_init:
  assumes "machine_inv c s" "20 \<le> length x"
  shows "machine_inv c (snd (dht_init sock sock6 x v nb nb6 t s))"
proof (cases "dht_socket s \<ge> 0 \<or> dht_socket6 s \<ge> 0 \<or> buckets s \<noteq> [] \<or> buckets6 s \<noteq> []")
  case True
  have "machine_inv c (set_errno EBUSY s)"
    using assms(1) safe_errno [of c s EBUSY] by (simp add: machine_inv_def split: if_splits)
  then show ?thesis using True by (simp add: dht_init_def)
next
  case False
  define u where "u = s\<lparr>searches := [], numsearches := 0, storages := [], numstorage := 0, mygroups := [], myneighbours := []\<rparr>"
  have id: "idle c s" "\<not> running s" using machine_idle [OF assms(1)] False by (auto simp: running_def)
  have u: "prepared c u" "\<not> running u" using id False by (simp_all add: prepared_def idle_def u_def running_def)
  have idle_m: "machine_inv c y" if "prepared c y" "\<not> running y" for y :: "'a dht_scheme"
    using that by (simp add: machine_inv_def prepared_def)
  obtain ok v where v: "init_socket AF_INET sock u = (ok, v)" by fastforce
  have v4: "prepared c v \<and> \<not> running v" using v
    by (cases rule: init_socket_cases) (use u in \<open>auto simp: prepared_def idle_def running_def set_table_def later_def\<close>)
  obtain ok6 w where w: "init_socket AF_INET6 sock6 v = (ok6, w)" by fastforce
  have v6: "prepared c w \<and> \<not> running w" using w
    by (cases rule: init_socket_cases)
      (use v4 in \<open>auto simp: prepared_def idle_def running_def set_table_def later_def AF_INET_def AF_INET6_def\<close>)
  have drop4: "prepared c (y\<lparr>buckets := []\<rparr>) \<and> \<not> running (y\<lparr>buckets := []\<rparr>)"
    if "prepared c y \<and> \<not> running y" for y :: "'a dht_scheme"
    using that by (simp add: prepared_def idle_def running_def)
  have e: "dht_init sock sock6 x v' nb nb6 t s =
      (if \<not> ok then (- 1, v) else if sock \<ge> 0 \<and> \<not> nb then (- 1, v\<lparr>buckets := []\<rparr>)
       else if \<not> ok6 then (- 1, w) else if sock6 \<ge> 0 \<and> \<not> nb6 then (- 1, w\<lparr>buckets := []\<rparr>)
       else (1, init_rest sock sock6 x v' t w))" for v'
    unfolding dht_init_def if_not_P [OF False] Let_def u_def [symmetric] v prod.case w ..
  show ?thesis unfolding e
    using idle_m [of v] idle_m [of w] idle_m [of "v\<lparr>buckets := []\<rparr>"] idle_m [of "w\<lparr>buckets := []\<rparr>"]
      v4 v6 drop4 [OF v4] drop4 [OF v6] safe_machine [OF safe_init_rest [OF conjunct1 [OF v6] assms(2)]] by simp
qed

lemma idle_uninit: "safe c s \<Longrightarrow> machine_inv c (snd (dht_uninit s))"
  using safe_idle [of c s] safe_machine [OF safe_errno [of c s EINVAL]]
  by (simp add: dht_uninit_def) (simp add: machine_inv_def idle_def running_def)

subsection \<open>The calls of the interface\<close>

inductive dht_step :: "'a mode \<Rightarrow> 'a dht_scheme \<Rightarrow> 'a dht_scheme \<Rightarrow> bool" for c where
  init: "20 \<le> length x \<Longrightarrow> dht_step c s (snd (dht_init sock sock6 x v nb nb6 t s))"
| uninit: "running s \<Longrightarrow> dht_step c s (snd (dht_uninit s))"
| periodic: "running s \<Longrightarrow> cb_ok c cb \<Longrightarrow>
    0 < n \<longrightarrow> good_sa sa m \<and> n < length buf \<and> (no_fail c \<longrightarrow> \<not> double_free buf n sa tid0) \<Longrightarrow>
    dht_step c s (snd (dht_periodic buf n sa m tid0 t cls cb s))"
| search: "running s \<Longrightarrow> cb_ok c cb \<Longrightarrow> valid_id x \<Longrightarrow> inet af \<Longrightarrow>
    dht_step c s (snd (dht_search x port af cb s))"
| insert: "running s \<Longrightarrow> valid_id x \<Longrightarrow> good_sa sa n \<Longrightarrow> dht_step c s (snd (dht_insert_node x sa n s))"
| ping: "running s \<Longrightarrow> 0 < n \<Longrightarrow> n \<le> sizeof_ss \<Longrightarrow> dht_step c s (snd (dht_ping_node sa n s))"
| dtn_ping: "running s \<Longrightarrow> 0 < n \<Longrightarrow> n \<le> sizeof_ss \<Longrightarrow> dht_step c s (snd (dht_ping_dtn_node sa n s))"
| add_eid: "running s \<Longrightarrow> dht_step c s (snd (dht_add_dtn_eid eid ty s))"
| remove_eid: "running s \<Longrightarrow> dht_step c s (snd (dht_remove_dtn_eid eid s))"

inductive_cases dht_stepE: "dht_step c s t"

lemma safe_eids:
  "safe c (s\<lparr>dtn_my_eid := e, dtn_my_eid_changed := b\<rparr>) = safe c s"
  "safe c (s\<lparr>mygroups := es\<rparr>) = safe c s" "safe c (s\<lparr>myneighbours := es\<rparr>) = safe c s"
  by (simp_all add: safe_def dht_inv_def searches_inv_def rt_inv_def storage_inv_def)

lemma safe_add_eid: "safe c s \<Longrightarrow> safe c (snd (dht_add_dtn_eid eid ty s))"
  by (cases ty) (simp_all add: dht_add_dtn_eid_def dht_set_dtn_eid_def safe_eids)

lemma safe_remove_eid: "safe c s \<Longrightarrow> safe c (snd (dht_remove_dtn_eid eid s))"
  by (simp add: dht_remove_dtn_eid_def remove_dtn_neighbour_def remove_dtn_group_def safe_eids
      case_prod_unfold Let_def)

lemma safe_insert_node: "safe c s \<Longrightarrow> valid_id x \<Longrightarrow> good_sa sa n \<Longrightarrow> safe c (snd (dht_insert_node x sa n s))"
  using safe_errno [of c s EAFNOSUPPORT] keptD(1) [OF safe_new_node [of c s sa n x 0]]
  by (simp add: dht_insert_node_def case_prod_unfold Let_def)

lemma machine_step:
  assumes "machine_inv c s" "dht_step c s t"
  shows "machine_inv c t"
  using assms(2)
proof cases
  case (init x sock sock6 v nb nb6 t)
  then show ?thesis using safe_dht_init [OF assms(1)] by simp
next
  case uninit
  then show ?thesis using idle_uninit [OF machine_running [OF assms(1)]] by simp
next
  case (periodic cb n sa m buf tid0 t cls)
  then show ?thesis
    using safe_machine [OF safe_dht_periodic(1) [OF machine_running [OF assms(1)]]] by simp
next
  case (search cb x af port)
  then show ?thesis using safe_machine [OF safe_dht_search(1) [OF machine_running [OF assms(1)]]] by simp
next
  case (insert x sa n)
  then show ?thesis using safe_machine [OF safe_insert_node [OF machine_running [OF assms(1)]]] by simp
next
  case (ping n sa)
  then show ?thesis
    using safe_machine [OF keptD(1) [OF safe_quiet [OF machine_running [OF assms(1)] quiet_sends(1)]]] by (simp add: dht_ping_node_def)
next
  case (dtn_ping n sa)
  then show ?thesis
    using safe_machine [OF keptD(1) [OF safe_quiet [OF machine_running [OF assms(1)] quiet_sends(8)]]]
    by (simp add: dht_ping_dtn_node_def)
next
  case (add_eid eid ty)
  then show ?thesis using safe_machine [OF safe_add_eid [OF machine_running [OF assms(1)]]] by simp
next
  case (remove_eid eid)
  then show ?thesis using safe_machine [OF safe_remove_eid [OF machine_running [OF assms(1)]]] by simp
qed

text \<open>The program as it is loaded: the static initialisers, with some environment.\<close>

definition loaded :: "'a mode \<Rightarrow> 'a dht_scheme \<Rightarrow> bool" where
  "loaded c s \<longleftrightarrow> (\<exists>ra ca so x. s = dht.extend (static_dht ra ca so) x \<and> ext_inv c x \<and> (no_fail c \<longrightarrow> (\<forall>k. ca k)))"

lemma machine_loaded: "loaded c s \<Longrightarrow> machine_inv c s"
  by (auto simp: loaded_def machine_inv_def running_def idle_def static_dht_def dht.defs)

interpretation machine: invariant_machine "loaded c" "dht_step c" "machine_inv c" for c
  by unfold_locales (auto intro: machine_loaded machine_step)

subsection \<open>Properties\<close>

lemma dht_socket_init_rest:
  assumes "prepared c s" "20 \<le> length x"
  shows "dht_socket (init_rest sock sock6 x v t s) = sock"
proof -
  note r = safe_rt [OF safe_init_rest [OF assms]]
  have e: "dht_socket (expire_buckets af u) = dht_socket u" for af and u :: "'a dht_scheme"
  proof -
    have "dht_socket (expire_from af is y) = dht_socket y" for "is" and y :: "'a dht_scheme"
      by (induction "is" arbitrary: y) (simp_all add: Let_def table_step_fields(13) [OF send_cached_ping_step])
    then show ?thesis by (simp add: expire_buckets_def c_random_def Let_def)
  qed
  show ?thesis by (simp add: init_rest_def case_prod_unfold Let_def e)
qed

text \<open>
  C2: the program keeps its invariant. Whatever a client calls after loading the program (start and
  stop in any order, packets with arbitrary bytes in a terminated buffer and from an address of one of the two
  families, searches, identifiers), whatever the network and the random numbers answer, in every state it reaches while it runs the routing
  table, the searches, the storage and the blacklist are well-formed. Only if every allocation
  succeeds and no packet triggers the double release in \<^verbatim>\<open>parse_dtn_convergence_layer\<close> (the first part of \<open>c\<close>
  requires both), it is also shown that it never aborts. And what a client keeps in an extension of the state (the second part of \<open>c\<close>, which its
  call-backs respect) stays kept.
\<close>

theorem program_safe:
  assumes "machine.reach c s"
  shows "(running s \<longrightarrow> dht_inv s) \<and> (no_fail c \<longrightarrow> \<not> aborted s) \<and> ext_inv c (dht.more s)"
  using machine.reach_inv [OF assms] by (auto simp: machine_inv_def safe_def idle_def split: if_splits)

definition started :: dht where
  "started = snd (dht_init 3 (- 1) (replicate 20 7) None True True 50 (static_dht (\<lambda>_. 0) (\<lambda>_. True) (\<lambda>_. 0)))"

lemma running_started: "running started"
proof -
  let ?s = "static_dht (\<lambda>_. 0) (\<lambda>_. True) (\<lambda>_. 0)"
  let ?u = "?s\<lparr>searches := [], numsearches := 0, storages := [], numstorage := 0, mygroups := [], myneighbours := [],
      calloc_src := later (\<lambda>_. True), buckets := [calloc_bucket AF_INET]\<rparr>"
  have "prepared (plain True) ?u" by (simp add: prepared_def idle_def static_dht_def later_def)
  from dht_socket_init_rest [OF this, of "replicate 20 7" 3 "- 1" None 50]
  have "dht_socket (init_rest 3 (- 1) (replicate 20 7) None 50 ?u) = 3" by simp
  moreover have "started = init_rest 3 (- 1) (replicate 20 7) None 50 ?u"
    by (simp add: started_def dht_init_def static_dht_def init_socket_def c_calloc_def set_table_def)
  ultimately show ?thesis by (simp add: running_def)
qed

lemma program_safe_witness:
  "aborted (snd (dht_periodic [100, 0] 1 (mk_sin [10, 0, 0, 1] [0, 7]) 16 (replicate 16 0) 100 [] None started)) = False"
proof -
  have l: "loaded (plain True) (static_dht (\<lambda>_. 0) (\<lambda>_. True) (\<lambda>_. 0))"
    unfolding loaded_def
    by (rule exI [of _ "\<lambda>_. 0"], rule exI [of _ "\<lambda>_. True"], rule exI [of _ "\<lambda>_. 0"], rule exI [of _ "()"])
      (simp add: static_dht_def dht.defs)
  have r: "machine.reach (plain True) started" unfolding started_def
    by (rule machine.move [OF machine.start [OF l] dht_step.init]) simp
  have "\<not> double_free [100, 0] 1 (mk_sin [10, 0, 0, 1] [0, 7]) (replicate 16 0)"
    by (simp add: double_free_def parse_dtn_message_def ascii_def)
  then have "machine.reach (plain True) (snd (dht_periodic [100, 0] 1 (mk_sin [10, 0, 0, 1] [0, 7]) 16 (replicate 16 0) 100 [] None started))"
    by (intro machine.move [OF r dht_step.periodic] running_started) (simp_all add: cb_ok_def)
  from program_safe [OF this] show ?thesis by simp
qed

text \<open>
  C10: one packet brings the program down. In any state, a datagram of 25 bytes from any sender that
  is not martian and not blacklisted makes the packet part of \<^verbatim>\<open>dht_periodic\<close> release a structure
  twice; the rate limit and the routing table are never consulted.
\<close>

theorem one_packet_aborts:
  assumes "\<not> is_martian sa" "\<not> fst (node_blacklisted sa salen s)" "salen \<le> sizeof_ss"
  shows "aborted (snd (receive (bad_reply @ [0]) 25 sa salen tid0 cls cb s))"
proof -
  have "snd (node_blacklisted sa salen s) = s" using node_blacklisted_state [OF assms(3)] .
  moreover have "rd (bad_reply @ [0]) 25 = 0" by (simp add: bad_reply_def rd_def ascii_def)
  ultimately show ?thesis
    using assms(1,2) by (simp add: receive_def bad_reply_parse case_prod_unfold Let_def) (simp add: c_abort_def)
qed

lemma one_packet_aborts_witness:
  "aborted (snd (receive (bad_reply @ [0]) 25 (mk_sin [10, 0, 0, 1] [0, 7]) 16 [] [] None one_bucket_dht))"
proof -
  have "\<not> is_martian (mk_sin [10, 0, 0, 1] [0, 7])" by (simp add: is_martian_mk_sin)
  moreover have "\<not> fst (node_blacklisted (mk_sin [10, 0, 0, 1] [0, 7]) 16 one_bucket_dht)"
    by code_simp
  ultimately show ?thesis by (intro one_packet_aborts) (simp_all add: sizeof_ss_def)
qed

end
