(* ===== verification/Entry_List.thy ===== *)
theory Entry_List
  imports Ids Interfaces
begin

text \<open>
  The tables of announced and looked-up keys of \<^verbatim>\<open>list.c\<close>: linked lists of entries, newest
  first. A pointer to an entry is its position in the list. \<^verbatim>\<open>time(NULL)\<close> is asked at every
  iteration of a loop, so the loops take the stream of its answers.
\<close>

datatype dht_lookup_status = SEARCHING | DONE | REPEAT_SEARCH | DONE_AND_READY_FOR_REPEAT

record dhtentry =
  e_md :: mem
  e_announce :: bool
  e_status :: dht_lookup_status
  e_updatetime :: int

definition expired :: "int \<Rightarrow> int \<Rightarrow> dhtentry \<Rightarrow> bool" where
  "expired now threshold e \<longleftrightarrow>
     now > e_updatetime e + threshold \<and> (\<not> e_announce e \<or> threshold < 0)"

text \<open>
  The loop of \<^verbatim>\<open>cleanUpList\<close>. \<^verbatim>\<open>prev\<close> starts as \<^verbatim>\<open>NULL\<close> and is only advanced when it is not
  \<^verbatim>\<open>NULL\<close>, so it stays \<^verbatim>\<open>NULL\<close> and every deletion makes the successor of the deleted entry the
  new head. \<open>head\<close> is the table's head pointer, \<open>pos\<close> the list from \<^verbatim>\<open>pos\<close> on.
\<close>

fun cleanUp_loop ::
  "int answers \<Rightarrow> int \<Rightarrow> dhtentry list \<Rightarrow> dhtentry list \<Rightarrow> bool \<Rightarrow> dhtentry list \<times> bool" where
  "cleanUp_loop t threshold head [] isempty = (head, isempty)"
| "cleanUp_loop t threshold head (pos # rest) isempty =
     (if expired (t 0) threshold pos
      then cleanUp_loop (later t) threshold rest rest isempty
      else cleanUp_loop (later t) threshold head rest False)"

definition cleanUpList :: "int answers \<Rightarrow> int \<Rightarrow> dhtentry list \<Rightarrow> dhtentry list" where
  "cleanUpList t threshold table =
     (let (head, isempty) = cleanUp_loop t threshold table table True
      in if isempty then [] else head)"

definition addToList :: "int \<Rightarrow> mem \<Rightarrow> dhtentry list \<Rightarrow> dhtentry list" where
  "addToList now key table =
     \<lparr>e_md = take 20 key, e_announce = False, e_status = SEARCHING, e_updatetime = now\<rparr> # table"

definition getFromList :: "mem \<Rightarrow> dhtentry list \<Rightarrow> nat option" where
  "getFromList key table = find_index (\<lambda>e. memcmp key (e_md e) 20 = 0) table"

definition deactivateFromList :: "mem \<Rightarrow> dhtentry list \<Rightarrow> dhtentry list" where
  "deactivateFromList key table =
     (case getFromList key table of
        None \<Rightarrow> table
      | Some pos \<Rightarrow> update_at pos (\<lambda>e. e\<lparr>e_announce := False\<rparr>) table)"

subsection \<open>Lookup\<close>

definition valid_table :: "dhtentry list \<Rightarrow> bool" where
  "valid_table table \<longleftrightarrow> (\<forall>e \<in> set table. valid_id (e_md e))"

lemma memcmp_key: "valid_id k \<Longrightarrow> valid_id x \<Longrightarrow> memcmp k x 20 = 0 \<longleftrightarrow> x = k"
  by (auto simp: memcmp_def valid_id_def bytes_cmp_eq_0)

lemma getFromList_None:
  "valid_id k \<Longrightarrow> valid_table table \<Longrightarrow> getFromList k table = None \<longleftrightarrow> k \<notin> e_md ` set table"
  by (auto simp: getFromList_def find_index_None valid_table_def memcmp_key image_iff)

lemma getFromList_SomeD:
  assumes "getFromList k table = Some i" "valid_id k" "valid_table table"
  shows "i < length table \<and> e_md (table ! i) = k"
  using find_index_SomeD [OF assms(1) [unfolded getFromList_def]] assms(2,3)
  by (auto simp: valid_table_def memcmp_key)

lemma valid_addToList: "valid_id k \<Longrightarrow> valid_table table \<Longrightarrow> valid_table (addToList t k table)"
  by (simp add: valid_table_def addToList_def valid_id_def)

lemma getFromList_addToList:
  assumes "valid_id k" "valid_id j" "valid_table table"
  shows "getFromList j (addToList t k table) =
    (if j = k then Some 0 else map_option Suc (getFromList j table))"
  using assms by (auto simp: getFromList_def addToList_def memcmp_key valid_id_def)

text \<open>As a set of keys the table only grows under \<^verbatim>\<open>addToList\<close>.\<close>

interpretation entries: exact_membership "addToList t" "\<lambda>table k. getFromList k table \<noteq> None" valid_table "(=)" valid_id valid_id for t
  by unfold_locales (auto simp: valid_addToList getFromList_addToList split: if_splits)

lemma keys_added:
  assumes "valid_table table" "\<forall>k \<in> set ks. valid_id k" "valid_id k"
  shows "getFromList k (fold (addToList t) ks table) \<noteq> None \<longleftrightarrow> k \<in> set ks \<or> getFromList k table \<noteq> None"
  using entries.member_fold_iff [OF assms] by blast

lemma e_md_update_announce:
  "map e_md (update_at i (\<lambda>e. e\<lparr>e_announce := b\<rparr>) table) = map e_md table"
  by (rule map_update_at) simp

lemma deactivate_keys [simp]: "map e_md (deactivateFromList k table) = map e_md table"
  by (auto simp: deactivateFromList_def e_md_update_announce split: option.splits)

subsection \<open>What cleaning up leaves\<close>

text \<open>With time standing still the result is the part behind the last expired entry.\<close>

definition after_last :: "('a \<Rightarrow> bool) \<Rightarrow> 'a list \<Rightarrow> 'a list" where
  "after_last P xs = rev (takeWhile (\<lambda>x. \<not> P x) (rev xs))"

lemma after_last_Nil [simp]: "after_last P [] = []"
  by (simp add: after_last_def)

lemma after_last_Cons:
  "after_last P (x # xs) = (if \<exists>y \<in> set (x # xs). P y then after_last P xs else x # xs)"
proof (cases "\<exists>y \<in> set xs. P y")
  case True
  then show ?thesis by (auto simp: after_last_def takeWhile_append1)
next
  case False
  then have w: "takeWhile (\<lambda>x. \<not> P x) (rev xs) = rev xs" by (simp add: takeWhile_eq_all_conv)
  show ?thesis using False by (simp add: after_last_def takeWhile_append w)
qed

lemma after_last_suffix: "\<exists>ys. xs = ys @ after_last P xs"
  by (metis after_last_def rev_append rev_rev_ident takeWhile_dropWhile_id)

lemma after_last_none: "\<forall>x \<in> set (after_last P xs). \<not> P x"
  unfolding after_last_def set_rev by (auto dest: set_takeWhileD)

lemma after_last_id: "\<forall>x \<in> set xs. \<not> P x \<Longrightarrow> after_last P xs = xs"
  by (cases xs) (auto simp: after_last_Cons)

lemma later_const [simp]: "later (\<lambda>_. c) = (\<lambda>_. c)"
  by (simp add: later_def)

lemma cleanUp_loop_eq:
  "cleanUp_loop (\<lambda>_. now) thr head pos isempty =
     (if \<exists>e \<in> set pos. expired now thr e then after_last (expired now thr) pos else head,
      isempty \<and> (\<forall>e \<in> set pos. expired now thr e))"
  by (induction pos arbitrary: head isempty) (auto simp: after_last_Cons after_last_id)

lemma cleanUpList_eq:
  "cleanUpList (\<lambda>_. now) thr table = after_last (expired now thr) table"
proof -
  have "\<forall>e \<in> set table. expired now thr e \<Longrightarrow> after_last (expired now thr) table = []"
    using after_last_none [of "expired now thr" table] after_last_suffix [of table "expired now thr"]
    by (metis Un_iff list.set_intros(1) neq_Nil_conv set_append)
  then show ?thesis
    by (auto simp: cleanUpList_def cleanUp_loop_eq after_last_id split: prod.splits)
qed

subsection \<open>Properties\<close>

text \<open>
  C33: what \<^verbatim>\<open>cleanUpList\<close> keeps. Within one second of the clock, the loop leaves exactly the part
  of the list behind its last expired entry: no expired entry stays, but every live entry in
  front of an expired one is dropped as well, since the pointer to the previous entry is never
  advanced from \<^verbatim>\<open>NULL\<close>.
\<close>

theorem cleanUpList_keeps_tail:
  "\<exists>dropped. table = dropped @ cleanUpList (\<lambda>_. t) threshold table \<and>
     (dropped \<noteq> [] \<longrightarrow> expired t threshold (last dropped)) \<and>
     (\<forall>e \<in> set (cleanUpList (\<lambda>_. t) threshold table). \<not> expired t threshold e)"
proof -
  let ?P = "expired t threshold"
  have "table = rev (dropWhile (\<lambda>x. \<not> ?P x) (rev table)) @ after_last ?P table"
    by (metis after_last_def rev_append rev_rev_ident takeWhile_dropWhile_id)
  moreover have "?P (hd (dropWhile (\<lambda>x. \<not> ?P x) (rev table)))" if "dropWhile (\<lambda>x. \<not> ?P x) (rev table) \<noteq> []"
    using hd_dropWhile [OF that] by simp
  ultimately show ?thesis
    using after_last_none [of ?P table]
    by (intro exI [of _ "rev (dropWhile (\<lambda>x. \<not> ?P x) (rev table))"])
      (simp add: cleanUpList_eq last_rev)
qed

lemma cleanUpList_keeps_tail_witness:
  "\<exists>dropped. [\<lparr>e_md = zeroes, e_announce = True, e_status = DONE, e_updatetime = 100\<rparr>,
      \<lparr>e_md = zeroes, e_announce = False, e_status = DONE, e_updatetime = 0\<rparr>] =
    dropped @ cleanUpList (\<lambda>_. 100) 10 [\<lparr>e_md = zeroes, e_announce = True, e_status = DONE, e_updatetime = 100\<rparr>,
      \<lparr>e_md = zeroes, e_announce = False, e_status = DONE, e_updatetime = 0\<rparr>]"
  using cleanUpList_keeps_tail [of "[\<lparr>e_md = zeroes, e_announce = True, e_status = DONE, e_updatetime = 100\<rparr>,
      \<lparr>e_md = zeroes, e_announce = False, e_status = DONE, e_updatetime = 0\<rparr>]" 100 10]
  by blast

text \<open>
  A key put into the table with \<^verbatim>\<open>addToList\<close> is found by \<^verbatim>\<open>getFromList\<close> at the head, every other
  key is found where it was, one position further, and \<^verbatim>\<open>deactivateFromList\<close> clears the announce
  flag of the first entry with its key and of no other entry.
\<close>

theorem entry_table_lookup:
  assumes "valid_id k" "valid_id j" "valid_table table"
  shows "getFromList j (addToList t k table) = (if j = k then Some 0 else map_option Suc (getFromList j table)) \<and>
    (\<forall>i < length table. e_announce (deactivateFromList j table ! i) \<longleftrightarrow>
       e_announce (table ! i) \<and> getFromList j table \<noteq> Some i)"
  using getFromList_addToList [OF assms]
  by (auto simp: deactivateFromList_def nth_update_at split: option.split)

lemma entry_table_lookup_witness:
  "getFromList zeroes (addToList 5 (replicate 20 1) (addToList 4 zeroes [])) = Some 1"
  using entry_table_lookup [of "replicate 20 1" zeroes "addToList 4 zeroes []" 5]
    entry_table_lookup [of zeroes zeroes "[]" 4] valid_addToList [of zeroes "[]"]
  by (simp add: valid_id_def valid_table_def zeroes_def numeral_eq_Suc)

end
