(* ===== verification/Bloom.thy ===== *)
theory Bloom
  imports Interfaces
begin

text \<open>
  The Bloom filter of \<^verbatim>\<open>bloom.c\<close>: an array of bytes addressed by bit, and a list of hash
  functions from a key to \<^verbatim>\<open>unsigned int\<close>. The three allocations of \<^verbatim>\<open>bloom_create\<close> are its
  first arguments (whether each succeeds).
\<close>

record 'k bloom =
  asize :: nat
  bits :: mem
  funcs :: "('k \<Rightarrow> nat) list"

definition SETBIT :: "mem \<Rightarrow> nat \<Rightarrow> mem" where
  "SETBIT a n = update_at (n div 8) (\<lambda>b. b OR push_bit (n mod 8) 1) a"

definition GETBIT :: "mem \<Rightarrow> nat \<Rightarrow> bool" where
  "GETBIT a n \<longleftrightarrow> rd a (n div 8) AND push_bit (n mod 8) 1 \<noteq> 0"

definition bloom_create ::
  "bool \<Rightarrow> bool \<Rightarrow> bool \<Rightarrow> nat \<Rightarrow> ('k \<Rightarrow> nat) list \<Rightarrow> 'k bloom option" where
  "bloom_create ok ok_a ok_funcs sz fs =
     (if \<not> ok then None else if \<not> ok_a then None else if \<not> ok_funcs then None
      else Some \<lparr>asize = sz, bits = replicate ((sz + 7) div 8) 0, funcs = fs\<rparr>)"

fun bloom_add_loop :: "nat \<Rightarrow> ('k \<Rightarrow> nat) list \<Rightarrow> 'k \<Rightarrow> mem \<Rightarrow> mem" where
  "bloom_add_loop sz [] s a = a"
| "bloom_add_loop sz (f # fs) s a = bloom_add_loop sz fs s (SETBIT a (f s mod sz))"

definition bloom_add :: "'k \<Rightarrow> 'k bloom \<Rightarrow> 'k bloom" where
  "bloom_add s bl = bl\<lparr>bits := bloom_add_loop (asize bl) (funcs bl) s (bits bl)\<rparr>"

fun bloom_check_loop :: "nat \<Rightarrow> ('k \<Rightarrow> nat) list \<Rightarrow> 'k \<Rightarrow> mem \<Rightarrow> bool" where
  "bloom_check_loop sz [] s a = True"
| "bloom_check_loop sz (f # fs) s a =
     (if \<not> GETBIT a (f s mod sz) then False else bloom_check_loop sz fs s a)"

definition bloom_check :: "'k bloom \<Rightarrow> 'k \<Rightarrow> bool" where
  "bloom_check bl s = bloom_check_loop (asize bl) (funcs bl) s (bits bl)"

text \<open>The array has a bit for every index below the (positive) size.\<close>

definition bloom_inv :: "'k bloom \<Rightarrow> bool" where
  "bloom_inv bl \<longleftrightarrow> 0 < asize bl \<and> asize bl \<le> 8 * length (bits bl)"

lemma GETBIT_bit: "GETBIT a n \<longleftrightarrow> bit (rd a (n div 8)) (n mod 8)"
  by (simp add: GETBIT_def push_bit_of_1 and_exp_eq_0_iff_not_bit)

lemma length_SETBIT [simp]: "length (SETBIT a n) = length a"
  by (simp add: SETBIT_def)

lemma GETBIT_SETBIT:
  assumes "n < 8 * length a"
  shows "GETBIT (SETBIT a n) m \<longleftrightarrow> m = n \<or> GETBIT a m"
proof -
  have l: "n div 8 < length a" using assms by auto
  have "m = n \<longleftrightarrow> m div 8 = n div 8 \<and> m mod 8 = n mod 8" by (metis div_mult_mod_eq)
  moreover have "m mod 8 < 8" by simp
  ultimately show ?thesis
    using l by (auto simp: GETBIT_bit SETBIT_def rd_def nth_update_at bit_simps)
qed

lemma length_bloom_add_loop [simp]: "length (bloom_add_loop sz fs s a) = length a"
  by (induction sz fs s a rule: bloom_add_loop.induct) auto

lemma bloom_add_loop_bits:
  assumes "0 < sz" "sz \<le> 8 * length a"
  shows "GETBIT (bloom_add_loop sz fs s a) m \<longleftrightarrow> GETBIT a m \<or> (\<exists>f \<in> set fs. m = f s mod sz)"
  using assms
proof (induction sz fs s a rule: bloom_add_loop.induct)
  case (2 sz f fs s a)
  have "f s mod sz < 8 * length a" using 2(2,3) by (meson mod_less_divisor order.strict_trans2)
  with 2 show ?case by (auto simp: GETBIT_SETBIT)
qed simp

lemma bloom_check_loop_bits:
  "bloom_check_loop sz fs s a \<longleftrightarrow> (\<forall>f \<in> set fs. GETBIT a (f s mod sz))"
  by (induction sz fs s a rule: bloom_check_loop.induct) auto

lemma bloom_check_add:
  assumes "bloom_inv bl"
  shows "bloom_check (bloom_add k bl) j \<longleftrightarrow>
    (\<forall>f \<in> set (funcs bl). GETBIT (bits bl) (f j mod asize bl) \<or>
       (\<exists>g \<in> set (funcs bl). f j mod asize bl = g k mod asize bl))"
  using assms
  by (simp add: bloom_check_def bloom_add_def bloom_inv_def bloom_check_loop_bits bloom_add_loop_bits)

lemma bloom_add_fields [simp]:
  "funcs (bloom_add k bl) = funcs bl" "asize (bloom_add k bl) = asize bl"
  by (simp_all add: bloom_add_def)

lemma bloom_inv_add: "bloom_inv bl \<Longrightarrow> bloom_inv (bloom_add k bl)"
  by (simp add: bloom_inv_def bloom_add_def)

interpretation bloom: membership bloom_add bloom_check bloom_inv "(=)" "\<lambda>_. True" "\<lambda>_. True"
proof unfold_locales
  fix bl :: "'a bloom" and j k
  assume i: "bloom_inv bl"
  then show "bloom_inv (bloom_add k bl)" by (rule bloom_inv_add)
  show "bloom_check (bloom_add k bl) j" if "k = j" using i that by (auto simp: bloom_check_add)
  show "bloom_check (bloom_add k bl) j" if "bloom_check bl j"
    using that i by (simp add: bloom_check_add) (simp add: bloom_check_def bloom_check_loop_bits)
qed

lemma replicate_2: "replicate 2 x = [x, x]"
  by (simp add: numeral_2_eq_2)

lemma bloom_create_inv:
  "bloom_create True True True sz fs = Some bl \<Longrightarrow> 0 < sz \<Longrightarrow> bloom_inv bl"
  by (auto simp: bloom_create_def bloom_inv_def)

text \<open>A new filter with at least one hash function reports nothing.\<close>

lemma bloom_create_empty:
  "bloom_create True True True sz fs = Some bl \<Longrightarrow> fs \<noteq> [] \<Longrightarrow> \<not> bloom_check bl s"
  by (cases fs) (auto simp: bloom_create_def bloom_check_def GETBIT_bit rd_def split: if_splits)

text \<open>
  A Bloom filter has no false negatives: whatever sequence of keys is added to a
  filter made by \<^verbatim>\<open>bloom_create\<close> with a positive size, \<^verbatim>\<open>bloom_check\<close> answers 1 for each of
  them, whichever keys were added before and after it.
\<close>

theorem bloom_no_false_negatives:
  assumes "bloom_create True True True sz fs = Some bl" "0 < sz" "k \<in> set ks"
  shows "bloom_check (fold bloom_add ks bl) k"
  using bloom.member_fold_add [OF bloom_create_inv [OF assms(1,2)]] assms(3) by simp

lemma bloom_no_false_negatives_witness:
  "bloom_check (fold bloom_add [3, 5, 9 :: nat]
     \<lparr>asize = 10, bits = [0, 0], funcs = [\<lambda>k. k, \<lambda>k. 3 * k]\<rparr>) 5"
  by (rule bloom_no_false_negatives [where sz = 10 and fs = "[\<lambda>k. k, \<lambda>k. 3 * k]"])
    (simp_all add: bloom_create_def replicate_2)

end
