(* ===== verification/Rating.thy ===== *)
theory Rating
  imports Bloom Sha1
begin

text \<open>
  The rating of lookup answers of \<^verbatim>\<open>rating.c\<close>: per key a list of candidate addresses, each
  with a counter of how many senders have reported it. A Bloom filter over the senders
  keeps one sender from counting twice. Allocations succeed here: the source does not check
  them. \<^verbatim>\<open>free_ratings\<close> frees the lists but keeps the head pointer; the state records that,
  and a later access of the freed list is the result \<open>None\<close>.
\<close>

record result_rating =
  r_ss :: mem
  r_frombloom :: "mem bloom"
  r_rating :: int

record rating_entry =
  re_key :: mem
  re_updated :: int
  re_ratings :: "result_rating list"

record ratings =
  rlist :: "rating_entry list"
  rfreed :: bool

text \<open>\<^verbatim>\<open>key[i]\<close> is a signed \<^verbatim>\<open>char\<close>, sign-extended by the conversion to \<^verbatim>\<open>unsigned int\<close>.\<close>

definition hash_n :: "nat \<Rightarrow> mem \<Rightarrow> nat" where
  "hash_n i key = unat (scast (rd key i) :: 32 word)"

definition sockaddr_storage_equals :: "mem \<Rightarrow> mem \<Rightarrow> bool" where
  "sockaddr_storage_equals ss1 ss2 =
     (if sa_family ss1 \<noteq> sa_family ss2 then False
      else if sa_family ss1 = AF_INET then
        (if sin_port ss1 \<noteq> sin_port ss2 then False
         else memcmp (sin_addr ss1) (sin_addr ss2) 4 = 0)
      else if sa_family ss1 = AF_INET6 then
        (if sin_port ss1 \<noteq> sin_port ss2 then False
         else memcmp (sin6_addr ss1) (sin6_addr ss2) 16 = 0)
      else False)"

text \<open>The copy of the address; the bytes the source leaves uninitialised are zero here.\<close>

definition copy_ss :: "mem \<Rightarrow> mem" where
  "copy_ss ss =
     (let d = memcpy zero_ss 0 ss 2 in
      if sa_family ss = AF_INET then memcpy (memcpy d 2 (sin_port ss) 2) 4 (sin_addr ss) 4
      else if sa_family ss = AF_INET6 then memcpy (memcpy d 2 (sin_port ss) 2) 8 (sin6_addr ss) 16
      else d)"

definition from_bloom :: "mem bloom" where
  "from_bloom = \<lparr>asize = 96, bits = replicate 12 0, funcs = map hash_n [0..<7]\<rparr>"

definition rating_create :: "mem \<Rightarrow> mem \<Rightarrow> nat \<Rightarrow> result_rating" where
  "rating_create ss from fromlen =
     \<lparr>r_ss = copy_ss ss, r_frombloom = bloom_add (sha1 (take fromlen from)) from_bloom, r_rating = 0\<rparr>"

definition rating_create_entry :: "int \<Rightarrow> mem \<Rightarrow> mem \<Rightarrow> mem \<Rightarrow> nat \<Rightarrow> rating_entry" where
  "rating_create_entry now info_hash target from fromlen =
     \<lparr>re_key = take 20 info_hash, re_updated = now, re_ratings = [rating_create target from fromlen]\<rparr>"

text \<open>One sighting of a candidate that is already in the list.\<close>

definition rate_seen :: "mem \<Rightarrow> nat \<Rightarrow> result_rating \<Rightarrow> result_rating" where
  "rate_seen from fromlen pos =
     (if r_rating pos < 10 then
        (let md = sha1 (take fromlen from) in
         if \<not> bloom_check (r_frombloom pos) md
         then pos\<lparr>r_frombloom := bloom_add md (r_frombloom pos), r_rating := r_rating pos + 1\<rparr>
         else pos)
      else pos)"

definition get_rating ::
  "int \<Rightarrow> mem \<Rightarrow> mem \<Rightarrow> mem \<Rightarrow> nat \<Rightarrow> ratings \<Rightarrow> (int \<times> ratings) option" where
  "get_rating now info_hash target from fromlen rs =
     (if rfreed rs \<and> rlist rs \<noteq> [] then None
      else Some
       (case find_index (\<lambda>e. memcmp (re_key e) info_hash 20 = 0) (rlist rs) of
          None \<Rightarrow> (0, rs\<lparr>rlist := rating_create_entry now info_hash target from fromlen # rlist rs\<rparr>)
        | Some i \<Rightarrow>
           (let entry = rlist rs ! i in
            case find_index (\<lambda>p. sockaddr_storage_equals (r_ss p) target) (re_ratings entry) of
              Some j \<Rightarrow>
                (let p = rate_seen from fromlen (re_ratings entry ! j) in
                 (r_rating p,
                  rs\<lparr>rlist := (rlist rs)[i := entry\<lparr>re_updated := now, re_ratings := (re_ratings entry)[j := p]\<rparr>]\<rparr>))
            | None \<Rightarrow>
                (0, rs\<lparr>rlist := (rlist rs)[i := entry\<lparr>re_ratings :=
                      re_ratings entry @ [rating_create target from fromlen]\<rparr>]\<rparr>))))"

text \<open>Freeing the lists walks over them, so that doing it twice uses freed memory, too.\<close>

definition free_ratings :: "ratings \<Rightarrow> ratings option" where
  "free_ratings rs =
     (if rlist rs = [] then Some rs else if rfreed rs then None else Some (rs\<lparr>rfreed := True\<rparr>))"

definition ratings_initial :: ratings where
  "ratings_initial = \<lparr>rlist = [], rfreed = False\<rparr>"

subsection \<open>Ratings stay between 0 and 10\<close>

definition rating_ok :: "result_rating \<Rightarrow> bool" where
  "rating_ok p \<longleftrightarrow> 0 \<le> r_rating p \<and> r_rating p \<le> 10 \<and> bloom_inv (r_frombloom p)"

definition ratings_ok :: "ratings \<Rightarrow> bool" where
  "ratings_ok rs \<longleftrightarrow> (\<forall>e \<in> set (rlist rs). \<forall>p \<in> set (re_ratings e). rating_ok p)"

lemma from_bloom_inv: "bloom_inv from_bloom"
  by (simp add: from_bloom_def bloom_inv_def)

lemma rating_create_ok: "rating_ok (rating_create ss from fromlen)"
  by (simp add: rating_create_def rating_ok_def bloom_inv_add from_bloom_inv)

lemma rate_seen_ok: "rating_ok p \<Longrightarrow> rating_ok (rate_seen from fromlen p)"
  by (auto simp: rate_seen_def rating_ok_def bloom_inv_add Let_def)

lemma rate_seen_mono: "r_rating p \<le> r_rating (rate_seen from fromlen p)"
  by (simp add: rate_seen_def Let_def)

lemma get_rating_cases [consumes 1, case_names new_key seen new_target]:
  assumes "get_rating now h tgt from n rs = Some (v, rs')"
  obtains "find_index (\<lambda>e. memcmp (re_key e) h 20 = 0) (rlist rs) = None" "v = 0"
      "rs' = rs\<lparr>rlist := rating_create_entry now h tgt from n # rlist rs\<rparr>"
  | i e j where "find_index (\<lambda>e. memcmp (re_key e) h 20 = 0) (rlist rs) = Some i" "e = rlist rs ! i"
      "find_index (\<lambda>p. sockaddr_storage_equals (r_ss p) tgt) (re_ratings e) = Some j"
      "v = r_rating (rate_seen from n (re_ratings e ! j))"
      "rs' = rs\<lparr>rlist := (rlist rs)[i := e\<lparr>re_updated := now,
          re_ratings := (re_ratings e)[j := rate_seen from n (re_ratings e ! j)]\<rparr>]\<rparr>"
  | i e where "find_index (\<lambda>e. memcmp (re_key e) h 20 = 0) (rlist rs) = Some i" "e = rlist rs ! i"
      "find_index (\<lambda>p. sockaddr_storage_equals (r_ss p) tgt) (re_ratings e) = None" "v = 0"
      "rs' = rs\<lparr>rlist := (rlist rs)[i := e\<lparr>re_ratings := re_ratings e @ [rating_create tgt from n]\<rparr>]\<rparr>"
  using assms by (auto simp: get_rating_def Let_def split: if_splits option.splits)

lemma ratings_okD: "ratings_ok rs \<Longrightarrow> i < length (rlist rs) \<Longrightarrow> p \<in> set (re_ratings (rlist rs ! i)) \<Longrightarrow> rating_ok p"
  using nth_mem by (fastforce simp: ratings_ok_def)

lemma ratings_ok_update:
  assumes "ratings_ok rs" "\<forall>p \<in> set (re_ratings e). rating_ok p"
  shows "ratings_ok (rs\<lparr>rlist := (rlist rs)[i := e]\<rparr>)"
  using assms set_update_subset_insert [of "rlist rs" i e] by (fastforce simp: ratings_ok_def)

lemma get_rating_ok:
  assumes "get_rating now h tgt from n rs = Some (v, rs')" "ratings_ok rs"
  shows "ratings_ok rs' \<and> 0 \<le> v \<and> v \<le> 10"
  using assms(1)
proof (cases rule: get_rating_cases)
  case new_key
  then show ?thesis using assms(2) by (simp add: ratings_ok_def rating_create_entry_def rating_create_ok)
next
  case (seen i e j)
  have i: "i < length (rlist rs)" and j: "j < length (re_ratings e)"
    using seen find_index_Some_less by auto
  have ok: "rating_ok (rate_seen from n (re_ratings e ! j))"
    using ratings_okD [OF assms(2) i] seen(2) j by (intro rate_seen_ok) simp
  have "\<forall>p \<in> set (re_ratings e). rating_ok p" using ratings_okD [OF assms(2) i] seen(2) by simp
  then have "\<forall>p \<in> set ((re_ratings e)[j := rate_seen from n (re_ratings e ! j)]). rating_ok p"
    using ok set_update_subset_insert by fastforce
  then show ?thesis using seen(4,5) ok assms(2) by (auto simp: rating_ok_def intro!: ratings_ok_update)
next
  case (new_target i e)
  have i: "i < length (rlist rs)" using new_target find_index_Some_less by auto
  then show ?thesis
    using new_target ratings_okD [OF assms(2) i] assms(2)
    by (auto intro!: ratings_ok_update simp: rating_create_ok)
qed


subsection \<open>A sender counts once\<close>

definition rateable :: "mem \<Rightarrow> bool" where
  "rateable ss \<longleftrightarrow> length ss = 128 \<and> (sa_family ss = AF_INET \<or> sa_family ss = AF_INET6)"

lemma copy_ss_equals: "rateable ss \<Longrightarrow> sockaddr_storage_equals (copy_ss ss) ss"
proof -
  assume r: "rateable ss"
  have l: "length (copy_ss ss) = 128"
    using r by (auto simp: rateable_def copy_ss_def Let_def zero_ss_def sin_port_def sin_addr_def sin6_addr_def)
  have f: "rd (copy_ss ss) 0 = rd ss 0" "rd (copy_ss ss) 1 = rd ss 1"
    using r l by (auto simp: rateable_def copy_ss_def Let_def memcpy_def zero_ss_def rd_def nth_append)
  have "sin_port (copy_ss ss) = sin_port ss"
    using r by (auto simp: rateable_def copy_ss_def Let_def memcpy_def zero_ss_def sin_port_def
        sin_addr_def sin6_addr_def slice_def drop_Cons' take_Cons')
  moreover have "sa_family ss = AF_INET \<Longrightarrow> sin_addr (copy_ss ss) = sin_addr ss"
    using r by (auto simp: rateable_def copy_ss_def Let_def memcpy_def zero_ss_def sin_port_def sin_addr_def slice_def)
  moreover have "sa_family ss = AF_INET6 \<Longrightarrow> sin6_addr (copy_ss ss) = sin6_addr ss"
    using r by (auto simp: rateable_def copy_ss_def Let_def memcpy_def zero_ss_def sin_port_def
        sin6_addr_def slice_def AF_INET_def AF_INET6_def)
  ultimately show ?thesis
    using r f by (auto simp: sockaddr_storage_equals_def rateable_def sa_family_def memcmp_def)
qed

text \<open>A candidate that this sender can no longer raise.\<close>

definition settled :: "mem \<Rightarrow> nat \<Rightarrow> result_rating \<Rightarrow> bool" where
  "settled from n p \<longleftrightarrow> 10 \<le> r_rating p \<or> bloom_check (r_frombloom p) (sha1 (take n from))"

lemma settled_rate: "settled from n p \<Longrightarrow> rate_seen from n p = p"
  by (auto simp: settled_def rate_seen_def Let_def)

lemma settled_rate_seen: "rating_ok p \<Longrightarrow> settled from n (rate_seen from n p)"
  by (auto simp: settled_def rate_seen_def rating_ok_def Let_def bloom.member_added)

lemma settled_create: "settled from n (rating_create ss from n)"
  by (simp add: settled_def rating_create_def bloom.member_added from_bloom_inv)

lemma r_ss_rate_seen [simp]: "r_ss (rate_seen from n p) = r_ss p"
  by (simp add: rate_seen_def Let_def)

text \<open>A call whose candidate is settled returns its rating unchanged.\<close>

lemma get_rating_settled:
  assumes "\<not> rfreed rs" "find_index (\<lambda>e. memcmp (re_key e) h 20 = 0) (rlist rs) = Some i"
    "find_index (\<lambda>p. sockaddr_storage_equals (r_ss p) tgt) (re_ratings (rlist rs ! i)) = Some j"
    "settled from n (re_ratings (rlist rs ! i) ! j)"
  shows "\<exists>rs'. get_rating now h tgt from n rs = Some (r_rating (re_ratings (rlist rs ! i) ! j), rs')"
  using assms by (simp add: get_rating_def settled_rate Let_def)

lemma get_rating_repeat:
  assumes "get_rating now h tgt from n rs = Some (v, rs')" "ratings_ok rs" "\<not> rfreed rs"
    "rateable tgt" "valid_id h"
  shows "\<exists>rs''. get_rating now' h tgt from n rs' = Some (v, rs'')"
  using assms(1)
proof (cases rule: get_rating_cases)
  case new_key
  have k: "memcmp (re_key (rating_create_entry now h tgt from n)) h 20 = 0"
    using assms(5) by (simp add: rating_create_entry_def memcmp_def valid_id_def)
  then have "find_index (\<lambda>e. memcmp (re_key e) h 20 = 0) (rlist rs') = Some 0" using new_key by simp
  then show ?thesis
    using get_rating_settled [of rs' h 0 tgt 0 "from" n now'] new_key assms(3,4)
    by (simp add: rating_create_entry_def copy_ss_equals settled_create) (simp add: rating_create_def copy_ss_equals)
next
  case (seen i e j)
  let ?e = "e\<lparr>re_updated := now, re_ratings := (re_ratings e)[j := rate_seen from n (re_ratings e ! j)]\<rparr>"
  have i: "i < length (rlist rs)" and j: "j < length (re_ratings e)"
    using seen find_index_Some_less by auto
  have pi: "memcmp (re_key e) h 20 = 0" using find_index_SomeD [OF seen(1)] seen(2) by simp
  have pj: "sockaddr_storage_equals (r_ss (re_ratings e ! j)) tgt" using find_index_SomeD [OF seen(3)] by simp
  have ok: "rating_ok (re_ratings e ! j)" using ratings_okD [OF assms(2) i] seen(2) j by simp
  have "find_index (\<lambda>e. memcmp (re_key e) h 20 = 0) (rlist rs') = Some i"
    using find_index_update [OF seen(1), of ?e] pi seen(5) by simp
  moreover have "find_index (\<lambda>p. sockaddr_storage_equals (r_ss p) tgt) (re_ratings ?e) = Some j"
    using find_index_update [OF seen(3), of "rate_seen from n (re_ratings e ! j)"] pj by simp
  ultimately show ?thesis
    using get_rating_settled [of rs' h i tgt j "from" n now'] i j seen(4,5) settled_rate_seen [OF ok] assms(3)
    by simp
next
  case (new_target i e)
  let ?p = "rating_create tgt from n"
  have i: "i < length (rlist rs)" using new_target find_index_Some_less by auto
  have pi: "memcmp (re_key e) h 20 = 0" using find_index_SomeD [OF new_target(1)] new_target(2) by simp
  have "find_index (\<lambda>e. memcmp (re_key e) h 20 = 0) (rlist rs') = Some i"
    using find_index_update [OF new_target(1), of "e\<lparr>re_ratings := re_ratings e @ [?p]\<rparr>"] pi new_target(5)
    by simp
  moreover have "find_index (\<lambda>p. sockaddr_storage_equals (r_ss p) tgt) (re_ratings e @ [?p]) =
      Some (length (re_ratings e))"
    using new_target(3) assms(4) by (intro find_index_snoc) (simp_all add: rating_create_def copy_ss_equals)
  moreover have "r_rating ?p = 0" by (simp add: rating_create_def)
  ultimately show ?thesis
    using get_rating_settled [of rs' h i tgt "length (re_ratings e)" "from" n now'] i new_target(4,5)
      settled_create [of "from" n tgt] assms(3)
    by simp
qed

subsection \<open>Properties\<close>

lemma ratings_ok_initial: "ratings_ok ratings_initial"
  by (simp add: ratings_ok_def ratings_initial_def)

text \<open>
  Ratings stay between 0 and 10. Every call of \<^verbatim>\<open>get_rating\<close> keeps all counters within these
  bounds and answers a value within them.
\<close>

theorem get_rating_bounds:
  assumes "ratings_ok rs" "get_rating t h tgt from n rs = Some (v, rs')"
  shows "ratings_ok rs' \<and> 0 \<le> v \<and> v \<le> 10"
  using assms(2,1) by (rule get_rating_ok)

lemma get_rating_bounds_witness:
  "\<exists>v rs'. get_rating 7 zeroes zero_ss [1] 1 ratings_initial = Some (v, rs') \<and> ratings_ok rs'"
proof -
  obtain v rs' where g: "get_rating 7 zeroes zero_ss [1] 1 ratings_initial = Some (v, rs')"
    by (simp add: get_rating_def ratings_initial_def)
  from get_rating_bounds [OF ratings_ok_initial g] g show ?thesis by blast
qed

text \<open>Any number of calls in a row, with any keys, candidates, senders and times.\<close>

fun get_ratings :: "(int \<times> mem \<times> mem \<times> mem \<times> nat) list \<Rightarrow> ratings \<Rightarrow> ratings option" where
  "get_ratings [] rs = Some rs"
| "get_ratings ((t, h, tgt, sender, n) # cs) rs =
     (case get_rating t h tgt sender n rs of None \<Rightarrow> None | Some (_, rs) \<Rightarrow> get_ratings cs rs)"

text \<open>The counter of a candidate for a key, if there is one.\<close>

definition rating_of :: "mem \<Rightarrow> mem \<Rightarrow> ratings \<Rightarrow> int option" where
  "rating_of h tgt rs =
     (case find_index (\<lambda>e. memcmp (re_key e) h 20 = 0) (rlist rs) of
        None \<Rightarrow> None
      | Some i \<Rightarrow> map_option (\<lambda>j. r_rating (re_ratings (rlist rs ! i) ! j))
          (find_index (\<lambda>p. sockaddr_storage_equals (r_ss p) tgt) (re_ratings (rlist rs ! i))))"

text \<open>The candidate is there and this sender can no longer raise it; every further call keeps that.\<close>

definition counted :: "mem \<Rightarrow> mem \<Rightarrow> mem \<Rightarrow> nat \<Rightarrow> ratings \<Rightarrow> bool" where
  "counted h tgt sender n rs \<longleftrightarrow>
     (\<exists>i j. find_index (\<lambda>e. memcmp (re_key e) h 20 = 0) (rlist rs) = Some i \<and>
       find_index (\<lambda>p. sockaddr_storage_equals (r_ss p) tgt) (re_ratings (rlist rs ! i)) = Some j \<and>
       settled sender n (re_ratings (rlist rs ! i) ! j))"

lemma settled_keep: "rating_ok p \<Longrightarrow> settled a m p \<Longrightarrow> settled a m (rate_seen b k p)"
  by (auto simp: settled_def rate_seen_def rating_ok_def Let_def bloom.member_kept)

lemma counted_first:
  assumes "get_rating t h tgt sender n rs = Some (v, rs')" "ratings_ok rs" "rateable tgt" "valid_id h"
  shows "counted h tgt sender n rs' \<and> rating_of h tgt rs' = Some v"
  using assms(1)
proof (cases rule: get_rating_cases)
  case new_key
  have "memcmp (re_key (rating_create_entry t h tgt sender n)) h 20 = 0"
    using assms(4) by (simp add: rating_create_entry_def memcmp_def valid_id_def)
  then show ?thesis using new_key assms(3)
    by (simp add: counted_def rating_of_def rating_create_entry_def settled_create)
      (simp add: rating_create_def copy_ss_equals)
next
  case (seen i e j)
  let ?p = "rate_seen sender n (re_ratings e ! j)"
  let ?e = "e\<lparr>re_updated := t, re_ratings := (re_ratings e)[j := ?p]\<rparr>"
  have i: "i < length (rlist rs)" and j: "j < length (re_ratings e)" using seen find_index_Some_less by auto
  have "find_index (\<lambda>e. memcmp (re_key e) h 20 = 0) (rlist rs') = Some i"
    using find_index_update [OF seen(1), of ?e] find_index_SomeD [OF seen(1)] seen(2,5) by simp
  moreover have "find_index (\<lambda>p. sockaddr_storage_equals (r_ss p) tgt) (re_ratings ?e) = Some j"
    using find_index_update [OF seen(3), of ?p] find_index_SomeD [OF seen(3)] by simp
  moreover have "rating_ok (re_ratings e ! j)" using ratings_okD [OF assms(2) i] seen(2) j by simp
  ultimately show ?thesis using i j seen(4,5) settled_rate_seen by (simp add: counted_def rating_of_def)
next
  case (new_target i e)
  let ?p = "rating_create tgt sender n" and ?e = "e\<lparr>re_ratings := re_ratings e @ [rating_create tgt sender n]\<rparr>"
  have i: "i < length (rlist rs)" using new_target find_index_Some_less by auto
  have "find_index (\<lambda>e. memcmp (re_key e) h 20 = 0) (rlist rs') = Some i"
    using find_index_update [OF new_target(1), of ?e] find_index_SomeD [OF new_target(1)] new_target(2,5) by simp
  moreover have "find_index (\<lambda>p. sockaddr_storage_equals (r_ss p) tgt) (re_ratings e @ [?p]) = Some (length (re_ratings e))"
    using new_target(3) assms(3) by (intro find_index_snoc) (simp_all add: rating_create_def copy_ss_equals)
  moreover have "r_rating ?p = 0" by (simp add: rating_create_def)
  ultimately show ?thesis using i new_target(4,5) settled_create by (simp add: counted_def rating_of_def)
qed

lemma counted_kept:
  assumes "get_rating t h' tgt' sender' n' rs = Some (v, rs')" "ratings_ok rs" "counted h tgt sender n rs" "valid_id h" "valid_id h'"
  shows "counted h tgt sender n rs'"
proof -
  obtain i j where ij: "find_index (\<lambda>e. memcmp (re_key e) h 20 = 0) (rlist rs) = Some i"
    "find_index (\<lambda>p. sockaddr_storage_equals (r_ss p) tgt) (re_ratings (rlist rs ! i)) = Some j"
    "settled sender n (re_ratings (rlist rs ! i) ! j)" using assms(3) by (auto simp: counted_def)
  have i: "i < length (rlist rs)" and j: "j < length (re_ratings (rlist rs ! i))" using ij find_index_Some_less by auto
  have keep: "counted h tgt sender n (rs\<lparr>rlist := (rlist rs)[k := e]\<rparr>)"
    if "re_key e = re_key (rlist rs ! k)" "k < length (rlist rs)"
      and "k = i \<Longrightarrow> find_index (\<lambda>p. sockaddr_storage_equals (r_ss p) tgt) (re_ratings e) = Some j \<and> settled sender n (re_ratings e ! j)" for k e
  proof -
    have "find_index (\<lambda>e. memcmp (re_key e) h 20 = 0) ((rlist rs)[k := e]) = Some i"
      using ij(1) that(1,2) by (simp add: find_index_update_same)
    then show ?thesis using ij i that by (cases "k = i") (auto simp: counted_def)
  qed
  from assms(1) show ?thesis
  proof (cases rule: get_rating_cases)
    case new_key
    have "memcmp (re_key (rlist rs ! i)) h 20 = 0" using find_index_SomeD [OF ij(1)] by simp
    moreover have "memcmp (re_key (rlist rs ! i)) h' 20 \<noteq> 0" using new_key(1) nth_mem [OF i] by (auto simp: find_index_None)
    ultimately have "h \<noteq> h'" by auto
    then have "memcmp (take 20 h') h 20 \<noteq> 0" using assms(4,5) by (simp add: memcmp_def valid_id_def bytes_cmp_eq_0)
    then show ?thesis using new_key ij by (auto simp: counted_def rating_create_entry_def)
  next
    case (seen k e l)
    have kl: "k < length (rlist rs)" "l < length (re_ratings e)" using seen find_index_Some_less by auto
    let ?p = "rate_seen sender' n' (re_ratings e ! l)"
    have "find_index (\<lambda>p. sockaddr_storage_equals (r_ss p) tgt) ((re_ratings e)[l := ?p]) = Some j \<and>
        settled sender n ((re_ratings e)[l := ?p] ! j)" if "k = i"
    proof -
      have "find_index (\<lambda>p. sockaddr_storage_equals (r_ss p) tgt) ((re_ratings e)[l := ?p]) = Some j"
        using ij(2) kl(2) that seen(2) by (simp add: find_index_update_same)
      moreover have "rating_ok (re_ratings e ! j)" using ratings_okD [OF assms(2) i] that seen(2) j by simp
      ultimately show ?thesis using ij(3) that seen(2) j settled_keep by (cases "l = j") auto
    qed
    then show ?thesis unfolding seen(5) using kl(1) seen(2) by (intro keep) simp_all
  next
    case (new_target k e)
    have k: "k < length (rlist rs)" using new_target find_index_Some_less by auto
    then show ?thesis unfolding new_target(5) using ij(2,3) j new_target(2)
      by (intro keep) (auto simp: find_index_append nth_append)
  qed
qed

lemma counted_get_ratings:
  assumes "get_ratings cs rs = Some rs'" "ratings_ok rs" "counted h tgt sender n rs" "valid_id h" "\<forall>(t, h', _) \<in> set cs. valid_id h'"
  shows "counted h tgt sender n rs' \<and> ratings_ok rs'"
  using assms(1-3,5)
proof (induction cs rs rule: get_ratings.induct)
  case (2 t h' tgt' sender' n' cs rs)
  then obtain v u where u: "get_rating t h' tgt' sender' n' rs = Some (v, u)" "get_ratings cs u = Some rs'"
    by (auto split: option.splits)
  from "2.IH" [OF u(1) refl u(2)] show ?case
    using counted_kept [OF u(1)] get_rating_ok [OF u(1)] "2.prems" assms(4) by simp
qed simp

lemma counted_again:
  assumes "get_rating t h tgt sender n rs = Some (v, rs')" "counted h tgt sender n rs" "valid_id h"
  shows "rating_of h tgt rs' = rating_of h tgt rs" "rating_of h tgt rs = Some v"
proof -
  obtain i j where ij: "find_index (\<lambda>e. memcmp (re_key e) h 20 = 0) (rlist rs) = Some i"
    "find_index (\<lambda>p. sockaddr_storage_equals (r_ss p) tgt) (re_ratings (rlist rs ! i)) = Some j"
    "settled sender n (re_ratings (rlist rs ! i) ! j)" using assms(2) by (auto simp: counted_def)
  have i: "i < length (rlist rs)" using ij find_index_Some_less by auto
  have "rs' = rs\<lparr>rlist := (rlist rs)[i := (rlist rs ! i)\<lparr>re_updated := t\<rparr>]\<rparr>" "v = r_rating (re_ratings (rlist rs ! i) ! j)"
    using assms(1) ij settled_rate [OF ij(3)] by (auto simp: get_rating_def Let_def split: if_splits)
  moreover have "find_index (\<lambda>e. memcmp (re_key e) h 20 = 0) ((rlist rs)[i := (rlist rs ! i)\<lparr>re_updated := t\<rparr>]) = Some i"
    using ij(1) i by (simp add: find_index_update_same)
  ultimately show "rating_of h tgt rs' = rating_of h tgt rs" "rating_of h tgt rs = Some v" using ij i by (simp_all add: rating_of_def)
qed

text \<open>
  C32: a sender counts once. After a sender has reported a candidate for a key, and after any number of further
  reports by anybody, a new report of this candidate by the same sender for this key finds it and leaves its counter as it is:
  it answers the counter that the others have raised meanwhile and adds nothing.
\<close>

theorem get_rating_sender_counts_once:
  assumes "ratings_ok rs" "rateable tgt" "valid_id h" "\<forall>(t, h', _) \<in> set cs. valid_id h'"
    "get_rating t h tgt sender n rs = Some (v, rs1)" "get_ratings cs rs1 = Some rs2" "get_rating t' h tgt sender n rs2 = Some (v', rs3)"
  shows "rating_of h tgt rs1 = Some v \<and> rating_of h tgt rs2 = Some v' \<and> rating_of h tgt rs3 = Some v'"
proof -
  note c = counted_first [OF assms(5,1,2,3)]
  have "ratings_ok rs1" using get_rating_ok [OF assms(5,1)] by simp
  note k = counted_get_ratings [OF assms(6) this conjunct1 [OF c] assms(3,4)]
  show ?thesis using c counted_again [OF assms(7) conjunct1 [OF k] assms(3)] by simp
qed

text \<open>The senders 1, 2, 1: the second report of the first one adds nothing to the counter 1 that the other one gave.\<close>

lemma get_rating_sender_counts_once_witness:
  "\<exists>rs1 rs2 rs3 v v'. get_rating 7 zeroes (set_family 2 zero_ss) [1] 1 ratings_initial = Some (v, rs1) \<and>
     get_ratings [(8, zeroes, set_family 2 zero_ss, [2], 1)] rs1 = Some rs2 \<and>
     get_rating 9 zeroes (set_family 2 zero_ss) [1] 1 rs2 = Some (v', rs3) \<and>
     rating_of zeroes (set_family 2 zero_ss) rs2 = Some v' \<and> rating_of zeroes (set_family 2 zero_ss) rs3 = Some v'"
proof -
  let ?t = "set_family 2 zero_ss"
  have r: "rateable ?t" by (simp add: rateable_def set_family_def zero_ss_def sa_family_def memcpy_def rd_def AF_INET_def)
  have live: "\<exists>v rs'. get_rating t h tgt a n rs = Some (v, rs') \<and> \<not> rfreed rs'" if "\<not> rfreed rs" for t h tgt a n rs
    using that by (auto simp: get_rating_def Let_def split: option.split)
  obtain v rs1 where g: "get_rating 7 zeroes ?t [1] 1 ratings_initial = Some (v, rs1)" "\<not> rfreed rs1"
    using live [of ratings_initial 7 zeroes ?t "[1]" 1] by (auto simp: ratings_initial_def)
  obtain w rs2 where h: "get_rating 8 zeroes ?t [2] 1 rs1 = Some (w, rs2)" "\<not> rfreed rs2" using live [OF g(2)] by blast
  obtain v' rs3 where k: "get_rating 9 zeroes ?t [1] 1 rs2 = Some (v', rs3)" using live [OF h(2)] by blast
  have cs: "get_ratings [(8, zeroes, ?t, [2], 1)] rs1 = Some rs2" using h(1) by simp
  from get_rating_sender_counts_once [OF ratings_ok_initial r valid_zeroes _ g(1) cs k] g(1) cs k show ?thesis by auto
qed

end
