(* ===== verification/Dtndht.thy ===== *)
theory Dtndht
  imports Machine Entry_List Rating
begin

text \<open>
  The interface \<^verbatim>\<open>dtndht.c\<close> over \<^verbatim>\<open>dht.c\<close>, with the two loops of \<^verbatim>\<open>list.c\<close> that call back into it and the
  readiness test of \<^verbatim>\<open>bootstrapping.c\<close>. Its static variables extend the record of \<^verbatim>\<open>dht.c\<close>. \<open>clock_src\<close>
  are the answers to \<^verbatim>\<open>time(NULL)\<close>, \<open>malloc_src\<close> the contents of the uninitialised blocks from
  \<^verbatim>\<open>malloc\<close>.
\<close>

subsection \<open>State\<close>

record dtndht = dht +
  minimum_rating :: nat
  announcetable :: "dhtentry list"
  lookuptable :: "dhtentry list"
  ratings_list :: ratings
  dht_has_been_ready :: bool
  clock_src :: "int answers"
  malloc_src :: "mem answers"

datatype dtn_dht_bind_type = BINDNONE | IPV4ONLY | IPV6ONLY | BINDBOTH

record dtn_dht_context =
  ipv4socket :: int
  ipv6socket :: int
  cx_id :: mem
  cx_port :: int
  cx_type :: dtn_dht_bind_type
  cx_bind :: "mem option"
  cx_bind6 :: "mem option"
  cx_minimum_rating :: nat
  cx_clayer :: "convergence_layer list"

definition SHA_DIGEST_LENGTH :: nat where "SHA_DIGEST_LENGTH = 20"
definition LOOKUP_THRESHOLD :: int where "LOOKUP_THRESHOLD = 1800"
definition REANNOUNCE_THRESHOLD :: int where "REANNOUNCE_THRESHOLD = 600"
definition BOOTSTRAPPING_SEARCH_THRESHOLD :: nat where "BOOTSTRAPPING_SEARCH_THRESHOLD = 8"
definition DHT_READY_THRESHOLD :: nat where "DHT_READY_THRESHOLD = 30"

definition c_time :: "dtndht \<Rightarrow> int \<times> dtndht" where
  "c_time s = (clock_src s 0, s\<lparr>clock_src := later (clock_src s)\<rparr>)"

definition dtndht_static :: "nat answers \<Rightarrow> bool answers \<Rightarrow> int answers \<Rightarrow> int answers \<Rightarrow> mem answers \<Rightarrow> dtndht" where
  "dtndht_static ra ca so ti ma = dht.extend (static_dht ra ca so)
     (dtndht.fields 1 [] [] ratings_initial False ti ma)"

subsection \<open>The call-back\<close>

definition cpyvaluetosocketstorage :: "mem \<Rightarrow> mem \<Rightarrow> nat \<Rightarrow> mem" where
  "cpyvaluetosocketstorage target val af =
     (if af = AF_INET then memcpy (memcpy target 4 val 4) 2 (drop 4 val) 2
      else if af = AF_INET6 then memcpy (memcpy target 8 val 16) 2 (drop 16 val) 2
      else target)"

text \<open>
  The array \<^verbatim>\<open>ss\<close>: uninitialised blocks of 128 bytes in which family, address and port are set. The family
  is \<^verbatim>\<open>AF_INET\<close> in both cases, as in the source.
\<close>

definition malloc_ss :: "nat \<Rightarrow> dtndht \<Rightarrow> mem list \<times> dtndht" where
  "malloc_ss cnt s =
     (map (\<lambda>i. take 128 (malloc_src s i @ replicate 128 0)) [0..<cnt],
      s\<lparr>malloc_src := (\<lambda>i. malloc_src s (i + cnt))\<rparr>)"

definition fill_ss :: "nat \<Rightarrow> nat \<Rightarrow> mem \<Rightarrow> mem list \<Rightarrow> mem list" where
  "fill_ss af n dat ss =
     map (\<lambda>i. cpyvaluetosocketstorage (set_family AF_INET (ss ! i)) (slice (n * i) n dat) af) [0..<length ss]"

text \<open>
  The rating of the \<open>i\<close>-th candidate is asked with \<^verbatim>\<open>ss\<close>, the address of the first one. The time is
  taken once per call; \<^verbatim>\<open>get_rating\<close> uses it only when it finds or creates an entry. Reading
  a list that \<^verbatim>\<open>free_ratings\<close> has freed is a use of freed memory, and the model aborts.
\<close>

fun rate_all :: "nat \<Rightarrow> mem \<Rightarrow> mem \<Rightarrow> mem \<Rightarrow> nat \<Rightarrow> dtndht \<Rightarrow> int list \<times> dtndht" where
  "rate_all 0 info_hash target sa n s = ([], s)"
| "rate_all (Suc k) info_hash target sa n s =
     (let (t, s) = c_time s in
      case get_rating t info_hash target sa n (ratings_list s) of
        None \<Rightarrow> ([], c_abort s)
      | Some (r, rs) \<Rightarrow>
          let (l, s) = rate_all k info_hash target sa n (s\<lparr>ratings_list := rs\<rparr>) in (r # l, s))"

fun ping_rated :: "(mem \<times> int) list \<Rightarrow> nat \<Rightarrow> dtndht \<Rightarrow> dtndht" where
  "ping_rated [] n s = s"
| "ping_rated ((ss, r) # l) n s =
     ping_rated l n (if r > 0 \<and> r \<ge> int (minimum_rating s) then snd (dht_ping_dtn_node ss n s) else s)"

definition values_found :: "nat \<Rightarrow> nat \<Rightarrow> mem \<Rightarrow> mem \<Rightarrow> mem \<Rightarrow> nat \<Rightarrow> dtndht \<Rightarrow> dtndht" where
  "values_found af sz info_hash dat sa n s =
     (let (ss, s) = malloc_ss (length dat div sz) s; ss = fill_ss af sz dat ss;
          (l, s) = rate_all (length ss) info_hash (ss ! 0) sa n s
      in ping_rated (zip ss l) n s)"

definition search_done_status :: "dht_lookup_status \<Rightarrow> dht_lookup_status" where
  "search_done_status st = (case st of SEARCHING \<Rightarrow> DONE | REPEAT_SEARCH \<Rightarrow> DONE_AND_READY_FOR_REPEAT | _ \<Rightarrow> st)"

definition search_done :: "mem \<Rightarrow> dtndht \<Rightarrow> dtndht" where
  "search_done info_hash s =
     (let s = (case getFromList info_hash (lookuptable s) of None \<Rightarrow> s
               | Some i \<Rightarrow> s\<lparr>lookuptable :=
                   update_at i (\<lambda>e. e\<lparr>e_status := search_done_status (e_status e)\<rparr>) (lookuptable s)\<rparr>)
      in visible (Operation_done info_hash) s)"

definition dtn_callback :: "(unit dtndht_ext) callback" where
  "dtn_callback ev info_hash dat sa n s =
     (if ev = DHT_EVENT_SEARCH_DONE \<or> ev = DHT_EVENT_SEARCH_DONE6 then search_done info_hash s
      else if blacklist_is_enabled (extbl s) \<and> blacklist_id_blacklisted info_hash (idblacklist (extbl s))
      then s\<lparr>extbl := blacklist_blacklist_node sa info_hash (extbl s)\<rparr>
      else if getFromList info_hash (lookuptable s) = None then s
      else if ev = DHT_EVENT_VALUES then values_found AF_INET 6 info_hash dat sa n s
      else values_found AF_INET6 18 info_hash dat sa n s)"

subsection \<open>Searching, looking up, announcing\<close>

definition dtn_dht_search :: "dtn_dht_context \<Rightarrow> mem \<Rightarrow> nat \<Rightarrow> dtndht \<Rightarrow> int \<times> dtndht" where
  "dtn_dht_search ctx x port s =
     (case cx_type ctx of
        BINDBOTH \<Rightarrow>
          (let (rc, s) = dht_search x port AF_INET (Some dtn_callback) s in
           if rc < 0 then (rc, s) else dht_search x port AF_INET6 (Some dtn_callback) s)
      | IPV4ONLY \<Rightarrow> dht_search x port AF_INET (Some dtn_callback) s
      | IPV6ONLY \<Rightarrow> dht_search x port AF_INET6 (Some dtn_callback) s
      | BINDNONE \<Rightarrow> (0, s))"

definition good_nodes :: "nat \<Rightarrow> dtndht \<Rightarrow> nat" where
  "good_nodes af s = fst (dht_nodes af s)"

definition dtn_dht_ready_for_work :: "dtn_dht_context \<Rightarrow> dtndht \<Rightarrow> int \<times> dtndht" where
  "dtn_dht_ready_for_work ctx s =
     (let good = (if ipv4socket ctx \<ge> 0 then good_nodes AF_INET s else 0);
          good6 = (if ipv6socket ctx \<ge> 0 then good_nodes AF_INET6 s else 0);
          rc = (if dht_has_been_ready s then 1 else 0);
          rc = (if ipv4socket ctx \<ge> 0 \<and> good \<ge> BOOTSTRAPPING_SEARCH_THRESHOLD \<and> good < DHT_READY_THRESHOLD then 2 else rc);
          rc = (if ipv6socket ctx \<ge> 0 \<and> good6 \<ge> BOOTSTRAPPING_SEARCH_THRESHOLD \<and> good6 < DHT_READY_THRESHOLD then 2 else rc)
      in if good \<ge> DHT_READY_THRESHOLD \<or> good6 \<ge> DHT_READY_THRESHOLD
         then (3, s\<lparr>dht_has_been_ready := True\<rparr>) else (rc, s))"

definition set_minimum :: "dtn_dht_context \<Rightarrow> dtndht \<Rightarrow> dtndht" where
  "set_minimum ctx s = s\<lparr>minimum_rating := cx_minimum_rating ctx\<rparr>"

definition key_of :: "mem \<Rightarrow> mem" where
  "key_of eid = dht_hash SHA_DIGEST_LENGTH eid [] []"

definition start_lookup :: "dtn_dht_context \<Rightarrow> mem \<Rightarrow> dtndht \<Rightarrow> int \<times> dtndht" where
  "start_lookup ctx key s =
     (case getFromList key (announcetable s) of
        None \<Rightarrow> dtn_dht_search ctx key 0 s
      | Some i \<Rightarrow> if \<not> e_announce (announcetable s ! i) then dtn_dht_search ctx key 0 s else (1, s))"

definition dtn_dht_lookup :: "dtn_dht_context \<Rightarrow> mem \<Rightarrow> dtndht \<Rightarrow> int \<times> dtndht" where
  "dtn_dht_lookup ctx eid s =
     (let (rdy, s) = dtn_dht_ready_for_work ctx s in
      if rdy = 0 then (0, s)
      else
        let s = set_minimum ctx s; key = key_of eid in
        case getFromList key (lookuptable s) of
          None \<Rightarrow> let (t, s) = c_time s in start_lookup ctx key (s\<lparr>lookuptable := addToList t key (lookuptable s)\<rparr>)
        | Some i \<Rightarrow>
            if e_status (lookuptable s ! i) = SEARCHING \<or> e_status (lookuptable s ! i) = REPEAT_SEARCH
            then (1, s\<lparr>lookuptable := update_at i (\<lambda>e. e\<lparr>e_status := REPEAT_SEARCH\<rparr>) (lookuptable s)\<rparr>)
            else let (t, s) = c_time s
                 in start_lookup ctx key
                      (s\<lparr>lookuptable := update_at i (\<lambda>e. e\<lparr>e_updatetime := t, e_status := SEARCHING\<rparr>) (lookuptable s)\<rparr>))"

definition dtn_dht_announce ::
  "dtn_dht_context \<Rightarrow> mem \<Rightarrow> dtn_dht_lookup_type \<Rightarrow> dtndht \<Rightarrow> int \<times> dtndht" where
  "dtn_dht_announce ctx eid ty s =
     (let s = set_minimum ctx s; s = snd (dht_add_dtn_eid eid ty s); key = key_of eid in
      case getFromList key (announcetable s) of
        None \<Rightarrow>
          let (t, s) = c_time s;
              s = s\<lparr>announcetable := update_at 0 (\<lambda>e. e\<lparr>e_announce := True\<rparr>) (addToList t key (announcetable s))\<rparr>;
              (rdy, s) = dtn_dht_ready_for_work ctx s
          in if rdy = 0
             then (0, s\<lparr>announcetable := update_at 0 (\<lambda>e. e\<lparr>e_updatetime := 0\<rparr>) (announcetable s)\<rparr>)
             else dtn_dht_search ctx key (nat (cx_port ctx mod 65536)) s
      | Some i \<Rightarrow> (0, s\<lparr>announcetable := update_at i (\<lambda>e. e\<lparr>e_announce := True\<rparr>) (announcetable s)\<rparr>))"

definition dtn_dht_deannounce :: "mem \<Rightarrow> dtndht \<Rightarrow> int \<times> dtndht" where
  "dtn_dht_deannounce eid s =
     (let s = snd (dht_remove_dtn_eid eid s)
      in (0, s\<lparr>announcetable := deactivateFromList (key_of eid) (announcetable s)\<rparr>))"

subsection \<open>Repeating\<close>

text \<open>
  The loops of \<^verbatim>\<open>list.c\<close>: the searches they start may call back and change the entries, not their
  places, so a pointer into the table is a position.
\<close>

fun reannounce_from :: "dtn_dht_context \<Rightarrow> int \<Rightarrow> nat list \<Rightarrow> int \<Rightarrow> dtndht \<Rightarrow> int \<times> dtndht" where
  "reannounce_from ctx threshold [] result s = (result, s)"
| "reannounce_from ctx threshold (i # is) result s =
     (let (acttime, s) = c_time s; pos = announcetable s ! i in
      if e_announce pos \<and> e_updatetime pos + threshold < acttime then
        let (rc, s) = dtn_dht_search ctx (e_md pos) (nat (cx_port ctx mod 65536)) s in
        if rc < 0 then reannounce_from ctx threshold is (result - 1) s
        else let (t, s) = c_time s
             in reannounce_from ctx threshold is result
                  (s\<lparr>announcetable := update_at i (\<lambda>e. e\<lparr>e_updatetime := t\<rparr>) (announcetable s)\<rparr>)
      else reannounce_from ctx threshold is result s)"

definition reannounceList :: "dtn_dht_context \<Rightarrow> int \<Rightarrow> dtndht \<Rightarrow> int \<times> dtndht" where
  "reannounceList ctx threshold s = reannounce_from ctx threshold [0..<length (announcetable s)] 0 s"

fun relookup_from :: "dtn_dht_context \<Rightarrow> nat list \<Rightarrow> int \<Rightarrow> dtndht \<Rightarrow> int \<times> dtndht" where
  "relookup_from ctx [] result s = (result, s)"
| "relookup_from ctx (i # is) result s =
     (if e_status (lookuptable s ! i) = DONE_AND_READY_FOR_REPEAT then
        let (rc, s) = dtn_dht_search ctx (e_md (lookuptable s ! i)) 0 s in
        if rc < 0 then relookup_from ctx is (result - 1) s
        else let (t, s) = c_time s
             in relookup_from ctx is result
                  (s\<lparr>lookuptable := update_at i (\<lambda>e. e\<lparr>e_status := SEARCHING, e_updatetime := t\<rparr>) (lookuptable s)\<rparr>)
      else relookup_from ctx is result s)"

definition relookupList :: "dtn_dht_context \<Rightarrow> dtndht \<Rightarrow> int \<times> dtndht" where
  "relookupList ctx s = relookup_from ctx [0..<length (lookuptable s)] 0 s"

text \<open>\<^verbatim>\<open>cleanUpList\<close> asks for the time once per entry.\<close>

definition pass_time :: "nat \<Rightarrow> dtndht \<Rightarrow> dtndht" where
  "pass_time n s = s\<lparr>clock_src := (\<lambda>i. clock_src s (i + n))\<rparr>"

definition cleanup_lookups :: "int \<Rightarrow> dtndht \<Rightarrow> dtndht" where
  "cleanup_lookups threshold s =
     (pass_time (length (lookuptable s)) s)\<lparr>lookuptable := cleanUpList (clock_src s) threshold (lookuptable s)\<rparr>"

definition cleanup_announces :: "int \<Rightarrow> dtndht \<Rightarrow> dtndht" where
  "cleanup_announces threshold s =
     (pass_time (length (announcetable s)) s)\<lparr>announcetable := cleanUpList (clock_src s) threshold (announcetable s)\<rparr>"

definition dtn_dht_periodic ::
  "dtn_dht_context \<Rightarrow> mem \<Rightarrow> nat \<Rightarrow> mem \<Rightarrow> nat \<Rightarrow> mem \<Rightarrow> int \<Rightarrow> dtndht \<Rightarrow> (int \<times> int option) \<times> dtndht" where
  "dtn_dht_periodic ctx buf n sa salen tid0 t s =
     (let s = set_minimum ctx s; (rdy, s) = dtn_dht_ready_for_work ctx s;
          s = (if rdy \<ge> 2 then
                 snd (relookupList ctx (snd (reannounceList ctx REANNOUNCE_THRESHOLD s)))
               else s);
          s = cleanup_announces LOOKUP_THRESHOLD (cleanup_lookups LOOKUP_THRESHOLD s)
      in dht_periodic buf n sa salen tid0 t (cx_clayer ctx) (Some dtn_callback) s)"

subsection \<open>Start and stop\<close>

definition dtn_dht_initstruct :: "dtndht \<Rightarrow> int \<times> dtn_dht_context \<times> dtndht" where
  "dtn_dht_initstruct s =
     (let (x, s) = dht_random_bytes SHA_DIGEST_LENGTH s
      in (1, \<lparr>ipv4socket = - 1, ipv6socket = - 1, cx_id = x, cx_port = 9999, cx_type = BINDBOTH, cx_bind = None, cx_bind6 = None,
           cx_minimum_rating = 0, cx_clayer = []\<rparr>, s))"

definition dtn_dht_init :: "dtn_dht_context \<Rightarrow> bool \<Rightarrow> bool \<Rightarrow> int \<Rightarrow> dtndht \<Rightarrow> int \<times> dtndht" where
  "dtn_dht_init ctx nb nb6 t s =
     dht_init (ipv4socket ctx) (ipv6socket ctx) (cx_id ctx) None nb nb6 t
       ((set_minimum ctx s)\<lparr>announcetable := [], lookuptable := []\<rparr>)"

definition dtn_dht_uninit :: "dtndht \<Rightarrow> int \<times> dtndht" where
  "dtn_dht_uninit s =
     (let s = (case free_ratings (ratings_list s) of None \<Rightarrow> c_abort s | Some rs \<Rightarrow> s\<lparr>ratings_list := rs\<rparr>);
          s = s\<lparr>announcetable := map (\<lambda>e. e\<lparr>e_announce := False\<rparr>) (announcetable s)\<rparr>;
          s = cleanup_lookups (- 1) (cleanup_announces (- 1) s)
      in dht_uninit (s\<lparr>extbl := blacklist_free (extbl s)\<rparr>))"

text \<open>
  \<^verbatim>\<open>dtn_dht_init_sockets\<close>: the arguments are what the system answers, \<^verbatim>\<open>inet_pton\<close> (None when the text is
  no address), \<^verbatim>\<open>bind\<close> for a descriptor and an address, \<^verbatim>\<open>setsockopt\<close>, and \<^verbatim>\<open>socket\<close> for both families.
\<close>

definition port_bytes :: "int \<Rightarrow> mem" where
  "port_bytes port = [word_of_int (port div 256), word_of_int port]"

definition bind_addr :: "(nat \<Rightarrow> mem \<Rightarrow> mem option) \<Rightarrow> nat \<Rightarrow> nat \<Rightarrow> mem option \<Rightarrow> mem" where
  "bind_addr pton af n b =
     (case b of None \<Rightarrow> replicate n 0
      | Some x \<Rightarrow> (case pton af x of None \<Rightarrow> replicate n 0 | Some a \<Rightarrow> take n a))"

definition bind_sockets ::
  "(nat \<Rightarrow> mem \<Rightarrow> mem option) \<Rightarrow> (int \<Rightarrow> mem \<Rightarrow> int) \<Rightarrow> int \<Rightarrow> dtn_dht_context \<Rightarrow> int" where
  "bind_sockets pton bindf opt6 ctx =
     (let sin = mk_sin (bind_addr pton AF_INET 4 (cx_bind ctx)) (port_bytes (cx_port ctx));
          sin6 = mk_sin6 (bind_addr pton AF_INET6 16 (cx_bind6 ctx)) (port_bytes (cx_port ctx))
      in if ipv4socket ctx \<ge> 0 \<and> bindf (ipv4socket ctx) sin < 0 then bindf (ipv4socket ctx) sin
         else if ipv6socket ctx \<ge> 0 then
           (if opt6 < 0 then opt6
            else if bindf (ipv6socket ctx) sin6 < 0 then bindf (ipv6socket ctx) sin6 else 0)
         else 0)"

definition dtn_dht_init_sockets ::
  "(nat \<Rightarrow> mem \<Rightarrow> mem option) \<Rightarrow> (int \<Rightarrow> mem \<Rightarrow> int) \<Rightarrow> int \<Rightarrow> int \<Rightarrow> int \<Rightarrow> dtn_dht_context \<Rightarrow>
     int \<times> dtn_dht_context" where
  "dtn_dht_init_sockets pton bindf opt6 so4 so6 ctx =
     (if cx_port ctx \<le> 0 \<or> cx_port ctx \<ge> 0x10000 then (- 3, ctx)
      else
        let rc4 = (if so4 < 0 then - 1 else 0);
            (rc, ctx) = (case cx_type ctx of
               BINDNONE \<Rightarrow> (0, ctx\<lparr>ipv4socket := - 1, ipv6socket := - 1\<rparr>)
             | IPV4ONLY \<Rightarrow> (rc4, ctx\<lparr>ipv4socket := so4, ipv6socket := - 1\<rparr>)
             | IPV6ONLY \<Rightarrow> (if so6 < 0 then - 2 else 0, ctx\<lparr>ipv4socket := - 1, ipv6socket := so6\<rparr>)
             | BINDBOTH \<Rightarrow> (if so6 < 0 then - 2 else rc4, ctx\<lparr>ipv4socket := so4, ipv6socket := so6\<rparr>))
        in if rc < 0 then (rc, ctx) else (bind_sockets pton bindf opt6 ctx, ctx))"

text \<open>The functions that only pass on.\<close>

definition dtn_dht_blacklist :: "bool \<Rightarrow> dtndht \<Rightarrow> dtndht" where
  "dtn_dht_blacklist enable s = s\<lparr>extbl := blacklist_enable enable (extbl s)\<rparr>"

definition dtn_dht_blacklisted_nodes :: "dtndht \<Rightarrow> nat \<times> nat \<times> nat" where
  "dtn_dht_blacklisted_nodes s = blacklist_size (extbl s)"

definition dht_blacklisted :: "mem \<Rightarrow> dtndht \<Rightarrow> bool" where
  "dht_blacklisted sa s = blacklist_blacklisted sa (extbl s)"

definition dtn_dht_nodes :: "nat \<Rightarrow> dtndht \<Rightarrow> nat \<times> nat \<times> nat" where
  "dtn_dht_nodes af s = (case dht_nodes af s of (good, dubious, cached, incoming, every) \<Rightarrow> (good, dubious, every))"

end
