(* ===== verification/Bootstrapping.thy ===== *)
theory Bootstrapping
  imports Dtndht
begin

text \<open>
  \<^verbatim>\<open>bootstrapping.c\<close>: the first nodes from the name service and from a file, saving the nodes, and
  random look-ups. What \<^verbatim>\<open>getaddrinfo\<close>, \<^verbatim>\<open>fopen\<close>, \<^verbatim>\<open>fread\<close>, \<^verbatim>\<open>fwrite\<close> and \<^verbatim>\<open>fclose\<close> answer are
  arguments; messages on \<^verbatim>\<open>stderr\<close> are left out.
\<close>

subsection \<open>Name service\<close>

definition BOOTSTRAPPING_DOMAIN :: mem where "BOOTSTRAPPING_DOMAIN = ascii ''dtndht.ibr.cs.tu-bs.de''"
definition BOOTSTRAPPING_SERVICE :: mem where "BOOTSTRAPPING_SERVICE = ascii ''6881''"

definition AF_UNSPEC :: nat where "AF_UNSPEC = 0"

fun ping_results :: "(mem \<times> nat) list \<Rightarrow> int \<Rightarrow> 'a dht_scheme \<Rightarrow> int \<times> 'a dht_scheme" where
  "ping_results [] rc s = (rc, s)"
| "ping_results ((sa, n) # rs) rc s =
     (let (error, s) = dht_ping_node sa n s in ping_results rs (if error < 0 then rc - 1 else rc) s)"

text \<open>\<open>resolve\<close> is \<^verbatim>\<open>getaddrinfo\<close>: host, service and family to an error code or a list of addresses.\<close>

definition bootstrapping_dns ::
  "(mem \<Rightarrow> mem \<Rightarrow> nat \<Rightarrow> int + (mem \<times> nat) list) \<Rightarrow> dtn_dht_context \<Rightarrow> mem option \<Rightarrow> mem option \<Rightarrow>
     'a dht_scheme \<Rightarrow> int \<times> 'a dht_scheme" where
  "bootstrapping_dns resolve ctx name service s =
     (let ask = (\<lambda>family.
            case name of
              None \<Rightarrow> resolve BOOTSTRAPPING_DOMAIN BOOTSTRAPPING_SERVICE family
            | Some nm \<Rightarrow> resolve nm (case service of None \<Rightarrow> BOOTSTRAPPING_SERVICE | Some v \<Rightarrow> v) family);
          ping = (\<lambda>r. case r of Inl rc \<Rightarrow> (rc, s) | Inr rs \<Rightarrow> ping_results rs 0 s)
      in case cx_type ctx of
           BINDBOTH \<Rightarrow> ping (ask AF_UNSPEC)
         | IPV4ONLY \<Rightarrow> ping (ask AF_INET)
         | IPV6ONLY \<Rightarrow> ping (ask AF_INET6)
         | BINDNONE \<Rightarrow> (0, s))"

subsection \<open>The file of nodes\<close>

definition conf_separator :: mem where "conf_separator = replicate 20 0"
definition conf_room :: nat where "conf_room = 300 * 6 + 20 + 300 * 18"

text \<open>
  The scan for the separator over \<^verbatim>\<open>pos < inputlen\<close>. The buffer is filled with 1 before \<^verbatim>\<open>fread\<close>;
  \<open>beyond\<close> is the memory behind the block, which \<^verbatim>\<open>memcmp\<close> reads at the last positions of a full
  buffer.
\<close>

fun find_separator :: "nat \<Rightarrow> nat \<Rightarrow> mem \<Rightarrow> nat option" where
  "find_separator 0 pos m = None"
| "find_separator (Suc k) pos m =
     (if memcmp (drop pos m) conf_separator 20 = 0 then Some pos else find_separator k (Suc pos) m)"

text \<open>
  \<^verbatim>\<open>in6\<close> is a local variable of which flow information and scope are never set: \<open>stk\<close> is what its 28 bytes
  held.
\<close>

definition loaded_sin :: "mem \<Rightarrow> nat \<Rightarrow> mem" where
  "loaded_sin buf i = mk_sin (slice (6 * i) 4 buf) (slice (6 * i + 4) 2 buf)"

definition loaded_sin6 :: "mem \<Rightarrow> mem \<Rightarrow> nat \<Rightarrow> nat \<Rightarrow> mem" where
  "loaded_sin6 stk buf n4 i =
     [10, 0] @ slice (18 * i + 16 + 20 + 6 * n4) 2 buf @ slice 4 4 stk @
     slice (18 * i + 20 + 6 * n4) 16 buf @ slice 24 4 stk"

fun ping_all :: "nat \<Rightarrow> mem list \<Rightarrow> 'a dht_scheme \<Rightarrow> 'a dht_scheme" where
  "ping_all n [] s = s"
| "ping_all n (sa # l) s = ping_all n l (snd (dht_ping_node sa n s))"

definition load_nodes :: "mem \<Rightarrow> mem \<Rightarrow> nat \<Rightarrow> nat \<Rightarrow> 'a dht_scheme \<Rightarrow> 'a dht_scheme" where
  "load_nodes stk buf inputlen psep s =
     (let n4 = psep div 6;
          n6 = nat ((int inputlen - (int psep + 20)) mod 2 ^ 64) div 18
      in if inputlen = (n4 * 6 + 20 + n6 * 18) mod 2 ^ 64
         then ping_all sizeof_sin6 (map (loaded_sin6 stk buf n4) [0..<n6])
                (ping_all sizeof_sin (map (loaded_sin buf) [0..<n4]) s)
         else s)"

definition bootstrapping_load_conf ::
  "mem option \<Rightarrow> int \<Rightarrow> mem \<Rightarrow> mem \<Rightarrow> 'a dht_scheme \<Rightarrow> int \<times> 'a dht_scheme" where
  "bootstrapping_load_conf file closed beyond stk s =
     (case file of None \<Rightarrow> (- 1, s)
      | Some m \<Rightarrow>
          let inputlen = length (take conf_room m);
              buf = take conf_room m @ replicate (conf_room - inputlen) 1
          in case find_separator inputlen 0 (buf @ beyond) of
               None \<Rightarrow> (closed, s)
             | Some psep \<Rightarrow> (closed, load_nodes stk buf inputlen psep s))"

text \<open>
  Saving: the calls of \<^verbatim>\<open>fwrite\<close> in order, \<open>fw\<close> how many bytes each of them takes. The first short one ends
  the function with -1. The second result is the contents of the file, None when it could not be opened.
\<close>

definition conf_chunks :: "mem list \<Rightarrow> mem list \<Rightarrow> mem list" where
  "conf_chunks sins sins6 =
     concat (map (\<lambda>sa. [sin_addr sa, sin_port sa]) sins) @ [conf_separator] @
     concat (map (\<lambda>sa. [sin6_addr sa, sin_port sa]) sins6)"

fun write_chunks :: "mem list \<Rightarrow> nat answers \<Rightarrow> mem \<Rightarrow> bool \<times> mem" where
  "write_chunks [] fw file = (True, file)"
| "write_chunks (c # cs) fw file =
     (let w = min (fw 0) (length c); file = file @ take w c
      in if w \<noteq> length c then (False, file) else write_chunks cs (later fw) file)"

definition bootstrapping_save_conf ::
  "bool \<Rightarrow> nat answers \<Rightarrow> int \<Rightarrow> 'a dht_scheme \<Rightarrow> int \<times> mem option" where
  "bootstrapping_save_conf opened fw closed s =
     (if \<not> opened then (- 1, None)
      else let (sins, sins6) = dht_get_nodes 300 300 s;
               (ok, file) = write_chunks (conf_chunks sins sins6) fw []
           in (if ok then closed else - 1, Some file))"

subsection \<open>Random look-ups and the functions that only pass on\<close>

definition bootstrapping_start_random_lookup ::
  "dtn_dht_context \<Rightarrow> 'a callback option \<Rightarrow> 'a dht_scheme \<Rightarrow> 'a dht_scheme" where
  "bootstrapping_start_random_lookup ctx cb s =
     (let (randomhash, s) = dht_random_bytes SHA_DIGEST_LENGTH s;
          s = (if blacklist_is_enabled (extbl s)
               then s\<lparr>extbl := blacklist_blacklist_id randomhash (extbl s)\<rparr> else s);
          s = (if ipv4socket ctx \<ge> 0 then snd (dht_search randomhash 0 AF_INET cb s) else s)
      in if ipv6socket ctx \<ge> 0 then snd (dht_search randomhash 0 AF_INET6 cb s) else s)"

definition dtn_dht_dns_bootstrap ::
  "(mem \<Rightarrow> mem \<Rightarrow> nat \<Rightarrow> int + (mem \<times> nat) list) \<Rightarrow> dtn_dht_context \<Rightarrow> mem option \<Rightarrow> mem option \<Rightarrow>
     dtndht \<Rightarrow> int \<times> dtndht" where
  "dtn_dht_dns_bootstrap resolve ctx name service s =
     bootstrapping_dns resolve ctx name service (set_minimum ctx s)"

definition dtn_dht_start_random_lookup :: "dtn_dht_context \<Rightarrow> dtndht \<Rightarrow> dtndht" where
  "dtn_dht_start_random_lookup ctx s =
     bootstrapping_start_random_lookup ctx (Some dtn_callback) (set_minimum ctx s)"

definition dtn_dht_save_conf :: "bool \<Rightarrow> nat answers \<Rightarrow> int \<Rightarrow> dtndht \<Rightarrow> int \<times> mem option" where
  "dtn_dht_save_conf = bootstrapping_save_conf"

definition dtn_dht_load_prev_conf :: "mem option \<Rightarrow> int \<Rightarrow> mem \<Rightarrow> mem \<Rightarrow> dtndht \<Rightarrow> int \<times> dtndht" where
  "dtn_dht_load_prev_conf = bootstrapping_load_conf"

definition dtn_dht_insert_node :: "mem \<Rightarrow> mem \<Rightarrow> nat \<Rightarrow> dtndht \<Rightarrow> int \<times> dtndht" where
  "dtn_dht_insert_node = dht_insert_node"

definition dtn_dht_ping_node :: "mem \<Rightarrow> nat \<Rightarrow> dtndht \<Rightarrow> int \<times> dtndht" where
  "dtn_dht_ping_node = dht_ping_node"

text \<open>Closing the sockets: the descriptors given to \<^verbatim>\<open>close\<close>, in order.\<close>

definition dtn_dht_close_sockets :: "dtn_dht_context \<Rightarrow> int \<times> int list" where
  "dtn_dht_close_sockets ctx = (0, filter (\<lambda>fd. fd \<ge> 0) [ipv4socket ctx, ipv6socket ctx])"

subsection \<open>The layout of the file\<close>

lemma slice_sub: "a + b \<le> n \<Longrightarrow> slice a b (slice off n m) = slice (off + a) b m"
  by (simp add: slice_def drop_take take_take min_def add.commute)

lemma slice_append1: "off + n \<le> length xs \<Longrightarrow> slice off n (xs @ ys) = slice off n xs"
  by (simp add: slice_def)

lemma slice_append2: "slice (length xs + off) n (xs @ ys) = slice off n ys"
  by (simp add: slice_def)

lemma length_concat_blocks: "\<forall>x \<in> set xs. length x = k \<Longrightarrow> length (concat xs) = k * length xs"
  by (induction xs) auto

lemma slice_block:
  "\<forall>x \<in> set xs. length x = k \<Longrightarrow> i < length xs \<Longrightarrow> slice (k * i) k (concat xs) = xs ! i"
proof (induction xs arbitrary: i)
  case (Cons x xs)
  show ?case
  proof (cases i)
    case 0
    then show ?thesis using Cons.prems by (simp add: slice_def)
  next
    case (Suc j)
    have "slice (k * i) k (concat (x # xs)) = slice (length x + k * j) k (x @ concat xs)"
      using Cons.prems Suc by simp
    also have "\<dots> = slice (k * j) k (concat xs)" by (rule slice_append2)
    also have "\<dots> = xs ! j" using Cons.IH [of j] Cons.prems Suc by simp
    finally show ?thesis using Suc by simp
  qed
qed simp

lemma nth_block:
  assumes "\<forall>x \<in> set xs. length x = k" "i < length xs" "j < k"
  shows "concat xs ! (k * i + j) = xs ! i ! j"
proof -
  have l: "k * i + k \<le> length (concat xs)"
    using assms(2) mult_le_mono2 [of "Suc i" "length xs" k] by (simp add: length_concat_blocks [OF assms(1)])
  have "xs ! i ! j = slice (k * i) k (concat xs) ! j" using slice_block [OF assms(1,2)] by simp
  also have "\<dots> = concat xs ! (k * i + j)" using assms(3) l by (simp add: slice_def)
  finally show ?thesis by simp
qed

lemma zero_run:
  assumes "q + 20 \<le> length m"
  shows "memcmp (drop q m) conf_separator 20 = 0 \<longleftrightarrow> (\<forall>j < 20. m ! (q + j) = 0)"
proof -
  have "memcmp (drop q m) conf_separator 20 = 0 \<longleftrightarrow> take 20 (drop q m) = replicate 20 0"
    using assms by (simp add: memcmp_def conf_separator_def bytes_cmp_eq_0)
  also have "\<dots> \<longleftrightarrow> (\<forall>j < 20. m ! (q + j) = 0)"
    using assms by (auto simp: list_eq_iff_nth_eq)
  finally show ?thesis .
qed

lemma find_separator_SomeI:
  assumes "memcmp (drop p m) conf_separator 20 = 0" "pos \<le> p" "p < pos + k"
    "\<And>q. pos \<le> q \<Longrightarrow> q < p \<Longrightarrow> memcmp (drop q m) conf_separator 20 \<noteq> 0"
  shows "find_separator k pos m = Some p"
  using assms
proof (induction k pos m rule: find_separator.induct)
  case (2 k pos m)
  show ?case
  proof (cases "pos = p")
    case True
    then show ?thesis using 2 by simp
  next
    case False
    then have "memcmp (drop pos m) conf_separator 20 \<noteq> 0" using 2 by simp
    moreover have "find_separator k (Suc pos) m = Some p" using 2 False calculation by (intro "2.IH") auto
    ultimately show ?thesis by simp
  qed
qed simp

text \<open>
  What an IPv4 block of the file looks like when the address is not martian: its first byte is not 0, and
  neither is its port. So the only zeros in front of the separator that can belong to a run of twenty are
  the low byte of the last port.
\<close>

definition sin_block :: "mem \<Rightarrow> mem" where "sin_block sa = sin_addr sa @ sin_port sa"
definition sin6_block :: "mem \<Rightarrow> mem" where "sin6_block sa = sin6_addr sa @ sin_port sa"

definition savable :: "mem \<Rightarrow> bool" where
  "savable sa \<longleftrightarrow> 16 \<le> length sa \<and> sa_family sa = AF_INET \<and> \<not> is_martian sa"

lemma savable_block:
  assumes "savable sa"
  shows "length (sin_block sa) = 6" "sin_block sa ! 0 \<noteq> 0" "sin_block sa ! 4 \<noteq> 0 \<or> sin_block sa ! 5 \<noteq> 0"
    "sin_block sa ! 5 = rd sa 3"
proof -
  have l: "16 \<le> length sa" using assms by (simp add: savable_def)
  then show "length (sin_block sa) = 6" by (simp add: sin_block_def sin_addr_def sin_port_def)
  have b: "sin_block sa ! 0 = sa ! 4" "sin_block sa ! 4 = sa ! 2" "sin_block sa ! 5 = sa ! 3"
    using l by (simp_all add: sin_block_def sin_addr_def sin_port_def slice_def nth_append)
  have "\<not> (rd sa 2 = 0 \<and> rd sa 3 = 0)" "rd (sin_addr sa) 0 \<noteq> 0"
    using assms by (auto simp: savable_def is_martian_def Let_def)
  moreover have "rd (sin_addr sa) 0 = sa ! 4" using l by (simp add: sin_addr_def slice_def)
  ultimately show "sin_block sa ! 0 \<noteq> 0" "sin_block sa ! 4 \<noteq> 0 \<or> sin_block sa ! 5 \<noteq> 0"
    "sin_block sa ! 5 = rd sa 3" using b l by auto
qed

lemma nonzero_near:
  assumes "\<forall>sa \<in> set sins. savable sa" "q < 6 * length sins" "Suc q \<noteq> 6 * length sins \<or> rd (last sins) 3 \<noteq> 0"
  shows "\<exists>j < 20. q + j < 6 * length sins \<and> concat (map sin_block sins) ! (q + j) \<noteq> 0"
proof -
  let ?A = "concat (map sin_block sins)"
  define i r where "i = q div 6" and "r = q mod 6"
  have q: "q = 6 * i + r" "r < 6" by (simp_all add: i_def r_def)
  have i: "i < length sins" using assms(2) by (simp add: i_def less_mult_imp_div_less mult.commute)
  have at: "?A ! (6 * k + j) = sin_block (sins ! k) ! j" if "k < length sins" "j < 6" for k j
    using nth_block [of "map sin_block sins" 6 k j] that assms(1) savable_block(1) by auto
  note blk = savable_block [OF bspec [OF assms(1) nth_mem]]
  consider "r = 0" | "0 < r" "r < 5" | "r = 5" using q(2) by linarith
  then show ?thesis
  proof cases
    case 1
    then show ?thesis using at [OF i, of 0] blk(2) [OF i] q assms(2) by (intro exI [of _ 0]) auto
  next
    case 2
    have "?A ! (q + (4 - r)) \<noteq> 0 \<or> ?A ! (q + (5 - r)) \<noteq> 0"
      using at [OF i, of 4] at [OF i, of 5] blk(3) [OF i] q 2 by simp
    moreover have "q + (4 - r) < 6 * length sins" "q + (5 - r) < 6 * length sins" using q i 2 by auto
    moreover have "4 - r < 20" "5 - r < 20" by simp_all
    ultimately show ?thesis by blast
  next
    case 3
    show ?thesis
    proof (cases "Suc i < length sins")
      case True
      then show ?thesis using at [OF True, of 0] blk(2) [OF True] q 3 by (intro exI [of _ 1]) auto
    next
      case False
      then have n: "length sins = Suc i" using i by simp
      then have "sins \<noteq> []" by auto
      then have "sins ! i = last sins" "Suc q = 6 * length sins"
        using n q 3 by (simp_all add: last_conv_nth)
      then show ?thesis using at [OF i, of 5] blk(4) [OF i] q 3 assms(2,3) by (intro exI [of _ 0]) auto
    qed
  qed
qed

definition low_byte_lost :: "mem list \<Rightarrow> bool" where
  "low_byte_lost sins \<longleftrightarrow> sins \<noteq> [] \<and> rd (last sins) 3 = 0"

lemma saved_separator:
  assumes "\<forall>sa \<in> set sins. savable sa" "6 * length sins < k"
  shows "find_separator k 0 (concat (map sin_block sins) @ conf_separator @ rest) =
    Some (if low_byte_lost sins then 6 * length sins - 1 else 6 * length sins)"
proof -
  let ?A = "concat (map sin_block sins)" let ?n = "6 * length sins"
  let ?m = "?A @ conf_separator @ rest"
  let ?p = "if low_byte_lost sins then ?n - 1 else ?n"
  have lA: "length ?A = ?n" using length_concat_blocks [of "map sin_block sins" 6] savable_block(1) assms(1) by simp
  have lm: "?n + 20 \<le> length ?m" by (simp only: length_append lA) (simp add: conf_separator_def)
  have sep: "?m ! (?n + j) = 0" if "j < 20" for j
    using that by (simp add: nth_append lA conf_separator_def)
  show ?thesis
  proof (rule find_separator_SomeI)
    show "0 \<le> ?p" "?p < 0 + k" using assms(2) by auto
    show "memcmp (drop ?p ?m) conf_separator 20 = 0"
    proof (cases "low_byte_lost sins")
      case False
      then show ?thesis using zero_run [of ?n ?m] lm sep by simp
    next
      case True
      then obtain ys y where y: "sins = ys @ [y]" "rd y 3 = 0"
        by (cases sins rule: rev_cases) (auto simp: low_byte_lost_def)
      have "?A ! (6 * length ys + 5) = sin_block y ! 5"
        using nth_block [of "map sin_block sins" 6 "length ys" 5] savable_block(1) assms(1) by (simp add: y(1) nth_append)
      moreover have "sin_block y ! 5 = 0" using savable_block(4) [of y] assms(1) y by simp
      moreover have n: "?n - 1 = 6 * length ys + 5" "?n = 6 * length ys + 6" by (simp_all add: y(1))
      ultimately have first: "?m ! (?n - 1) = 0" unfolding n(1) using lA n(2) by (simp add: nth_append ac_simps)
      have "?m ! (?n - 1 + j) = 0" if "j < 20" for j
      proof (cases j)
        case (Suc i)
        then have "?n - 1 + j = ?n + i" using n by simp
        then show ?thesis using sep [of i] that Suc by (simp only:)
      qed (use first in simp)
      then show ?thesis using zero_run [of "?n - 1" ?m] lm True by simp
    qed
    show "memcmp (drop q ?m) conf_separator 20 \<noteq> 0" if "0 \<le> q" "q < ?p" for q
    proof -
      have "q < ?n" "Suc q \<noteq> ?n \<or> rd (last sins) 3 \<noteq> 0" using that by (auto simp: low_byte_lost_def split: if_splits)
      from nonzero_near [OF assms(1) this] obtain j
        where "j < 20" "q + j < ?n" "?A ! (q + j) \<noteq> 0" by blast
      then have "?m ! (q + j) \<noteq> 0" using lA by (simp add: nth_append)
      then show ?thesis using zero_run [of q ?m] \<open>j < 20\<close> \<open>q < ?n\<close> lm by auto
    qed
  qed
qed

subsection \<open>Loading a saved file\<close>

definition reloaded_sin :: "mem \<Rightarrow> mem" where "reloaded_sin sa = mk_sin (sin_addr sa) (sin_port sa)"

definition reloaded_sin6 :: "mem \<Rightarrow> mem \<Rightarrow> mem" where
  "reloaded_sin6 stk sa = [10, 0] @ sin_port sa @ slice 4 4 stk @ sin6_addr sa @ slice 24 4 stk"

lemma length_sin_blocks:
  "16 \<le> length sa \<Longrightarrow> length (sin_block sa) = 6" "24 \<le> length sa \<Longrightarrow> length (sin6_block sa) = 18"
  by (simp_all add: sin_block_def sin6_block_def sin_addr_def sin6_addr_def sin_port_def)

lemma loaded_blocks:
  assumes "\<forall>sa \<in> set sins. 16 \<le> length sa" "\<forall>sa \<in> set sins6. 24 \<le> length sa"
  defines "file \<equiv> concat (map sin_block sins) @ conf_separator @ concat (map sin6_block sins6)"
  shows "map (loaded_sin (file @ rest)) [0..<length sins] = map reloaded_sin sins"
    "map (loaded_sin6 stk (file @ rest) (length sins)) [0..<length sins6] = map (reloaded_sin6 stk) sins6"
    "length file = 6 * length sins + 20 + 18 * length sins6"
proof -
  let ?A = "concat (map sin_block sins)" let ?B = "concat (map sin6_block sins6)"
  have b: "\<forall>x \<in> set (map sin_block sins). length x = 6" "\<forall>x \<in> set (map sin6_block sins6). length x = 18"
    using assms(1,2) length_sin_blocks by auto
  have l: "length ?A = 6 * length sins" "length ?B = 18 * length sins6"
    using length_concat_blocks [OF b(1)] length_concat_blocks [OF b(2)] by simp_all
  show "length file = 6 * length sins + 20 + 18 * length sins6" by (simp only: file_def length_append l) (simp add: conf_separator_def)
  have "loaded_sin (file @ rest) i = reloaded_sin (sins ! i)" if i: "i < length sins" for i
  proof -
    have "slice (6 * i) 6 (file @ rest) = slice (6 * i) 6 ?A"
      unfolding file_def append_assoc by (rule slice_append1) (use i l in simp)
    also have "\<dots> = sin_block (sins ! i)" using slice_block [OF b(1), of i] i by simp
    finally have s: "slice (6 * i) 6 (file @ rest) = sin_block (sins ! i)" .
    have "16 \<le> length (sins ! i)" using assms(1) i by simp
    then have "slice 0 4 (sin_block (sins ! i)) = sin_addr (sins ! i)" "slice 4 2 (sin_block (sins ! i)) = sin_port (sins ! i)"
      by (simp_all add: sin_block_def slice_def sin_addr_def sin_port_def)
    then show ?thesis
      using slice_sub [of 0 4 6 "6 * i" "file @ rest"] slice_sub [of 4 2 6 "6 * i" "file @ rest"]
      by (simp add: loaded_sin_def reloaded_sin_def s)
  qed
  then show "map (loaded_sin (file @ rest)) [0..<length sins] = map reloaded_sin sins"
    by (intro nth_equalityI) simp_all
  have "loaded_sin6 stk (file @ rest) (length sins) i = reloaded_sin6 stk (sins6 ! i)" if i: "i < length sins6" for i
  proof -
    have o: "18 * i + 20 + 6 * length sins = length (?A @ conf_separator) + 18 * i"
      by (simp only: length_append l) (simp add: conf_separator_def)
    have "slice (18 * i + 20 + 6 * length sins) 18 (file @ rest) = slice (18 * i) 18 (?B @ rest)"
      unfolding o file_def append_assoc [symmetric] by (simp only: append_assoc [of "?A @ conf_separator"] slice_append2)
    also have "\<dots> = slice (18 * i) 18 ?B" by (rule slice_append1) (use i l in simp)
    also have "\<dots> = sin6_block (sins6 ! i)" using slice_block [OF b(2), of i] i by simp
    finally have s: "slice (18 * i + 20 + 6 * length sins) 18 (file @ rest) = sin6_block (sins6 ! i)" .
    have "24 \<le> length (sins6 ! i)" using assms(2) i by simp
    then have "slice 0 16 (sin6_block (sins6 ! i)) = sin6_addr (sins6 ! i)" "slice 16 2 (sin6_block (sins6 ! i)) = sin_port (sins6 ! i)"
      by (simp_all add: sin6_block_def slice_def sin6_addr_def sin_port_def)
    moreover have e: "18 * i + 16 + 20 + 6 * length sins = (18 * i + 20 + 6 * length sins) + 16" by simp
    ultimately show ?thesis
      using slice_sub [of 0 16 18 "18 * i + 20 + 6 * length sins" "file @ rest"]
        slice_sub [of 16 2 18 "18 * i + 20 + 6 * length sins" "file @ rest"]
      unfolding loaded_sin6_def reloaded_sin6_def e s by simp
  qed
  then show "map (loaded_sin6 stk (file @ rest) (length sins)) [0..<length sins6] = map (reloaded_sin6 stk) sins6"
    by (intro nth_equalityI) simp_all
qed

lemma write_chunks_ok: "write_chunks cs fw f = (True, g) \<Longrightarrow> g = f @ concat cs"
  by (induction cs fw f rule: write_chunks.induct) (auto simp: Let_def min_def split: if_splits)

lemma concat_conf_chunks:
  "concat (conf_chunks sins sins6) = concat (map sin_block sins) @ conf_separator @ concat (map sin6_block sins6)"
proof -
  have "concat (concat (map (\<lambda>sa. [f sa, g sa]) xs)) = concat (map (\<lambda>sa. f sa @ g sa) xs)"
    for f g :: "mem \<Rightarrow> mem" and xs by (induction xs) auto
  then show ?thesis by (simp add: conf_chunks_def sin_block_def [abs_def] sin6_block_def [abs_def])
qed

text \<open>What the routing table gives to be saved: at most \<open>num\<close> addresses, whole and not martian.\<close>

lemma get_nodes_af_ok:
  assumes "rt_inv s" "inet af" "sa \<in> set (get_nodes_af af num s)"
  shows "length sa = sizeof_ss" "sa_family sa = af" "\<not> is_martian sa"
proof -
  obtain i where i: "find_bucket (myid s) af s = Some i" using assms(3) by (cases "find_bucket (myid s) af s") (simp_all add: get_nodes_af_def)
  have "valid_id (myid s)" using assms(1) by (simp add: rt_inv_def)
  then have "i < length (table af s)" using find_bucket_interval [OF assms(1,2) _ i] by simp
  then obtain k n where "k < length (table af s)" "n \<in> set (b_nodes (table af s ! k))" "sa = n_ss n"
    using assms(3) i by (fastforce simp: get_nodes_af_def Let_def dest!: in_set_takeD)
  then have "node_ok af (myid s) (bkt_lo (table af s) k) (bkt_hi (table af s) k) n" "sa = n_ss n"
    using rt_bucket [OF assms(1,2)] by (auto simp: bucket_ok_def)
  then show "length sa = sizeof_ss" "sa_family sa = af" "\<not> is_martian sa" by (simp_all add: node_ok_def)
qed

lemma length_get_nodes_af: "length (get_nodes_af af num s) \<le> num"
  by (simp add: get_nodes_af_def Let_def del: take_append split: option.split)

lemma savable_take:
  "length sa = sizeof_ss \<Longrightarrow> sa_family sa = AF_INET \<Longrightarrow> \<not> is_martian sa \<Longrightarrow> savable (take sizeof_sin sa)"
  by (auto simp: savable_def is_martian_def sa_family_def sin_addr_def slice_def rd_def sizeof_ss_def sizeof_sin_def
      take_drop min_def)

lemma get_nodes_savable:
  assumes "rt_inv s" "dht_get_nodes num num6 s = (sins, sins6)"
  shows "\<forall>sa \<in> set sins. savable sa" "\<forall>sa \<in> set sins6. length sa = 28" "length sins \<le> num" "length sins6 \<le> num6"
proof -
  have e: "sins = map (take sizeof_sin) (get_nodes_af AF_INET num s)"
    "sins6 = map (take sizeof_sin6) (get_nodes_af AF_INET6 num6 s)" using assms(2) by (auto simp: dht_get_nodes_def)
  show "\<forall>sa \<in> set sins. savable sa"
    using get_nodes_af_ok [OF assms(1), of AF_INET] by (auto simp: e inet_def intro!: savable_take)
  show "\<forall>sa \<in> set sins6. length sa = 28"
    using get_nodes_af_ok(1) [OF assms(1), of AF_INET6] by (auto simp: e inet_def sizeof_ss_def sizeof_sin6_def)
  show "length sins \<le> num" "length sins6 \<le> num6" unfolding e using length_get_nodes_af by simp_all
qed

lemma load_nodes_all:
  assumes "inputlen = 6 * n4 + 20 + 18 * n6" "inputlen \<le> conf_room"
  shows "load_nodes stk buf inputlen (6 * n4) s =
    ping_all sizeof_sin6 (map (loaded_sin6 stk buf n4) [0..<n6]) (ping_all sizeof_sin (map (loaded_sin buf) [0..<n4]) s)"
proof -
  have "int inputlen - (int (6 * n4) + 20) = int (18 * n6)" using assms(1) by simp
  moreover have "int (18 * n6) mod 2 ^ 64 = int (18 * n6)" using assms by (intro mod_pos_pos_trivial) (simp_all add: conf_room_def)
  ultimately show ?thesis using assms by (simp add: load_nodes_def Let_def conf_room_def mult.commute)
qed

lemma load_nodes_none:
  assumes "inputlen = 6 * n4 + 20 + 18 * n6" "inputlen \<le> conf_room" "0 < n4"
  shows "load_nodes stk buf inputlen (6 * n4 - 1) s = s"
proof -
  have d: "(6 * n4 - 1) div 6 = n4 - 1" using assms(3) by (cases n4) simp_all
  have "int inputlen - (int (6 * n4 - 1) + 20) = int (18 * n6 + 1)" using assms(1,3) by simp
  moreover have "int (18 * n6 + 1) mod 2 ^ 64 = int (18 * n6 + 1)"
    using assms(1,2) by (intro mod_pos_pos_trivial) (simp_all add: conf_room_def)
  ultimately have n: "nat ((int inputlen - (int (6 * n4 - 1) + 20)) mod 2 ^ 64) div 18 = n6" by simp
  have "(n4 - 1) * 6 + 20 + n6 * 18 < inputlen" "inputlen < 2 ^ 64" using assms by (simp_all add: conf_room_def)
  then have "inputlen \<noteq> ((n4 - 1) * 6 + 20 + n6 * 18) mod 2 ^ 64" by simp
  then show ?thesis unfolding load_nodes_def Let_def d n by (rule if_not_P)
qed

subsection \<open>Properties\<close>

text \<open>
  C34: saving and loading. When \<^verbatim>\<open>bootstrapping_save_conf\<close> succeeds in a well-formed state, loading the file
  it wrote, later and in any state, pings exactly the nodes \<^verbatim>\<open>dht_get_nodes\<close> named, in
  their order, with their addresses and ports; unless the port of the last IPv4 node is a multiple of 256: then its zero
  byte is taken for the beginning of the separator, the length does not fit and no node at all is pinged.
\<close>

theorem conf_round_trip:
  assumes "rt_inv s0" "bootstrapping_save_conf True fw 0 s0 = (0, Some file)" "dht_get_nodes 300 300 s0 = (sins, sins6)"
  shows "bootstrapping_load_conf (Some file) closed beyond stk s =
    (closed, if low_byte_lost sins then s
             else ping_all sizeof_sin6 (map (reloaded_sin6 stk) sins6) (ping_all sizeof_sin (map reloaded_sin sins) s))"
proof -
  note g = get_nodes_savable [OF assms(1,3)]
  have "write_chunks (conf_chunks sins sins6) fw [] = (True, file)"
    using assms(2,3) by (auto simp: bootstrapping_save_conf_def split: prod.splits if_splits)
  from write_chunks_ok [OF this] have contents: "file = concat (map sin_block sins) @ conf_separator @ concat (map sin6_block sins6)"
    by (simp add: concat_conf_chunks)
  have "\<forall>sa \<in> set sins. 16 \<le> length sa" "\<forall>sa \<in> set sins6. 24 \<le> length sa" using g(1,2) by (auto simp: savable_def)
  note b = loaded_blocks [OF this, folded contents]
  have len: "length file \<le> conf_room" using b(3) g(3,4) by (simp add: conf_room_def)
  have sep: "find_separator (length file) 0 (file @ rest) =
      Some (if low_byte_lost sins then 6 * length sins - 1 else 6 * length sins)" for rest
    using saved_separator [OF g(1), of "length file"] b(3) by (simp add: contents)
  show ?thesis
  proof (cases "low_byte_lost sins")
    case True
    then have "0 < length sins" by (simp add: low_byte_lost_def)
    from load_nodes_none [OF b(3) len this] show ?thesis
      using True sep len by (simp add: bootstrapping_load_conf_def Let_def)
  next
    case False
    then show ?thesis
      using sep len b(1,2) by (simp add: bootstrapping_load_conf_def load_nodes_all [OF b(3) len] Let_def)
  qed
qed

text \<open>One good node, 10.1.2.3 with port 6400, is saved and not found again.\<close>

definition port_6400 :: mem where "port_6400 = mk_sin [10, 1, 2, 3] [25, 0] @ replicate 112 0"

definition lossy_dht :: dht where
  "lossy_dht = one_bucket_dht\<lparr>buckets := [(calloc_bucket AF_INET)\<lparr>b_count := 1, b_nodes :=
     [\<lparr>n_id = replicate 20 9, n_ss = port_6400, n_sslen = 16, n_time = 0, n_reply_time = 0, n_pinged_time = 0, n_pinged = 0\<rparr>]\<rparr>]\<rparr>"

lemma rt_inv_lossy: "rt_inv lossy_dht"
proof -
  have f: "myid lossy_dht = replicate 20 0" "buckets6 lossy_dht = []"
    by (simp_all add: lossy_dht_def one_bucket_dht_def static_dht_def)
  have "wf_table AF_INET (replicate 20 0) [calloc_bucket AF_INET]" by (rule wf_calloc_bucket) simp
  moreover have "\<not> is_martian port_6400" "sa_family port_6400 = AF_INET" "length port_6400 = sizeof_ss"
    by code_simp+
  moreover have "be_val (replicate 20 9) < 2 ^ 160" by (rule be_val_id_less) (simp add: valid_id_def)
  ultimately have "wf_table AF_INET (replicate 20 0) (buckets lossy_dht)"
    by (auto simp: wf_table_def bucket_ok_def node_ok_def valid_id_def bkt_lo_def bkt_hi_def lossy_dht_def good_sa_def
        calloc_bucket_def sizeof_ss_def)
  then show ?thesis by (simp add: rt_inv_def f valid_id_def)
qed

lemma conf_round_trip_witness:
  "\<exists>file. bootstrapping_save_conf True (\<lambda>_. 100) 0 lossy_dht = (0, Some file) \<and>
     bootstrapping_load_conf (Some file) 0 [] [] one_bucket_dht = (0, one_bucket_dht)"
proof -
  have g: "dht_get_nodes 300 300 lossy_dht = ([take 16 port_6400], [])" by code_simp
  have "write_chunks (conf_chunks [take 16 port_6400] []) (\<lambda>_. 100) [] = (True, [10, 1, 2, 3, 25, 0] @ conf_separator)"
    by code_simp
  then have w: "bootstrapping_save_conf True (\<lambda>_. 100) 0 lossy_dht = (0, Some ([10, 1, 2, 3, 25, 0] @ conf_separator))"
    by (simp add: bootstrapping_save_conf_def g)
  have "low_byte_lost [take 16 port_6400]" by code_simp
  with conf_round_trip [OF rt_inv_lossy w g, of 0 "[]" "[]" one_bucket_dht] w show ?thesis by auto
qed

text \<open>
  At the last 19 positions of a full buffer the comparison reads behind the block. No such position passes
  the test of the lengths, where the number of IPv6 nodes wraps around.
\<close>

lemma wrapped_count:
  "p < 19 \<Longrightarrow> 7220 \<noteq> ((7201 + p) div 6 * 6 + 20 +
     nat ((int 7220 - (int (7201 + p) + 20)) mod 2 ^ 64) div 18 * 18) mod 2 ^ 64"
proof -
  have "\<forall>p \<in> set [0..<19]. 7220 \<noteq> ((7201 + p) div 6 * 6 + 20 +
     nat ((int 7220 - (int (7201 + p) + 20)) mod 2 ^ 64) div 18 * 18) mod 2 ^ 64"
    by (simp add: upt_conv_Cons)
  then show "p < 19 \<Longrightarrow> 7220 \<noteq> ((7201 + p) div 6 * 6 + 20 +
     nat ((int 7220 - (int (7201 + p) + 20)) mod 2 ^ 64) div 18 * 18) mod 2 ^ 64" by simp
qed

lemma load_nodes_late:
  assumes "p < conf_room" "conf_room < p + 20"
  shows "load_nodes stk buf conf_room p s = s"
proof -
  have "p = 7201 + (p - 7201)" "p - 7201 < 19" using assms by (auto simp: conf_room_def)
  with wrapped_count [OF this(2)] have "7220 \<noteq> (p div 6 * 6 + 20 + nat ((int 7220 - (int p + 20)) mod 2 ^ 64) div 18 * 18) mod 2 ^ 64"
    by simp
  moreover have "conf_room = 7220" by (simp add: conf_room_def)
  ultimately show ?thesis unfolding load_nodes_def Let_def by (simp only: if_False)
qed

definition read_at :: "mem \<Rightarrow> mem \<Rightarrow> nat \<Rightarrow> nat option \<Rightarrow> 'a dht_scheme \<Rightarrow> 'a dht_scheme" where
  "read_at stk buf inputlen q s = (case q of None \<Rightarrow> s | Some psep \<Rightarrow> load_nodes stk buf inputlen psep s)"

lemma bytes_cmp_zeros: "bytes_cmp w (replicate n 0) = 0 \<Longrightarrow> length w \<le> n \<Longrightarrow> x \<in> set w \<Longrightarrow> x = 0"
proof (induction w arbitrary: n)
  case (Cons y w)
  then show ?case by (cases n) (auto split: if_splits)
qed simp

lemma late_positions:
  assumes "length buf = conf_room" "\<forall>i < conf_room. inputlen \<le> i \<longrightarrow> buf ! i = 1" "inputlen \<le> conf_room"
    "pos + k = inputlen" "conf_room < pos + 20"
  shows "read_at stk buf inputlen (find_separator k pos (buf @ b)) s = s"
  using assms(4,5)
proof (induction k arbitrary: pos)
  case (Suc k)
  have "load_nodes stk buf inputlen pos s = s" if m: "memcmp (drop pos (buf @ b)) conf_separator 20 = 0"
  proof (cases "inputlen = conf_room")
    case True
    then show ?thesis using load_nodes_late [of pos] Suc.prems by simp
  next
    case False
    then have i: "inputlen < conf_room" using assms(3) by simp
    let ?w = "take 20 (drop pos (buf @ b))"
    have "inputlen - pos < length ?w" "?w ! (inputlen - pos) = 1"
      using i Suc.prems assms(1,2) by (auto simp: nth_append)
    moreover have "\<forall>x \<in> set ?w. x = 0"
    proof
      fix x assume "x \<in> set ?w"
      moreover have "length ?w \<le> 20" by simp
      moreover have "bytes_cmp ?w (replicate 20 0) = 0"
        using m unfolding memcmp_def conf_separator_def by (simp only: take_replicate min.idem)
      ultimately show "x = 0" using bytes_cmp_zeros by blast
    qed
    ultimately have "(1 :: byte) = 0" using nth_mem [of "inputlen - pos" ?w] by metis
    then show ?thesis by simp
  qed
  then show ?case using Suc.IH [of "Suc pos"] Suc.prems by (simp add: read_at_def)
qed (simp add: read_at_def)

lemma early_positions:
  assumes "length buf = conf_room" "\<forall>i < conf_room. inputlen \<le> i \<longrightarrow> buf ! i = 1" "inputlen \<le> conf_room" "pos + k = inputlen"
  shows "read_at stk buf inputlen (find_separator k pos (buf @ b)) s =
    read_at stk buf inputlen (find_separator k pos (buf @ b')) s"
  using assms(4)
proof (induction k arbitrary: pos)
  case (Suc k)
  show ?case
  proof (cases "conf_room < pos + 20")
    case True
    then show ?thesis by (simp only: late_positions [OF assms(1-3) Suc.prems])
  next
    case False
    then have "take 20 (drop pos (buf @ b)) = take 20 (drop pos (buf @ b'))" using assms(1) by simp
    then show ?thesis using Suc.IH [of "Suc pos"] Suc.prems by (simp add: read_at_def memcmp_def)
  qed
qed simp

text \<open>
  What lies behind the buffer of \<^verbatim>\<open>bootstrapping_load_conf\<close> has no influence. Near the end of a file
  of 7220 bytes or more the search for the separator compares bytes behind the block it allocated; whatever
  they are, and whatever the file holds, the same nodes are pinged and the same value is returned.
\<close>

theorem load_conf_overread_harmless:
  "bootstrapping_load_conf file closed beyond stk s = bootstrapping_load_conf file closed beyond' stk s"
proof (cases "file")
  case (Some m)
  let ?l = "length (take conf_room m)"
  let ?buf = "take conf_room m @ replicate (conf_room - ?l) 1"
  have "read_at stk ?buf ?l (find_separator ?l 0 (?buf @ b)) s = read_at stk ?buf ?l (find_separator ?l 0 (?buf @ b')) s" for b b'
    by (rule early_positions) (auto simp: nth_append min_def)
  moreover have "bootstrapping_load_conf file closed b stk s =
      (closed, read_at stk ?buf ?l (find_separator ?l 0 (?buf @ b)) s)" for b
    unfolding bootstrapping_load_conf_def Let_def read_at_def Some by (simp split: option.split)
  ultimately show ?thesis by metis
qed (simp add: bootstrapping_load_conf_def)

end
