(* ===== verification/Dtndht_Inv.thy ===== *)
theory Dtndht_Inv
  imports Bootstrapping
begin

text \<open>
  The interface of \<^verbatim>\<open>dtndht.c\<close> keeps the invariants of \<^verbatim>\<open>dht.c\<close>: its call-back is one the searches and the main
  loop may call, and each of its functions leads from well-formed states to well-formed states.
\<close>

subsection \<open>The invariant of the interface\<close>

text \<open>The ratings can be read: the list has not been freed.\<close>

definition usable :: "ratings \<Rightarrow> bool" where
  "usable rs \<longleftrightarrow> \<not> rfreed rs"

text \<open>
  What the call-back respects, for \<^verbatim>\<open>dht.c\<close> to keep it: the table of announced keys as it is (\<open>an\<close>), the keys of
  the table of look-ups (\<open>kl\<close>), well-formed ratings, a clock from a set closed under the passing of time
  (\<open>C\<close>). \<open>c\<close> asks for more: no failing allocation, no use of freed ratings, no abort.
\<close>

definition passing :: "int answers set \<Rightarrow> bool" where
  "passing C \<longleftrightarrow> (\<forall>f \<in> C. later f \<in> C)"

lemma passing_UNIV [simp]: "passing UNIV" "passing {\<lambda>_. t}"
  by (simp_all add: passing_def)


definition of_ext :: "unit dtndht_ext \<Rightarrow> dtndht" where
  "of_ext x = dht.extend (static_dht (\<lambda>_. 0) (\<lambda>_. True) (\<lambda>_. 0)) x"

definition api :: "bool \<Rightarrow> int answers set \<Rightarrow> dhtentry list \<Rightarrow> mem list \<Rightarrow> unit dtndht_ext mode" where
  "api c C an kl = Mode c (\<lambda>x. clock_src (of_ext x) \<in> C \<and> announcetable (of_ext x) = an \<and> map e_md (lookuptable (of_ext x)) = kl \<and>
     ratings_ok (ratings_list (of_ext x)) \<and> (c \<longrightarrow> usable (ratings_list (of_ext x))))"

lemma of_ext_more [simp]:
  "announcetable (of_ext (dht.more s)) = announcetable s" "lookuptable (of_ext (dht.more s)) = lookuptable s"
  "ratings_list (of_ext (dht.more s)) = ratings_list s" "clock_src (of_ext (dht.more s)) = clock_src s"
  by (cases s; simp add: of_ext_def dht.extend_def)+

lemma safe_api:
  "safe (api c C an kl) s \<longleftrightarrow> dht_inv s \<and> clock_src s \<in> C \<and> announcetable s = an \<and> map e_md (lookuptable s) = kl \<and>
     ratings_ok (ratings_list s) \<and> (c \<longrightarrow> usable (ratings_list s) \<and> \<not> aborted s \<and> (\<forall>k. calloc_src s k))"
  by (auto simp: safe_def api_def)

text \<open>The functions of \<^verbatim>\<open>dht.c\<close> do not see the variables of \<^verbatim>\<open>dtndht.c\<close>, nor the blacklist of addresses.\<close>

lemma dht_inv_ext [simp]:
  "dht_inv (s\<lparr>minimum_rating := a\<rparr>) = dht_inv s" "dht_inv (s\<lparr>announcetable := b\<rparr>) = dht_inv s"
  "dht_inv (s\<lparr>lookuptable := b\<rparr>) = dht_inv s" "dht_inv (s\<lparr>ratings_list := r\<rparr>) = dht_inv s"
  "dht_inv (s\<lparr>dht_has_been_ready := d\<rparr>) = dht_inv s" "dht_inv (s\<lparr>clock_src := f\<rparr>) = dht_inv s"
  "dht_inv (s\<lparr>malloc_src := g\<rparr>) = dht_inv s" "dht_inv (s\<lparr>extbl := h\<rparr>) = dht_inv s"
  by (simp_all add: dht_inv_def rt_inv_def searches_inv_def storage_inv_def)

lemma skel_ext [simp]:
  "skel (s\<lparr>minimum_rating := a\<rparr>) = skel s" "skel (s\<lparr>announcetable := b\<rparr>) = skel s"
  "skel (s\<lparr>lookuptable := b\<rparr>) = skel s" "skel (s\<lparr>ratings_list := r\<rparr>) = skel s"
  "skel (s\<lparr>dht_has_been_ready := d\<rparr>) = skel s" "skel (s\<lparr>clock_src := f\<rparr>) = skel s"
  "skel (s\<lparr>malloc_src := g\<rparr>) = skel s" "skel (s\<lparr>extbl := h\<rparr>) = skel s"
  by (simp_all add: skel_def)

subsection \<open>The call-back\<close>

lemma kept_search_done: "safe (api c C an kl) s \<Longrightarrow> kept (api c C an kl) s (search_done x s)"
proof -
  assume s: "safe (api c C an kl) s"
  define t where "t = (case getFromList x (lookuptable s) of None \<Rightarrow> s
      | Some i \<Rightarrow> s\<lparr>lookuptable :=
          update_at i (\<lambda>e. e\<lparr>e_status := search_done_status (e_status e)\<rparr>) (lookuptable s)\<rparr>)"
  have "map e_md (update_at i (\<lambda>e. e\<lparr>e_status := search_done_status (e_status e)\<rparr>) l) = map e_md l" for i l
    by (rule map_update_at) simp
  then have t: "kept (api c C an kl) s t"
    using s by (auto simp: t_def kept_def safe_api split: option.split)
  have "search_done x s = visible (Operation_done x) t" by (simp add: search_done_def t_def Let_def)
  then show ?thesis using kept_trans [OF t safe_quiet [OF keptD(1) [OF t] quiet_visible aborted_visible]] by simp
qed

lemma kept_rate_all:
  assumes "passing C" "safe (api c C an kl) s"
  shows "kept (api c C an kl) s (snd (rate_all k x tgt sa n s))"
  using assms(2)
proof (induction k arbitrary: s)
  case 0
  then show ?case by (simp add: kept_refl)
next
  case (Suc k)
  let ?rs = "ratings_list s"
  have l: "later (clock_src s) \<in> C" using assms(1) Suc.prems by (simp add: safe_api passing_def)
  have ok: "ratings_ok ?rs" using Suc.prems by (simp add: safe_api)
  show ?case
  proof (cases "get_rating (clock_src s 0) x tgt sa n ?rs")
    case None
    then have "\<not> c" using Suc.prems by (auto simp: safe_api usable_def get_rating_def split: if_splits)
    then show ?thesis using Suc.prems None l
      by (simp add: c_time_def kept_def safe_api c_abort_def dht_inv_def rt_inv_def searches_inv_def storage_inv_def skel_def)
  next
    case (Some r)
    obtain v rs' where r: "get_rating (clock_src s 0) x tgt sa n ?rs = Some (v, rs')" using Some by (cases r) simp
    have "usable rs'" if "usable ?rs"
      using r by (cases rule: get_rating_cases) (use that in \<open>auto simp: usable_def get_rating_def split: if_splits\<close>)
    then have k: "kept (api c C an kl) s (s\<lparr>clock_src := later (clock_src s), ratings_list := rs'\<rparr>)"
      using Suc.prems get_rating_ok [OF r ok] l by (simp add: kept_def safe_api)
    then show ?thesis
      using kept_trans [OF k Suc.IH [OF keptD(1) [OF k]]] r by (simp add: c_time_def case_prod_unfold Let_def)
  qed
qed

lemma kept_ping_rated:
  assumes "safe (api c C an kl) s" "0 < n" "n \<le> sizeof_ss"
  shows "kept (api c C an kl) s (ping_rated l n s)"
  using assms
proof (induction l n s rule: ping_rated.induct)
  case (2 ss r l n s)
  let ?t = "if r > 0 \<and> r \<ge> int (minimum_rating s) then snd (dht_ping_dtn_node ss n s) else s"
  have t: "kept (api c C an kl) s ?t"
    using safe_quiet [OF 2(2) quiet_sends(8) aborted_sends(8)] 2(3,4) kept_refl [OF 2(2)]
    by (simp add: dht_ping_dtn_node_def)
  show ?case using kept_trans [OF t 2(1) [OF keptD(1) [OF t] 2(3,4)]] by simp
qed (simp add: kept_refl)

lemma kept_values_found:
  assumes "safe (api c C an kl) s" "0 < n" "n \<le> sizeof_ss" "passing C"
  shows "kept (api c C an kl) s (values_found af sz x dat sa n s)"
proof -
  obtain ss u where u: "malloc_ss (length dat div sz) s = (ss, u)" by fastforce
  have ku: "kept (api c C an kl) s u" using assms(1) u by (auto simp: malloc_ss_def kept_def safe_api)
  define ss' where "ss' = fill_ss af sz dat ss"
  obtain l v where v: "rate_all (length ss') x (ss' ! 0) sa n u = (l, v)" by fastforce
  have kv: "kept (api c C an kl) u v" using kept_rate_all [OF assms(4) keptD(1) [OF ku], of "length ss'" x "ss' ! 0" sa n] v by simp
  have "values_found af sz x dat sa n s = ping_rated (zip ss' l) n v"
    unfolding values_found_def u Let_def prod.case ss'_def [symmetric] v ..
  then show ?thesis
    using kept_trans [OF ku kept_trans [OF kv kept_ping_rated [OF keptD(1) [OF kv] assms(2,3)]]] by simp
qed

lemma cb_ok_dtn_callback: "passing C \<Longrightarrow> cb_ok (api c C an kl) (Some dtn_callback)"
proof -
  assume C: "passing C"
  have n: "0 < n \<and> n \<le> sizeof_ss" if "good_sa sa n" for sa n using that by (auto simp: good_sa_def)
  have "kept (api c C an kl) s (dtn_callback ev x d sa n s)"
    if "safe (api c C an kl) s" "ev = DHT_EVENT_VALUES \<or> ev = DHT_EVENT_VALUES6 \<longrightarrow> good_sa sa n" for ev x d sa n s
  proof (cases ev)
    case DHT_EVENT_VALUES
    then show ?thesis using that n [of sa n] kept_values_found [OF that(1) _ _ C] kept_refl [OF that(1)]
      by (auto simp: dtn_callback_def) (auto simp: kept_def safe_api)
  next
    case DHT_EVENT_VALUES6
    then show ?thesis using that n [of sa n] kept_values_found [OF that(1) _ _ C] kept_refl [OF that(1)]
      by (auto simp: dtn_callback_def) (auto simp: kept_def safe_api)
  qed (use kept_search_done [OF that(1)] in \<open>simp_all add: dtn_callback_def\<close>)
  then show ?thesis by (simp add: cb_ok_def)
qed

subsection \<open>The functions\<close>

definition dtn_safe :: "bool \<Rightarrow> dtndht \<Rightarrow> bool" where
  "dtn_safe c s \<longleftrightarrow> dht_inv s \<and> valid_table (announcetable s) \<and> valid_table (lookuptable s) \<and>
     ratings_ok (ratings_list s) \<and> (c \<longrightarrow> usable (ratings_list s) \<and> \<not> aborted s \<and> (\<forall>k. calloc_src s k))"

text \<open>A step between whose ends a client sees the same keys in both tables.\<close>

definition steady :: "bool \<Rightarrow> dtndht \<Rightarrow> dtndht \<Rightarrow> bool" where
  "steady c s t \<longleftrightarrow> dtn_safe c t \<and> announcetable t = announcetable s \<and>
     map e_md (lookuptable t) = map e_md (lookuptable s)"

lemma steadyD: "steady c s t \<Longrightarrow> dtn_safe c t" "steady c s t \<Longrightarrow> announcetable t = announcetable s"
  "steady c s t \<Longrightarrow> map e_md (lookuptable t) = map e_md (lookuptable s)"
  "steady c s t \<Longrightarrow> length (lookuptable t) = length (lookuptable s)"
  by (auto simp: steady_def dest: map_eq_imp_length_eq)

lemma steady_trans: "steady c s t \<Longrightarrow> steady c t u \<Longrightarrow> steady c s u"
  by (simp add: steady_def)

lemma steady_refl: "dtn_safe c s \<Longrightarrow> steady c s s"
  by (simp add: steady_def)

lemma valid_table_keys: "valid_table t \<longleftrightarrow> (\<forall>k \<in> set (map e_md t). valid_id k)"
  by (simp add: valid_table_def)

lemma safe_of_dtn: "dtn_safe c s \<Longrightarrow> safe (api c UNIV (announcetable s) (map e_md (lookuptable s))) s"
  by (simp add: dtn_safe_def safe_api)

lemma steadyI:
  assumes "dtn_safe c s" "calm (api c UNIV (announcetable s) (map e_md (lookuptable s))) s t"
  shows "steady c s t"
  using assms calmD(1) [OF assms(2)]
  by (simp add: steady_def dtn_safe_def safe_api valid_table_keys [of "lookuptable t"] valid_table_keys [of "lookuptable s"])

lemma steady_ext:
  assumes "dtn_safe c s"
  shows "steady c s (set_minimum ctx s)" "steady c s (s\<lparr>dht_has_been_ready := b\<rparr>)" "steady c s (s\<lparr>clock_src := f\<rparr>)"
    "steady c s (s\<lparr>extbl := h\<rparr>)"
  using assms by (auto simp: steady_def dtn_safe_def set_minimum_def)

lemma steady_ready: "dtn_safe c s \<Longrightarrow> steady c s (snd (dtn_dht_ready_for_work ctx s))"
  using steady_ext(2) [of c s True] by (simp add: dtn_dht_ready_for_work_def steady_refl Let_def)

lemma steady_time: "dtn_safe c s \<Longrightarrow> steady c s (snd (c_time s))"
  by (simp add: c_time_def steady_ext)

lemma steady_quiet: "dtn_safe c s \<Longrightarrow> quiet s t \<Longrightarrow> aborted t = aborted s \<Longrightarrow> steady c s t"
  using steadyI kept_calm safe_quiet safe_of_dtn by blast

lemma steady_search:
  assumes "dtn_safe c s" "valid_id x"
  shows "steady c s (snd (dtn_dht_search ctx x port s))"
proof -
  have one: "steady c s (snd (dht_search x port af (Some dtn_callback) s))" if "dtn_safe c s" "inet af" for af s
    using steadyI [OF that(1)] calm_dht_search [OF safe_of_dtn [OF that(1)] cb_ok_dtn_callback [OF passing_UNIV(1)] assms(2) that(2)] by blast
  have two: "steady c s (snd (dht_search x port AF_INET6 (Some dtn_callback) (snd (dht_search x port AF_INET (Some dtn_callback) s))))"
    using steady_trans [OF one [OF assms(1), of AF_INET] one [OF steadyD(1) [OF one [OF assms(1), of AF_INET]], of AF_INET6]]
    by simp
  show ?thesis using one [OF assms(1), of AF_INET] one [OF assms(1), of AF_INET6] two steady_refl [OF assms(1)]
    by (auto simp: dtn_dht_search_def case_prod_unfold Let_def split: dtn_dht_bind_type.split)
qed

lemma valid_key_of [simp]: "valid_id (key_of eid)"
proof -
  have "length (snd (sha1_finish ctx)) = 20" for ctx
    by (simp add: sha1_finish_def Let_def split: prod.split) (simp add: PUT_ULONG_BE_def)
  then show ?thesis by (simp add: key_of_def dht_hash_def valid_id_def SHA_DIGEST_LENGTH_def Let_def)
qed

lemma valid_table_update:
  "valid_table t \<Longrightarrow> (\<And>e. e_md (f e) = e_md e) \<Longrightarrow> valid_table (update_at i f t)"
  using map_update_at [of e_md f i t] by (simp add: valid_table_keys)

lemma dtn_safe_tables:
  assumes "dtn_safe c s"
  shows "valid_table an \<Longrightarrow> dtn_safe c (s\<lparr>announcetable := an\<rparr>)"
    "valid_table lk \<Longrightarrow> dtn_safe c (s\<lparr>lookuptable := lk\<rparr>)"
  using assms by (simp_all add: dtn_safe_def)

lemma dtn_safe_entries:
  assumes "dtn_safe c s" "\<And>e. e_md (f e) = e_md e"
  shows "dtn_safe c (s\<lparr>announcetable := update_at i f (announcetable s)\<rparr>)"
    "dtn_safe c (s\<lparr>lookuptable := update_at i f (lookuptable s)\<rparr>)"
  using assms valid_table_update by (simp_all add: dtn_safe_def)

lemma safe_start_lookup:
  assumes "dtn_safe c s" "valid_id key"
  shows "dtn_safe c (snd (start_lookup ctx key s))"
  using assms steadyD(1) [OF steady_search [OF assms]] by (simp add: start_lookup_def split: option.split)

lemma safe_dtn_dht_lookup: "dtn_safe c s \<Longrightarrow> dtn_safe c (snd (dtn_dht_lookup ctx eid s))"
proof -
  assume s: "dtn_safe c s"
  obtain rdy u where u: "dtn_dht_ready_for_work ctx s = (rdy, u)" by fastforce
  have su: "dtn_safe c u" using steadyD(1) [OF steady_ready [OF s, of ctx]] u by simp
  define v where "v = set_minimum ctx u"
  have v: "dtn_safe c v" using steadyD(1) [OF steady_ext(1) [OF su]] by (simp add: v_def)
  have t: "dtn_safe c (snd (c_time v))" using steadyD(1) [OF steady_time [OF v]] .
  have tl: "lookuptable (snd (c_time v)) = lookuptable v" by (simp add: c_time_def)
  have vt: "valid_table (lookuptable v)" using v by (simp add: dtn_safe_def)
  show ?thesis
  proof (cases "rdy = 0")
    case True
    then show ?thesis using su by (simp add: dtn_dht_lookup_def u)
  next
    case False
    have e: "dtn_dht_lookup ctx eid s =
      (case getFromList (key_of eid) (lookuptable v) of
          None \<Rightarrow> start_lookup ctx (key_of eid) ((snd (c_time v))\<lparr>lookuptable := addToList (fst (c_time v)) (key_of eid) (lookuptable v)\<rparr>)
        | Some i \<Rightarrow>
            if e_status (lookuptable v ! i) = SEARCHING \<or> e_status (lookuptable v ! i) = REPEAT_SEARCH
            then (1, v\<lparr>lookuptable := update_at i (\<lambda>e. e\<lparr>e_status := REPEAT_SEARCH\<rparr>) (lookuptable v)\<rparr>)
            else start_lookup ctx (key_of eid)
                   ((snd (c_time v))\<lparr>lookuptable := update_at i (\<lambda>e. e\<lparr>e_updatetime := fst (c_time v), e_status := SEARCHING\<rparr>) (lookuptable v)\<rparr>))"
      using False by (cases "getFromList (key_of eid) (lookuptable v)")
        (simp_all add: dtn_dht_lookup_def u v_def [symmetric] Let_def c_time_def)
    have a: "dtn_safe c ((snd (c_time v))\<lparr>lookuptable := addToList z (key_of eid) (lookuptable v)\<rparr>)" for z
      using valid_addToList [OF valid_key_of vt] by (rule dtn_safe_tables(2) [OF t])
    have b: "dtn_safe c ((snd (c_time v))\<lparr>lookuptable := update_at i (\<lambda>e. e\<lparr>e_updatetime := z, e_status := SEARCHING\<rparr>) (lookuptable v)\<rparr>)" for i z
      by (rule dtn_safe_tables(2) [OF t]) (rule valid_table_update [OF vt], simp)
    have d: "dtn_safe c (v\<lparr>lookuptable := update_at i (\<lambda>e. e\<lparr>e_status := REPEAT_SEARCH\<rparr>) (lookuptable v)\<rparr>)" for i
      by (rule dtn_safe_entries(2) [OF v]) simp
    show ?thesis unfolding e
      using safe_start_lookup [OF a valid_key_of] safe_start_lookup [OF b valid_key_of] d by (simp split: option.split)
  qed
qed

lemma dtn_safe_calm: "dtn_safe c s \<Longrightarrow> safe (api c UNIV (announcetable s) (map e_md (lookuptable s))) t \<Longrightarrow> dtn_safe c t"
  by (simp add: dtn_safe_def safe_api valid_table_keys [of "lookuptable t"] valid_table_keys [of "lookuptable s"])

lemma safe_dtn_dht_announce: "dtn_safe c s \<Longrightarrow> dtn_safe c (snd (dtn_dht_announce ctx eid ty s))"
proof -
  assume s: "dtn_safe c s"
  define u where "u = snd (dht_add_dtn_eid eid ty (set_minimum ctx s))"
  have m: "dtn_safe c (set_minimum ctx s)" using steadyD(1) [OF steady_ext(1) [OF s]] .
  have u: "dtn_safe c u" unfolding u_def using dtn_safe_calm [OF m safe_add_eid [OF safe_of_dtn [OF m]]] .
  define v where "v = (snd (c_time u))\<lparr>announcetable :=
    update_at 0 (\<lambda>e. e\<lparr>e_announce := True\<rparr>) (addToList (fst (c_time u)) (key_of eid) (announcetable u))\<rparr>"
  have vt: "valid_table (announcetable u)" using u by (simp add: dtn_safe_def)
  have v: "dtn_safe c v" unfolding v_def
    by (rule dtn_safe_tables(1) [OF steadyD(1) [OF steady_time [OF u]]], rule valid_table_update)
      (simp_all add: valid_addToList [OF valid_key_of vt])
  obtain rdy w where w: "dtn_dht_ready_for_work ctx v = (rdy, w)" by fastforce
  have sw: "dtn_safe c w" using steadyD(1) [OF steady_ready [OF v, of ctx]] w by simp
  have tl: "announcetable (snd (c_time u)) = announcetable u" by (simp add: c_time_def)
  have e: "dtn_dht_announce ctx eid ty s =
    (case getFromList (key_of eid) (announcetable u) of
       None \<Rightarrow> if rdy = 0
               then (0, w\<lparr>announcetable := update_at 0 (\<lambda>e. e\<lparr>e_updatetime := 0\<rparr>) (announcetable w)\<rparr>)
               else dtn_dht_search ctx (key_of eid) (nat (cx_port ctx mod 65536)) w
     | Some i \<Rightarrow> (0, u\<lparr>announcetable := update_at i (\<lambda>e. e\<lparr>e_announce := True\<rparr>) (announcetable u)\<rparr>))"
    by (cases "getFromList (key_of eid) (announcetable u)")
      (simp_all add: dtn_dht_announce_def u_def [symmetric] case_prod_unfold Let_def tl v_def [symmetric] w)
  show ?thesis unfolding e
    using dtn_safe_entries(1) [OF sw] dtn_safe_entries(1) [OF u] steadyD(1) [OF steady_search [OF sw valid_key_of]]
    by (simp split: option.split)
qed

lemma valid_deactivate: "valid_table t \<Longrightarrow> valid_table (deactivateFromList k t)"
  using deactivate_keys [of k t] by (simp only: valid_table_keys)

lemma safe_dtn_dht_deannounce: "dtn_safe c s \<Longrightarrow> dtn_safe c (snd (dtn_dht_deannounce eid s))"
proof -
  assume s: "dtn_safe c s"
  define u where "u = snd (dht_remove_dtn_eid eid s)"
  have u: "dtn_safe c u" unfolding u_def using dtn_safe_calm [OF s safe_remove_eid [OF safe_of_dtn [OF s]]] .
  then have "valid_table (announcetable u)" by (simp add: dtn_safe_def)
  then show ?thesis using dtn_safe_tables(1) [OF u valid_deactivate] by (simp add: dtn_dht_deannounce_def u_def [symmetric])
qed

lemma safe_reannounce_from:
  assumes "dtn_safe c s" "\<forall>i \<in> set is. i < length (announcetable s)"
  shows "dtn_safe c (snd (reannounce_from ctx thr is r s))"
  using assms
proof (induction ctx thr "is" r s rule: reannounce_from.induct)
  case (2 ctx thr i "is" r s)
  obtain acttime u where u: "c_time s = (acttime, u)" by fastforce
  have ku: "steady c s u" using steady_time [OF "2.prems"(1)] u by simp
  define pos where "pos = announcetable u ! i"
  obtain rc v where v: "dtn_dht_search ctx (e_md pos) (nat (cx_port ctx mod 65536)) u = (rc, v)" by fastforce
  have len: "i < length (announcetable u)" "\<forall>j \<in> set is. j < length (announcetable u)"
    using "2.prems"(2) steadyD(2) [OF ku] by simp_all
  then have "valid_id (e_md pos)"
    using steadyD(1) [OF ku] by (simp add: dtn_safe_def valid_table_def pos_def)
  from steady_search [OF steadyD(1) [OF ku] this, of ctx] have kv: "steady c u v" using v by (metis snd_conv)
  obtain t w where w: "c_time v = (t, w)" by fastforce
  have kw: "steady c v w" using steady_time [OF steadyD(1) [OF kv]] w by simp
  let ?w = "w\<lparr>announcetable := update_at i (\<lambda>e. e\<lparr>e_updatetime := t\<rparr>) (announcetable w)\<rparr>"
  have sw: "dtn_safe c ?w" by (rule dtn_safe_entries(1) [OF steadyD(1) [OF kw]]) simp
  have "reannounce_from ctx thr (i # is) r s =
    (if e_announce pos \<and> e_updatetime pos + thr < acttime
     then if rc < 0 then reannounce_from ctx thr is (r - 1) v else reannounce_from ctx thr is r ?w
     else reannounce_from ctx thr is r u)"
    by (simp add: u v w pos_def [symmetric] Let_def)
  moreover have "dtn_safe c (snd (reannounce_from ctx thr is r u))"
    if "\<not> (e_announce pos \<and> e_updatetime pos + thr < acttime)"
    by (rule "2.IH"(3) [OF u [symmetric] refl pos_def]) (use that steadyD(1) [OF ku] len in auto)
  moreover have "dtn_safe c (snd (reannounce_from ctx thr is (r - 1) v))"
    if "e_announce pos \<and> e_updatetime pos + thr < acttime" "rc < 0"
    by (rule "2.IH"(1) [OF u [symmetric] refl pos_def that(1) v [symmetric] refl that(2)])
      (use steadyD(1,2) [OF kv] len in auto)
  moreover have "dtn_safe c (snd (reannounce_from ctx thr is r ?w))"
    if "e_announce pos \<and> e_updatetime pos + thr < acttime" "\<not> rc < 0"
    by (rule "2.IH"(2) [OF u [symmetric] refl pos_def that(1) v [symmetric] refl that(2) w [symmetric] refl sw])
      (use steadyD(2) [OF kv] steadyD(2) [OF kw] len in auto)
  ultimately show ?case by (simp del: reannounce_from.simps)
qed simp

lemma safe_relookup_from:
  assumes "dtn_safe c s" "\<forall>i \<in> set is. i < length (lookuptable s)"
  shows "dtn_safe c (snd (relookup_from ctx is r s))"
  using assms
proof (induction ctx "is" r s rule: relookup_from.induct)
  case (2 ctx i "is" r s)
  obtain rc v where v: "dtn_dht_search ctx (e_md (lookuptable s ! i)) 0 s = (rc, v)" by fastforce
  have "valid_id (e_md (lookuptable s ! i))"
    using "2.prems" by (simp add: dtn_safe_def valid_table_def)
  from steady_search [OF "2.prems"(1) this, of ctx 0] have kv: "steady c s v" using v by simp
  obtain t w where w: "c_time v = (t, w)" by fastforce
  have kw: "steady c v w" using steady_time [OF steadyD(1) [OF kv]] w by simp
  let ?w = "w\<lparr>lookuptable := update_at i (\<lambda>e. e\<lparr>e_status := SEARCHING, e_updatetime := t\<rparr>) (lookuptable w)\<rparr>"
  have sw: "dtn_safe c ?w" by (rule dtn_safe_entries(2) [OF steadyD(1) [OF kw]]) simp
  have "relookup_from ctx (i # is) r s =
    (if e_status (lookuptable s ! i) = DONE_AND_READY_FOR_REPEAT
     then if rc < 0 then relookup_from ctx is (r - 1) v else relookup_from ctx is r ?w
     else relookup_from ctx is r s)"
    by (simp add: v w Let_def)
  moreover have "dtn_safe c (snd (relookup_from ctx is r s))" if "e_status (lookuptable s ! i) \<noteq> DONE_AND_READY_FOR_REPEAT"
    by (rule "2.IH"(3)) (use that "2.prems" in auto)
  moreover have "dtn_safe c (snd (relookup_from ctx is (r - 1) v))"
    if "e_status (lookuptable s ! i) = DONE_AND_READY_FOR_REPEAT" "rc < 0"
    by (rule "2.IH"(1) [OF that(1) v [symmetric] refl that(2)])
      (use steadyD(1,4) [OF kv] "2.prems" in auto)
  moreover have "dtn_safe c (snd (relookup_from ctx is r ?w))"
    if "e_status (lookuptable s ! i) = DONE_AND_READY_FOR_REPEAT" "\<not> rc < 0"
    by (rule "2.IH"(2) [OF that(1) v [symmetric] refl that(2) w [symmetric] refl sw])
      (use steadyD(4) [OF kv] steadyD(4) [OF kw] "2.prems" in auto)
  ultimately show ?case by (simp del: relookup_from.simps)
qed simp

lemma cleanUp_loop_sub: "set (fst (cleanUp_loop t thr head pos e)) \<subseteq> set head \<union> set pos"
  by (induction t thr head pos e rule: cleanUp_loop.induct) auto

lemma valid_cleanUpList: "valid_table l \<Longrightarrow> valid_table (cleanUpList t thr l)"
  using cleanUp_loop_sub [of t thr l l True]
  by (cases "cleanUp_loop t thr l l True") (auto simp: valid_table_def cleanUpList_def)

lemma safe_cleanup:
  assumes "dtn_safe c s"
  shows "dtn_safe c (cleanup_lookups thr s)" "dtn_safe c (cleanup_announces thr s)"
  using assms valid_cleanUpList
  by (simp_all add: cleanup_lookups_def cleanup_announces_def pass_time_def dtn_safe_def)

lemma safe_dtn_dht_periodic:
  assumes "dtn_safe c s" "0 < n \<longrightarrow> good_sa sa m \<and> n < length buf \<and> (c \<longrightarrow> \<not> double_free buf n sa tid0)"
  shows "dtn_safe c (snd (dtn_dht_periodic ctx buf n sa m tid0 t s))"
proof -
  obtain rdy u where u: "dtn_dht_ready_for_work ctx (set_minimum ctx s) = (rdy, u)" by fastforce
  have su: "dtn_safe c u"
    using steadyD(1) [OF steady_ready [OF steadyD(1) [OF steady_ext(1) [OF assms(1)]], of ctx ctx]] u by simp
  define v where "v = snd (reannounceList ctx REANNOUNCE_THRESHOLD u)"
  have sv: "dtn_safe c v" unfolding v_def reannounceList_def by (rule safe_reannounce_from [OF su]) simp
  have sw: "dtn_safe c (snd (relookupList ctx v))" unfolding relookupList_def by (rule safe_relookup_from [OF sv]) simp
  define w where "w = (if rdy \<ge> 2 then snd (relookupList ctx v) else u)"
  have "dtn_safe c w" using su sw by (simp add: w_def)
  note x = safe_cleanup(2) [OF safe_cleanup(1) [OF this], of LOOKUP_THRESHOLD LOOKUP_THRESHOLD]
  have "dtn_dht_periodic ctx buf n sa m tid0 t s =
    dht_periodic buf n sa m tid0 t (cx_clayer ctx) (Some dtn_callback)
      (cleanup_announces LOOKUP_THRESHOLD (cleanup_lookups LOOKUP_THRESHOLD w))"
    unfolding dtn_dht_periodic_def Let_def u prod.case v_def w_def ..
  then show ?thesis
    using dtn_safe_calm [OF x safe_dht_periodic(1) [OF safe_of_dtn [OF x] cb_ok_dtn_callback [OF passing_UNIV(1)]]] assms(2)
    by (simp add: api_def)
qed

lemma safe_dht_ping: "dtn_safe c s \<Longrightarrow> 0 < n \<Longrightarrow> n \<le> sizeof_ss \<Longrightarrow> dtn_safe c (snd (dht_ping_node sa n s))"
  using steadyD(1) [OF steady_quiet [of c s "snd (dht_ping_node sa n s)"]] by (simp add: dht_ping_node_def)

lemma safe_ping_results:
  "dtn_safe c s \<Longrightarrow> \<forall>(sa, n) \<in> set rs. 0 < n \<and> n \<le> sizeof_ss \<Longrightarrow> dtn_safe c (snd (ping_results rs rc s))"
proof (induction rs rc s rule: ping_results.induct)
  case (2 sa n rs rc s)
  obtain e u where u: "dht_ping_node sa n s = (e, u)" by fastforce
  then have "dtn_safe c u" using safe_dht_ping [OF "2.prems"(1), of n sa] "2.prems"(2) by simp
  then show ?case using "2.IH" [OF u [symmetric] refl] "2.prems"(2) by (simp add: u)
qed simp

lemma safe_dns:
  assumes "dtn_safe c s" "\<And>x y f rs. resolve x y f = Inr rs \<Longrightarrow> \<forall>(sa, n) \<in> set rs. 0 < n \<and> n \<le> sizeof_ss"
  shows "dtn_safe c (snd (bootstrapping_dns resolve ctx name service s))"
proof -
  have "dtn_safe c (snd (case resolve x y f of Inl rc \<Rightarrow> (rc, s) | Inr rs \<Rightarrow> ping_results rs 0 s))" for x y f
    using assms safe_ping_results [OF assms(1)] by (simp split: sum.split)
  then show ?thesis using assms(1)
    by (cases "cx_type ctx"; cases name) (simp_all add: bootstrapping_dns_def Let_def)
qed

lemma safe_ping_all: "dtn_safe c s \<Longrightarrow> 0 < n \<Longrightarrow> n \<le> sizeof_ss \<Longrightarrow> dtn_safe c (ping_all n l s)"
  by (induction l arbitrary: s) (simp_all add: safe_dht_ping)

lemma safe_load_conf: "dtn_safe c s \<Longrightarrow> dtn_safe c (snd (bootstrapping_load_conf f closed beyond stk s))"
proof -
  assume s: "dtn_safe c s"
  have "dtn_safe c (ping_all sizeof_sin6 l (ping_all sizeof_sin k s))" for k l
    using safe_ping_all [OF safe_ping_all [OF s]] by (simp add: sizeof_sin_def sizeof_sin6_def sizeof_ss_def)
  then have "dtn_safe c (load_nodes stk buf n p s)" for buf n p using s by (simp add: load_nodes_def Let_def)
  then show ?thesis using s by (simp add: bootstrapping_load_conf_def Let_def split: option.split)
qed

lemma safe_random_lookup: "dtn_safe c s \<Longrightarrow> dtn_safe c (dtn_dht_start_random_lookup ctx s)"
proof -
  assume s: "dtn_safe c s"
  let ?u = "set_minimum ctx s"
  have u: "dtn_safe c ?u" using steadyD(1) [OF steady_ext(1) [OF s]] .
  obtain x v where v: "dht_random_bytes SHA_DIGEST_LENGTH ?u = (x, v)" by fastforce
  have r: "random_bytes SHA_DIGEST_LENGTH ?u = (x, v)" using v by (simp add: dht_random_bytes_def)
  have x: "valid_id x" using length_random_bytes [OF r] by (simp add: valid_id_def SHA_DIGEST_LENGTH_def)
  have sv: "dtn_safe c v" using dtn_safe_calm [OF u keptD(1) [OF kept_drawn [OF safe_of_dtn [OF u] drawn_random_bytes [OF r]]]] .
  define w where "w = (if blacklist_is_enabled (extbl v) then v\<lparr>extbl := blacklist_blacklist_id x (extbl v)\<rparr> else v)"
  have sw: "dtn_safe c w" using sv steadyD(1) [OF steady_ext(4) [OF sv]] by (simp add: w_def)
  have go: "dtn_safe c (snd (dht_search x 0 af (Some dtn_callback) y))" if "dtn_safe c y" "inet af" for y af
    using dtn_safe_calm [OF that(1)] calmD(1) [OF calm_dht_search [OF safe_of_dtn [OF that(1)] cb_ok_dtn_callback [OF passing_UNIV(1)] x that(2)]]
    by blast
  show ?thesis
    using sw go [OF sw, of AF_INET] go [OF sw, of AF_INET6] go [OF go [OF sw, of AF_INET], of AF_INET6]
    by (simp add: dtn_dht_start_random_lookup_def bootstrapping_start_random_lookup_def v w_def [symmetric] Let_def)
qed

lemma safe_dtn_insert: "dtn_safe c s \<Longrightarrow> valid_id x \<Longrightarrow> good_sa sa n \<Longrightarrow> dtn_safe c (snd (dht_insert_node x sa n s))"
  using dtn_safe_calm safe_insert_node safe_of_dtn by blast

subsection \<open>The program with its interface\<close>

text \<open>
  The machine of the interface: its states are those of the record, its steps the public functions, called as
  their clients do, with sound buffers and addresses. With \<open>c\<close>, packets with the double release are excluded and the
  node is not stopped after it has rated something.
\<close>

definition dtn_inv :: "bool \<Rightarrow> dtndht \<Rightarrow> bool" where
  "dtn_inv c s \<longleftrightarrow> valid_table (announcetable s) \<and> valid_table (lookuptable s) \<and>
     machine_inv (api c UNIV (announcetable s) (map e_md (lookuptable s))) s"

lemma dtn_safe_inv: "dtn_safe c s \<Longrightarrow> dtn_inv c s"
  using safe_machine [OF safe_of_dtn] by (simp add: dtn_inv_def dtn_safe_def)

lemma dtn_inv_safe: "dtn_inv c s \<Longrightarrow> running s \<Longrightarrow> dtn_safe c s"
  by (simp add: dtn_inv_def machine_inv_def dtn_safe_def safe_api)

lemma machine_dtn_inv:
  assumes "valid_table an" "\<forall>k \<in> set kl. valid_id k" "machine_inv (api c UNIV an kl) s"
  shows "dtn_inv c s"
proof -
  have "ext_inv (api c UNIV an kl) (dht.more s)"
    using assms(3) by (auto simp: machine_inv_def safe_def idle_def split: if_splits)
  then have "announcetable s = an" "map e_md (lookuptable s) = kl" by (simp_all add: api_def)
  then show ?thesis using assms by (simp add: dtn_inv_def valid_table_keys [of "lookuptable s"])
qed

lemma inv_dtn_dht_init:
  assumes "dtn_inv c s" "length (cx_id ctx) = 20"
  shows "dtn_inv c (snd (dtn_dht_init ctx nb nb6 t s))"
proof -
  let ?u = "(set_minimum ctx s)\<lparr>announcetable := [], lookuptable := []\<rparr>"
  have "machine_inv (api c UNIV [] []) ?u"
  proof (cases "running s")
    case True
    then have "dtn_safe c s" by (rule dtn_inv_safe [OF assms(1)])
    then have "safe (api c UNIV [] []) ?u" by (simp add: dtn_safe_def safe_api set_minimum_def)
    then show ?thesis by (rule safe_machine)
  next
    case False
    then have "idle (api c UNIV (announcetable s) (map e_md (lookuptable s))) s"
      using assms(1) by (simp add: dtn_inv_def machine_inv_def)
    then show ?thesis using False by (simp add: machine_inv_def idle_def running_def api_def set_minimum_def)
  qed
  from safe_dht_init [OF this, of "cx_id ctx"] show ?thesis
    using assms(2) by (intro machine_dtn_inv [of "[]" "[]"]) (simp_all add: dtn_dht_init_def valid_table_def)
qed

lemma inv_dtn_dht_uninit:
  assumes "dtn_safe c s" "c \<longrightarrow> rlist (ratings_list s) = []"
  shows "dtn_inv c (snd (dtn_dht_uninit s))"
proof -
  define u where "u = (case free_ratings (ratings_list s) of None \<Rightarrow> c_abort s | Some rs \<Rightarrow> s\<lparr>ratings_list := rs\<rparr>)"
  have u: "dtn_safe c u"
  proof (cases "rlist (ratings_list s) = []")
    case True
    then show ?thesis using assms(1) by (simp add: u_def free_ratings_def)
  next
    case False
    then have "\<not> c" using assms(2) by simp
    then show ?thesis using assms(1) False
      by (simp add: u_def free_ratings_def dtn_safe_def ratings_ok_def c_abort_def dht_inv_def rt_inv_def searches_inv_def storage_inv_def)
  qed
  have "valid_table (map (\<lambda>e. e\<lparr>e_announce := False\<rparr>) (announcetable u))"
    using u by (simp add: dtn_safe_def valid_table_def)
  then have "dtn_safe c (cleanup_lookups (- 1) (cleanup_announces (- 1)
      (u\<lparr>announcetable := map (\<lambda>e. e\<lparr>e_announce := False\<rparr>) (announcetable u)\<rparr>)))" (is "dtn_safe c ?w")
    using safe_cleanup dtn_safe_tables(1) [OF u] by simp
  note x = steadyD(1) [OF steady_ext(4) [OF this, of "blacklist_free (extbl ?w)"]]
  have "dtn_dht_uninit s = dht_uninit (?w\<lparr>extbl := blacklist_free (extbl ?w)\<rparr>)"
    unfolding dtn_dht_uninit_def u_def [symmetric] Let_def ..
  then show ?thesis using idle_uninit [OF safe_of_dtn [OF x]] x
    by (intro machine_dtn_inv) (auto simp: dtn_safe_def valid_table_keys)
qed

inductive dtn_step :: "bool \<Rightarrow> dtndht \<Rightarrow> dtndht \<Rightarrow> bool" for c where
  init: "length (cx_id ctx) = 20 \<Longrightarrow> dtn_step c s (snd (dtn_dht_init ctx nb nb6 t s))"
| uninit: "running s \<Longrightarrow> c \<longrightarrow> rlist (ratings_list s) = [] \<Longrightarrow> dtn_step c s (snd (dtn_dht_uninit s))"
| periodic: "running s \<Longrightarrow>
    0 < n \<longrightarrow> good_sa sa m \<and> n < length buf \<and> (c \<longrightarrow> \<not> double_free buf n sa tid0) \<Longrightarrow>
    dtn_step c s (snd (dtn_dht_periodic ctx buf n sa m tid0 t s))"
| lookup: "running s \<Longrightarrow> dtn_step c s (snd (dtn_dht_lookup ctx eid s))"
| announce: "running s \<Longrightarrow> dtn_step c s (snd (dtn_dht_announce ctx eid ty s))"
| deannounce: "running s \<Longrightarrow> dtn_step c s (snd (dtn_dht_deannounce eid s))"
| insert: "running s \<Longrightarrow> valid_id x \<Longrightarrow> good_sa sa n \<Longrightarrow> dtn_step c s (snd (dtn_dht_insert_node x sa n s))"
| ping: "running s \<Longrightarrow> 0 < n \<Longrightarrow> n \<le> sizeof_ss \<Longrightarrow> dtn_step c s (snd (dtn_dht_ping_node sa n s))"
| dns: "running s \<Longrightarrow> \<forall>x y f rs. resolve x y f = Inr rs \<longrightarrow> (\<forall>(sa, n) \<in> set rs. 0 < n \<and> n \<le> sizeof_ss) \<Longrightarrow>
    dtn_step c s (snd (dtn_dht_dns_bootstrap resolve ctx name service s))"
| load: "running s \<Longrightarrow> dtn_step c s (snd (dtn_dht_load_prev_conf f closed beyond stk s))"
| random: "running s \<Longrightarrow> dtn_step c s (dtn_dht_start_random_lookup ctx s)"
| ready: "running s \<Longrightarrow> dtn_step c s (snd (dtn_dht_ready_for_work ctx s))"
| blacklist: "running s \<Longrightarrow> dtn_step c s (dtn_dht_blacklist enable s)"

inductive_cases dtn_stepE: "dtn_step c s t"

lemma dtn_inv_step:
  assumes "dtn_inv c s" "dtn_step c s t"
  shows "dtn_inv c t"
  using assms(2)
proof cases
  case init
  then show ?thesis using inv_dtn_dht_init [OF assms(1)] by simp
next
  case uninit
  then show ?thesis using inv_dtn_dht_uninit [OF dtn_inv_safe [OF assms(1)]] by simp
next
  case periodic
  then show ?thesis using dtn_safe_inv [OF safe_dtn_dht_periodic [OF dtn_inv_safe [OF assms(1)]]] by simp
next
  case lookup
  then show ?thesis using dtn_safe_inv [OF safe_dtn_dht_lookup [OF dtn_inv_safe [OF assms(1)]]] by simp
next
  case announce
  then show ?thesis using dtn_safe_inv [OF safe_dtn_dht_announce [OF dtn_inv_safe [OF assms(1)]]] by simp
next
  case deannounce
  then show ?thesis using dtn_safe_inv [OF safe_dtn_dht_deannounce [OF dtn_inv_safe [OF assms(1)]]] by simp
next
  case insert
  then show ?thesis
    using dtn_safe_inv [OF safe_dtn_insert [OF dtn_inv_safe [OF assms(1)]]] by (simp add: dtn_dht_insert_node_def)
next
  case ping
  then show ?thesis
    using dtn_safe_inv [OF safe_dht_ping [OF dtn_inv_safe [OF assms(1)]]] by (simp add: dtn_dht_ping_node_def)
next
  case (dns resolve ctx name service)
  have "dtn_safe c (set_minimum ctx s)" using steadyD(1) [OF steady_ext(1) [OF dtn_inv_safe [OF assms(1) dns(2)]]] .
  from safe_dns [OF this, of resolve] show ?thesis
    using dns(1,3) by (intro dtn_safe_inv) (simp add: dtn_dht_dns_bootstrap_def)
next
  case load
  then show ?thesis
    using dtn_safe_inv [OF safe_load_conf [OF dtn_inv_safe [OF assms(1)]]] by (simp add: dtn_dht_load_prev_conf_def)
next
  case random
  then show ?thesis using dtn_safe_inv [OF safe_random_lookup [OF dtn_inv_safe [OF assms(1)]]] by simp
next
  case ready
  then show ?thesis using dtn_safe_inv [OF steadyD(1) [OF steady_ready [OF dtn_inv_safe [OF assms(1)]]]] by simp
next
  case blacklist
  then show ?thesis
    using dtn_safe_inv [OF steadyD(1) [OF steady_ext(4) [OF dtn_inv_safe [OF assms(1)]]]] by (simp add: dtn_dht_blacklist_def)
qed

end
