(* ===== verification/Library.thy ===== *)
theory Library
  imports Dtndht_Inv
begin

text \<open>
  The properties of the library as its clients see it: the machine of its interface, what happens to the
  announcements and to the addresses a search finds, starting and stopping.
\<close>

subsection \<open>Loading\<close>

definition dtn_loaded :: "bool \<Rightarrow> dtndht \<Rightarrow> bool" where
  "dtn_loaded c s \<longleftrightarrow> (\<exists>ra ca so ti ma. s = dtndht_static ra ca so ti ma \<and> (c \<longrightarrow> (\<forall>k. ca k)))"

lemma dtndht_static_fields [simp]:
  "announcetable (dtndht_static ra ca so ti ma) = []" "lookuptable (dtndht_static ra ca so ti ma) = []"
  "ratings_list (dtndht_static ra ca so ti ma) = ratings_initial" "clock_src (dtndht_static ra ca so ti ma) = ti"
  "calloc_src (dtndht_static ra ca so ti ma) = ca" "aborted (dtndht_static ra ca so ti ma) = False"
  "dht_socket (dtndht_static ra ca so ti ma) = - 1" "dht_socket6 (dtndht_static ra ca so ti ma) = - 1"
  "blist (dtndht_static ra ca so ti ma) = replicate DHT_MAX_BLACKLISTED zero_ss"
  by (simp_all add: dtndht_static_def dtndht.fields_def dht.extend_def static_dht_def)

lemma loaded_dtn_inv: "dtn_loaded c s \<Longrightarrow> dtn_inv c s"
  by (auto simp: dtn_loaded_def dtn_inv_def machine_inv_def running_def idle_def api_def valid_table_def
      ratings_ok_def usable_def ratings_initial_def zero_ss_def sizeof_ss_def)

interpretation library: invariant_machine "dtn_loaded c" "dtn_step c" "dtn_inv c" for c
  by unfold_locales (auto intro: loaded_dtn_inv dtn_inv_step)

subsection \<open>Every state of the library\<close>

text \<open>
  C1: the library keeps its invariants. Whatever public functions a client calls after loading it, in whatever
  order, whatever packets arrive and whatever the network, the clock and the random numbers answer: both tables hold
  20-byte keys only, all ratings are between 0 and 10, and while the node runs, the routing table,
  the searches and the storage are well-formed. If allocations succeed (\<open>c\<close>), no packet triggers the double
  release and the node is not stopped once it holds ratings, it never aborts, call-backs included.
\<close>

theorem library_safe:
  assumes "library.reach c s"
  shows "valid_table (announcetable s) \<and> valid_table (lookuptable s) \<and> ratings_ok (ratings_list s) \<and>
    (running s \<longrightarrow> dht_inv s) \<and> (c \<longrightarrow> \<not> aborted s)"
  using library.reach_inv [OF assms]
  by (auto simp: dtn_inv_def machine_inv_def safe_def idle_def api_def split: if_splits)

definition ctx_example :: dtn_dht_context where
  "ctx_example = \<lparr>ipv4socket = 3, ipv6socket = - 1, cx_id = replicate 20 7, cx_port = 9999, cx_type = IPV4ONLY,
     cx_bind = None, cx_bind6 = None, cx_minimum_rating = 0, cx_clayer = []\<rparr>"

definition loaded_example :: dtndht where
  "loaded_example = dtndht_static (\<lambda>_. 0) (\<lambda>_. True) (\<lambda>_. 0) (\<lambda>_. 1000) (\<lambda>_. [])"

definition started_example :: dtndht where
  "started_example = snd (dtn_dht_init ctx_example True True 50 loaded_example)"

lemma running_started_example: "running started_example"
proof -
  let ?s = "(set_minimum ctx_example loaded_example)\<lparr>announcetable := [], lookuptable := []\<rparr>"
  let ?u = "?s\<lparr>searches := [], numsearches := 0, storages := [], numstorage := 0, mygroups := [], myneighbours := [],
      calloc_src := later (\<lambda>_. True), buckets := [calloc_bucket AF_INET]\<rparr>"
  have f: "buckets ?s = []" "buckets6 ?s = []" "searches ?s = []"
    by (simp_all add: set_minimum_def loaded_example_def dtndht_static_def dtndht.fields_def dht.extend_def static_dht_def)
  have b: "blist ?s = replicate DHT_MAX_BLACKLISTED zero_ss" "dht_socket ?s = - 1" "dht_socket6 ?s = - 1"
    "calloc_src ?s = (\<lambda>_. True)" "aborted ?s = False"
    by (simp_all add: set_minimum_def loaded_example_def)
  have "prepared (plain True) ?u" using f b by (simp add: prepared_def idle_def zero_ss_def sizeof_ss_def)
  from dht_socket_init_rest [OF this, of "replicate 20 7" 3 "- 1" None 50]
  have "dht_socket (init_rest 3 (- 1) (replicate 20 7) None 50 ?u) = 3" by simp
  moreover have "started_example = init_rest 3 (- 1) (replicate 20 7) None 50 ?u"
    using f b by (simp add: started_example_def dtn_dht_init_def ctx_example_def dht_init_def init_socket_def c_calloc_def set_table_def)
  ultimately show ?thesis by (simp add: running_def)
qed

lemma reach_started_example: "library.reach True started_example"
proof -
  have "library.reach True loaded_example"
    unfolding loaded_example_def
    by (rule library.start) (unfold dtn_loaded_def, intro exI conjI, rule refl, simp)
  then show ?thesis unfolding started_example_def
    by (rule library.move) (rule dtn_step.init, simp add: ctx_example_def)
qed

lemma library_safe_witness:
  "aborted (snd (dtn_dht_announce ctx_example (ascii ''dtn://a'') SINGLETON started_example)) = False"
proof -
  have "library.reach True (snd (dtn_dht_announce ctx_example (ascii ''dtn://a'') SINGLETON started_example))"
    by (rule library.move [OF reach_started_example dtn_step.announce [OF running_started_example]])
  from library_safe [OF this] show ?thesis by simp
qed

subsection \<open>Starting and stopping\<close>

text \<open>What one part of a machine keeps, another one keeps with it: modes can be exchanged.\<close>

lemma machine_mode:
  assumes "machine_inv c s" "P (dht.more s)"
  shows "machine_inv (Mode (no_fail c) P) s"
  using assms by (auto simp: machine_inv_def safe_def idle_def split: if_splits)

lemma machine_ext: "machine_inv c s \<Longrightarrow> ext_inv c (dht.more s)"
  by (auto simp: machine_inv_def safe_def idle_def split: if_splits)

lemma ratings_kept_by_init:
  assumes "dtn_inv c s" "length (cx_id ctx) = 20"
  shows "ratings_list (snd (dtn_dht_init ctx nb nb6 t s)) = ratings_list s"
proof -
  let ?u = "(set_minimum ctx s)\<lparr>announcetable := [], lookuptable := []\<rparr>"
  have "machine_inv (Mode False (\<lambda>x. True)) s"
    using assms(1) machine_mode [of _ s "\<lambda>_. True"] by (auto simp: dtn_inv_def machine_inv_def safe_def idle_def split: if_splits)
  then have "machine_inv (Mode False (\<lambda>x. ratings_list (of_ext x) = ratings_list s)) ?u"
    by (auto simp: machine_inv_def safe_def idle_def running_def set_minimum_def split: if_splits)
  from machine_ext [OF safe_dht_init [OF this, of "cx_id ctx"]] assms(2) show ?thesis
    by (simp add: dtn_dht_init_def)
qed

lemma aborted_dht_uninit: "aborted s \<Longrightarrow> aborted (snd (dht_uninit s))"
  by (simp add: dht_uninit_def set_errno_def)

lemma ratings_list_uninit:
  "ratings_list (snd (dtn_dht_uninit s)) =
     (case free_ratings (ratings_list s) of None \<Rightarrow> ratings_list s | Some rs \<Rightarrow> rs)"
  by (simp add: dtn_dht_uninit_def dht_uninit_def set_errno_def cleanup_lookups_def cleanup_announces_def pass_time_def
      c_abort_def Let_def split: option.split)

lemma aborted_uninit:
  "free_ratings (ratings_list s) = None \<Longrightarrow> aborted (snd (dtn_dht_uninit s))"
  by (simp add: dtn_dht_uninit_def dht_uninit_def set_errno_def cleanup_lookups_def cleanup_announces_def pass_time_def
      c_abort_def Let_def)

text \<open>
  C37: a node that has rated something cannot be restarted. \<^verbatim>\<open>dtn_dht_uninit\<close> frees the ratings and keeps the
  pointer to them. After the next \<^verbatim>\<open>dtn_dht_init\<close>, the first answer for a looked-up key reads the
  freed list, and the next \<^verbatim>\<open>dtn_dht_uninit\<close> frees it again.
\<close>

theorem ratings_freed_twice:
  assumes "dtn_inv False s" "running s" "rlist (ratings_list s) \<noteq> []" "\<not> rfreed (ratings_list s)"
    "length (cx_id ctx) = 20" "u = snd (dtn_dht_init ctx nb nb6 t (snd (dtn_dht_uninit s)))"
  shows "aborted (snd (dtn_dht_uninit u)) \<and> get_rating t' x tgt from n (ratings_list u) = None"
proof -
  have "dtn_inv False (snd (dtn_dht_uninit s))"
    by (rule inv_dtn_dht_uninit [OF dtn_inv_safe [OF assms(1,2)]]) simp
  from ratings_kept_by_init [OF this assms(5)]
  have "ratings_list u = (ratings_list s)\<lparr>rfreed := True\<rparr>"
    using assms(3,4,6) by (simp add: ratings_list_uninit free_ratings_def)
  then show ?thesis using aborted_uninit [of u] assms(3) by (simp add: free_ratings_def get_rating_def)
qed

definition rated_example :: dtndht where
  "rated_example = started_example\<lparr>ratings_list := \<lparr>rlist =
     [rating_create_entry 60 (replicate 20 1) (mk_sin [10, 0, 0, 1] [0, 7]) (mk_sin [10, 0, 0, 2] [0, 7]) 16], rfreed = False\<rparr>\<rparr>"

lemma rated_example: "dtn_inv False rated_example" "running rated_example"
proof -
  have "dtn_safe True started_example"
    by (rule dtn_inv_safe [OF library.reach_inv [OF reach_started_example] running_started_example])
  then have "dtn_safe False rated_example"
    by (simp add: dtn_safe_def rated_example_def ratings_ok_def rating_create_entry_def rating_create_ok)
  then show "dtn_inv False rated_example" by (rule dtn_safe_inv)
  show "running rated_example" using running_started_example by (simp add: rated_example_def running_def)
qed

lemma ratings_freed_twice_witness:
  "aborted (snd (dtn_dht_uninit (snd (dtn_dht_init ctx_example True True 90 (snd (dtn_dht_uninit rated_example))))))"
  using ratings_freed_twice [OF rated_example _ _ _ refl, of ctx_example]
  by (simp add: rated_example_def ctx_example_def)

definition uses4 :: "dtn_dht_context \<Rightarrow> bool" where
  "uses4 ctx \<longleftrightarrow> cx_type ctx = IPV4ONLY \<or> cx_type ctx = BINDBOTH"

definition uses6 :: "dtn_dht_context \<Rightarrow> bool" where
  "uses6 ctx \<longleftrightarrow> cx_type ctx = IPV6ONLY \<or> cx_type ctx = BINDBOTH"

text \<open>
  When \<^verbatim>\<open>dtn_dht_init_sockets\<close> succeeds. It returns 0 exactly if the port is between 1 and 65535 and every
  system call for the families of the context succeeds, with the addresses and the port of the context; any other
  outcome is negative. With 0, the context holds the descriptors of exactly its families; with a bad port
  it is unchanged.
\<close>

theorem init_sockets_outcome:
  "dtn_dht_init_sockets pton bindf opt6 so4 so6 ctx = (rc, ctx') \<Longrightarrow>
   (rc = 0 \<longleftrightarrow> 0 < cx_port ctx \<and> cx_port ctx < 65536 \<and>
      (uses4 ctx \<longrightarrow> 0 \<le> so4 \<and> 0 \<le> bindf so4 (mk_sin (bind_addr pton AF_INET 4 (cx_bind ctx)) (port_bytes (cx_port ctx)))) \<and>
      (uses6 ctx \<longrightarrow> 0 \<le> so6 \<and> 0 \<le> opt6 \<and>
         0 \<le> bindf so6 (mk_sin6 (bind_addr pton AF_INET6 16 (cx_bind6 ctx)) (port_bytes (cx_port ctx))))) \<and>
   rc \<le> 0 \<and> (rc = - 3 \<and> (cx_port ctx \<le> 0 \<or> 65536 \<le> cx_port ctx) \<longrightarrow> ctx' = ctx) \<and>
   (rc = 0 \<longrightarrow> ipv4socket ctx' = (if uses4 ctx then so4 else - 1) \<and> ipv6socket ctx' = (if uses6 ctx then so6 else - 1))"
  by (cases "cx_type ctx"; auto simp: dtn_dht_init_sockets_def bind_sockets_def uses4_def uses6_def Let_def split: if_splits)

lemma init_sockets_outcome_witness:
  "fst (dtn_dht_init_sockets (\<lambda>_ _. None) (\<lambda>_ _. 0) 0 5 6 (ctx_example\<lparr>cx_port := 65536\<rparr>)) \<noteq> 0 \<and>
   fst (dtn_dht_init_sockets (\<lambda>_ _. None) (\<lambda>_ _. 0) 0 5 6 ctx_example) = 0"
  using init_sockets_outcome [of "\<lambda>_ _. None" "\<lambda>_ _. 0" 0 5 6 "ctx_example\<lparr>cx_port := 65536\<rparr>", OF surjective_pairing]
    init_sockets_outcome [of "\<lambda>_ _. None" "\<lambda>_ _. 0" 0 5 6 ctx_example, OF surjective_pairing]
  by (simp add: ctx_example_def uses4_def uses6_def)

subsection \<open>What a search finds\<close>

lemma sin_fields:
  assumes "length p = 2" "length q = 4"
  shows "sa_family ([2, 0] @ p @ q @ r) = AF_INET" "sin_addr ([2, 0] @ p @ q @ r) = q" "sin_port ([2, 0] @ p @ q @ r) = p"
  using assms by (simp_all add: sa_family_def sin_addr_def sin_port_def slice_def AF_INET_def rd_def)

definition ss_block :: "dtndht \<Rightarrow> nat \<Rightarrow> mem" where
  "ss_block s k = take 128 (malloc_src s k @ replicate 128 0)"

lemma length_ss_block [simp]: "length (ss_block s k) = 128"
  by (simp add: ss_block_def)

lemma fst_malloc_ss: "fst (malloc_ss n s) = map (ss_block s) [0..<n]"
  by (simp add: malloc_ss_def ss_block_def)

lemma family_block: "set_family AF_INET (ss_block s k) = [2, 0] @ drop 2 (ss_block s k)"
  by (simp add: set_family_def memcpy_def AF_INET_def numeral_2_eq_2)

lemma div_block:
  assumes "i < length m div k" "0 < k"
  shows "length (slice (k * i) k m) = k"
proof -
  have "k * i + k \<le> length m"
    using mult_le_mono2 [of "Suc i" "length m div k" k] times_div_less_eq_dividend [of k "length m"] assms
    by (simp only: mult_Suc_right Suc_le_eq) (metis add.commute le_trans)
  then show ?thesis by simp
qed

lemma fill_ss4:
  assumes "i < length dat div 6"
  shows "fill_ss AF_INET 6 dat (fst (malloc_ss (length dat div 6) s)) ! i =
    [2, 0] @ slice (6 * i + 4) 2 dat @ slice (6 * i) 4 dat @ drop 8 (ss_block s i)"
proof -
  define v where "v = slice (6 * i) 6 dat"
  have "fill_ss AF_INET 6 dat (fst (malloc_ss (length dat div 6) s)) ! i =
      cpyvaluetosocketstorage (set_family AF_INET (ss_block s i)) v AF_INET"
    using assms by (simp add: fill_ss_def fst_malloc_ss v_def)
  also have "\<dots> = [2, 0] @ drop 4 v @ take 4 v @ drop 8 (ss_block s i)"
    using div_block [OF assms] unfolding family_block v_def [symmetric]
    by (simp add: cpyvaluetosocketstorage_def memcpy_def AF_INET_def drop_take)
  finally show ?thesis by (simp add: v_def slice_def drop_take min_def add.commute)
qed

lemma fill_ss6:
  assumes "i < length dat div 18"
  shows "fill_ss AF_INET6 18 dat (fst (malloc_ss (length dat div 18) s)) ! i =
    [2, 0] @ slice (18 * i + 16) 2 dat @ slice 4 4 (ss_block s i) @ slice (18 * i) 16 dat @ drop 24 (ss_block s i)"
proof -
  define v where "v = slice (18 * i) 18 dat"
  have "fill_ss AF_INET6 18 dat (fst (malloc_ss (length dat div 18) s)) ! i =
      cpyvaluetosocketstorage (set_family AF_INET (ss_block s i)) v AF_INET6"
    using assms by (simp add: fill_ss_def fst_malloc_ss v_def)
  also have "\<dots> = [2, 0] @ drop 16 v @ take 4 (drop 4 (ss_block s i)) @ take 16 v @ drop 24 (ss_block s i)"
    using div_block [OF assms] unfolding family_block v_def [symmetric]
    by (simp add: cpyvaluetosocketstorage_def memcpy_def AF_INET_def AF_INET6_def take_drop)
  finally show ?thesis by (simp add: v_def slice_def drop_take min_def add.commute)
qed

text \<open>
  The addresses a search finds. From an answer with IPv4 values the call-back takes each address and port as they were
  sent. From one with IPv6 values it makes IPv4 addresses: the family is \<^verbatim>\<open>AF_INET\<close>, the port is right, and
  the address is four bytes of memory that was never written.
\<close>

theorem values_addresses:
  assumes "i < length dat div 6" "j < length dat6 div 18"
    "a = fill_ss AF_INET 6 dat (fst (malloc_ss (length dat div 6) s)) ! i"
    "b = fill_ss AF_INET6 18 dat6 (fst (malloc_ss (length dat6 div 18) s)) ! j"
  shows "sa_family a = AF_INET \<and> sin_addr a = slice (6 * i) 4 dat \<and> sin_port a = slice (6 * i + 4) 2 dat \<and>
    sa_family b = AF_INET \<and> sin_addr b = slice 4 4 (ss_block s j) \<and> sin_port b = slice (18 * j + 16) 2 dat6"
proof -
  have "length (slice (6 * i + 4) 2 dat) = 2" "length (slice (6 * i) 4 dat) = 4"
    "length (slice (18 * j + 16) 2 dat6) = 2" "length (slice 4 4 (ss_block s j)) = 4"
    using div_block [OF assms(1)] div_block [OF assms(2)] by simp_all
  then show ?thesis
    unfolding assms(3,4) fill_ss4 [OF assms(1)] fill_ss6 [OF assms(2)] by (simp only: sin_fields)
qed

lemma values_addresses_witness:
  "sin_addr (fill_ss AF_INET6 18 (replicate 18 5) (fst (malloc_ss 1 (loaded_example\<lparr>malloc_src := (\<lambda>_. replicate 128 9)\<rparr>))) ! 0)
     = replicate 4 9"
  using values_addresses [of 0 "replicate 6 1" 0 "replicate 18 5" _ "loaded_example\<lparr>malloc_src := (\<lambda>_. replicate 128 9)\<rparr>",
      OF _ _ refl refl]
  by (simp add: slice_def ss_block_def)

text \<open>Asking again and again for the rating of one address, for one sender: the answer stays.\<close>

lemma rate_all_same:
  assumes "get_rating (clock_src s 0) x tgt sa n (ratings_list s) = Some (v, rs)"
    "ratings_ok (ratings_list s)" "\<not> rfreed (ratings_list s)" "rateable tgt" "valid_id x"
  shows "fst (rate_all (Suc k) x tgt sa n s) = replicate (Suc k) v"
  using assms(1-3)
proof (induction k arbitrary: s rs)
  case 0
  then show ?case by (simp add: c_time_def)
next
  case (Suc k)
  let ?u = "s\<lparr>clock_src := later (clock_src s), ratings_list := rs\<rparr>"
  have r: "ratings_ok rs" "\<not> rfreed rs"
    using get_rating_ok [OF Suc.prems(1,2)] Suc.prems(1,3) by (auto simp: get_rating_def Let_def split: option.splits if_splits)
  obtain rs' where "get_rating (clock_src ?u 0) x tgt sa n (ratings_list ?u) = Some (v, rs')"
    using get_rating_repeat [OF Suc.prems assms(4,5)] by fastforce
  from Suc.IH [OF this] r have "fst (rate_all (Suc k) x tgt sa n ?u) = replicate (Suc k) v" by simp
  moreover have "fst (rate_all (Suc (Suc k)) x tgt sa n s) = v # fst (rate_all (Suc k) x tgt sa n ?u)"
    by (simp only: rate_all.simps(2) [of "Suc k"]) (simp add: c_time_def Suc.prems(1) case_prod_unfold Let_def del: rate_all.simps)
  ultimately show ?case by simp
qed

fun ping_dtn_all :: "mem list \<Rightarrow> nat \<Rightarrow> dtndht \<Rightarrow> dtndht" where
  "ping_dtn_all [] n s = s"
| "ping_dtn_all (ss # l) n s = ping_dtn_all l n (snd (dht_ping_dtn_node ss n s))"

lemma more_ping [simp]: "minimum_rating (snd (dht_ping_dtn_node ss n s)) = minimum_rating (s :: dtndht)"
proof -
  have "quiet s (snd (dht_ping_dtn_node ss n s))" by (simp add: dht_ping_dtn_node_def)
  then show ?thesis by (auto simp: quiet_def)
qed

lemma ping_rated_same:
  "ping_rated (zip ss (replicate (length ss) v)) n s =
     (if v > 0 \<and> v \<ge> int (minimum_rating s) then ping_dtn_all ss n s else s)"
  by (induction ss arbitrary: s) auto

lemma rate_all_state:
  assumes "get_rating (clock_src s 0) x tgt sa n (ratings_list s) = Some (v, rs)"
    "ratings_ok (ratings_list s)" "\<not> rfreed (ratings_list s)" "rateable tgt" "valid_id x"
  shows "\<exists>clocks rs'. snd (rate_all (Suc k) x tgt sa n s) = s\<lparr>clock_src := clocks, ratings_list := rs'\<rparr>"
  using assms(1-3)
proof (induction k arbitrary: s rs)
  case 0
  then show ?case by (auto simp: c_time_def)
next
  case (Suc k)
  let ?u = "s\<lparr>clock_src := later (clock_src s), ratings_list := rs\<rparr>"
  have r: "ratings_ok rs" "\<not> rfreed rs"
    using get_rating_ok [OF Suc.prems(1,2)] Suc.prems(1,3) by (auto simp: get_rating_def Let_def split: option.splits if_splits)
  obtain rs' where "get_rating (clock_src ?u 0) x tgt sa n (ratings_list ?u) = Some (v, rs')"
    using get_rating_repeat [OF Suc.prems assms(4,5)] by fastforce
  from Suc.IH [OF this] r obtain cs ts where
    "snd (rate_all (Suc k) x tgt sa n ?u) = ?u\<lparr>clock_src := cs, ratings_list := ts\<rparr>" by auto
  moreover have "snd (rate_all (Suc (Suc k)) x tgt sa n s) = snd (rate_all (Suc k) x tgt sa n ?u)"
    by (simp only: rate_all.simps(2) [of "Suc k"]) (simp add: c_time_def Suc.prems(1) case_prod_unfold Let_def del: rate_all.simps)
  ultimately show ?case by auto
qed

lemma rateable_fill_ss:
  assumes "(af, sz) \<in> {(AF_INET, 6), (AF_INET6, 18)}" "0 < length dat div sz"
  shows "rateable (fill_ss af sz dat (fst (malloc_ss (length dat div sz) s)) ! 0)"
proof -
  consider "af = AF_INET" "sz = 6" | "af = AF_INET6" "sz = 18" using assms(1) by blast
  then show ?thesis
  proof cases
    case 1
    then show ?thesis using div_block [OF assms(2)] sin_fields(1) [of "slice 4 2 dat" "slice 0 4 dat"] assms(2)
      by (simp add: fill_ss4 rateable_def)
  next
    case 2
    then show ?thesis
      using div_block [OF assms(2)] sin_fields(1) [of "slice 16 2 dat" "slice 4 4 (ss_block s 0)"] assms(2)
      by (simp add: fill_ss6 rateable_def)
  qed
qed

text \<open>
  C36: the answers of one packet are rated together, those with IPv4 values and those with IPv6 values
  each for themselves. Of the addresses in one answer for a looked-up key, either all are asked for
  their identifiers or none is: the call-back asks for the rating of the first one each time, and the
  sender counts once, so that the rating of the first address decides for all. They are asked, in their order, exactly
  when it is positive and not below the minimum; otherwise only the ratings, the clock and the allocator move.
\<close>

theorem values_all_or_none:
  assumes "ratings_ok (ratings_list s)" "\<not> rfreed (ratings_list s)" "valid_id x"
    "(af, sz) \<in> {(AF_INET, 6), (AF_INET6, 18)}" "sz \<le> length dat"
    "ss = fill_ss af sz dat (fst (malloc_ss (length dat div sz) s))"
  shows "\<exists>v rs blocks clocks rs' w. get_rating (clock_src s 0) x (ss ! 0) sa n (ratings_list s) = Some (v, rs) \<and>
    w = s\<lparr>malloc_src := blocks, clock_src := clocks, ratings_list := rs'\<rparr> \<and>
    values_found af sz x dat sa n s =
      (if v > 0 \<and> v \<ge> int (minimum_rating s) then ping_dtn_all ss n w else w)"
proof -
  obtain ss0 u where u: "malloc_ss (length dat div sz) s = (ss0, u)" by fastforce
  have "0 < sz" using assms(4) by auto
  then obtain k where k: "length dat div sz = Suc k" using assms(5) by (cases "length dat div sz") (auto simp: div_eq_0_iff)
  have ss: "ss = fill_ss af sz dat ss0" using assms(6) u by simp
  have l: "length ss = Suc k" "ratings_list u = ratings_list s" "clock_src u = clock_src s"
    "\<exists>blocks. u = s\<lparr>malloc_src := blocks\<rparr>"
    using u k by (auto simp: malloc_ss_def ss fill_ss_def)
  have "0 < length dat div sz" using k by simp
  from rateable_fill_ss [OF assms(4) this] have rt: "rateable (ss ! 0)" unfolding assms(6) .
  obtain v rs where r: "get_rating (clock_src u 0) x (ss ! 0) sa n (ratings_list u) = Some (v, rs)"
    using assms(2) l(2) that by (cases "get_rating (clock_src u 0) x (ss ! 0) sa n (ratings_list u)") (simp add: get_rating_def, auto)
  note ok = assms(1,2) [folded l(2)] rt assms(3)
  obtain clocks rs' where w: "rate_all (length ss) x (ss ! 0) sa n u =
      (replicate (length ss) v, u\<lparr>clock_src := clocks, ratings_list := rs'\<rparr>)" (is "_ = (_, ?w)")
    using rate_all_same [OF r ok, of k] rate_all_state [OF r ok, of k] unfolding l(1) by (metis prod.collapse)
  have "values_found af sz x dat sa n s = ping_rated (zip ss (replicate (length ss) v)) n ?w"
    unfolding values_found_def u prod.case Let_def ss [symmetric] w ..
  moreover have "minimum_rating ?w = minimum_rating s" using l(4) by auto
  ultimately have "values_found af sz x dat sa n s =
      (if v > 0 \<and> v \<ge> int (minimum_rating s) then ping_dtn_all ss n ?w else ?w)"
    by (simp only: ping_rated_same)
  then show ?thesis using r l by metis
qed

lemma values_all_or_none_witness:
  "\<exists>v rs ss blocks clocks rs' w. get_rating 1000 (replicate 20 1) (ss ! 0) [1] 1 (ratings_list loaded_example) = Some (v, rs) \<and>
     w = loaded_example\<lparr>malloc_src := blocks, clock_src := clocks, ratings_list := rs'\<rparr> \<and>
     values_found AF_INET6 18 (replicate 20 1) (replicate 36 1) [1] 1 loaded_example =
       (if v > 0 \<and> v \<ge> int (minimum_rating loaded_example) then ping_dtn_all ss 1 w else w)"
proof -
  have "ratings_ok (ratings_list loaded_example)" "\<not> rfreed (ratings_list loaded_example)"
    "valid_id (replicate 20 1)" "clock_src loaded_example 0 = 1000"
    by (simp_all add: loaded_example_def ratings_initial_def ratings_ok_def valid_id_def)
  note e = this
  have "(AF_INET6, 18) \<in> {(AF_INET, 6), (AF_INET6, 18)}" "18 \<le> length (replicate 36 (1 :: byte))" by simp_all
  from values_all_or_none [OF e(1-3) this refl, of "[1]" 1] show ?thesis unfolding e(4) by blast
qed

subsection \<open>Announcing again\<close>

definition overdue :: "int \<Rightarrow> int \<Rightarrow> dhtentry \<Rightarrow> bool" where
  "overdue t threshold e \<longleftrightarrow> e_announce e \<and> e_updatetime e + threshold < t"

text \<open>A search within one second of the clock.\<close>

definition ticking :: "int \<Rightarrow> dtndht \<Rightarrow> bool" where
  "ticking t s \<longleftrightarrow> dtn_safe False s \<and> clock_src s = (\<lambda>_. t)"

lemma ticking_time: "ticking t s \<Longrightarrow> c_time s = (t, s)"
  by (simp add: ticking_def c_time_def)

lemma ticking_search:
  assumes "ticking t s" "valid_id x"
  shows "ticking t (snd (dtn_dht_search ctx x port s))"
    "announcetable (snd (dtn_dht_search ctx x port s)) = announcetable s"
proof -
  let ?c = "api False {\<lambda>_. t} (announcetable s) (map e_md (lookuptable s))"
  have s: "safe ?c s" using assms(1) by (simp add: ticking_def dtn_safe_def safe_api)
  have one: "safe ?c (snd (dht_search x port af (Some dtn_callback) y))" if "safe ?c y" "inet af" for y af
    using calm_dht_search [OF that(1) cb_ok_dtn_callback [OF passing_UNIV(2)] assms(2) that(2)] by (simp add: calm_def)
  have "safe ?c (snd (dtn_dht_search ctx x port s))"
    using s one [OF s, of AF_INET] one [OF s, of AF_INET6] one [OF one [OF s, of AF_INET], of AF_INET6]
    by (auto simp: dtn_dht_search_def case_prod_unfold Let_def split: dtn_dht_bind_type.split)
  then show "announcetable (snd (dtn_dht_search ctx x port s)) = announcetable s"
    "ticking t (snd (dtn_dht_search ctx x port s))"
    using steadyD(1) [OF steady_search [OF _ assms(2)]] assms(1) by (auto simp: safe_api ticking_def)
qed

lemma reannounce_keep:
  assumes "ticking t s" "\<not> overdue t thr (announcetable s ! i)"
  shows "reannounce_from ctx thr (i # is) r s = reannounce_from ctx thr is r s"
  using assms(2) unfolding reannounce_from.simps ticking_time [OF assms(1)] Let_def prod.case overdue_def by (rule if_not_P)

text \<open>
  What the loop does with the entry \<open>e\<close> at place \<open>i\<close>: it starts a search for an overdue one and writes the time when
  that succeeds.
\<close>

definition announce_again :: "dtn_dht_context \<Rightarrow> int \<Rightarrow> int \<Rightarrow> nat \<Rightarrow> dhtentry \<Rightarrow> dtndht \<Rightarrow> bool \<Rightarrow> dtndht \<Rightarrow> bool" where
  "announce_again ctx t thr i e s failed s' \<longleftrightarrow>
     (if overdue t thr e then
        \<exists>q u. dtn_dht_search ctx (e_md e) (nat (cx_port ctx mod 65536)) s = (q, u) \<and> failed = (q < 0) \<and>
          s' = (if q < 0 then u else u\<lparr>announcetable := (announcetable u)[i := e\<lparr>e_updatetime := t\<rparr>]\<rparr>)
      else \<not> failed \<and> s' = s)"

lemma reannounce_step:
  assumes "ticking t s" "i < length (announcetable s)"
  shows "\<exists>failed u. announce_again ctx t thr i (announcetable s ! i) s failed u \<and> ticking t u \<and>
    announcetable u = (if overdue t thr (announcetable s ! i) \<and> \<not> failed
      then (announcetable s)[i := (announcetable s ! i)\<lparr>e_updatetime := t\<rparr>] else announcetable s) \<and>
    reannounce_from ctx thr (i # is) r s = reannounce_from ctx thr is (if failed then r - 1 else r) u"
proof (cases "overdue t thr (announcetable s ! i)")
  case False
  then show ?thesis using reannounce_keep [OF assms(1) False] assms(1)
    by (intro exI [of _ False] exI [of _ s]) (simp add: announce_again_def del: reannounce_from.simps)
next
  case True
  define pos where "pos = announcetable s ! i"
  have v: "valid_id (e_md pos)"
    using assms nth_mem [OF assms(2)] by (auto simp: ticking_def dtn_safe_def valid_table_def pos_def)
  obtain q u where u: "dtn_dht_search ctx (e_md pos) (nat (cx_port ctx mod 65536)) s = (q, u)" by fastforce
  have tu: "ticking t u" "announcetable u = announcetable s"
    using ticking_search [OF assms(1) v, of ctx "nat (cx_port ctx mod 65536)"] u by simp_all
  let ?u = "u\<lparr>announcetable := (announcetable u)[i := pos\<lparr>e_updatetime := t\<rparr>]\<rparr>"
  have up: "update_at i (\<lambda>e. e\<lparr>e_updatetime := t\<rparr>) (announcetable u) = (announcetable u)[i := pos\<lparr>e_updatetime := t\<rparr>]"
    using assms(2) tu(2) by (simp add: update_at_def pos_def)
  have tu': "ticking t ?u" unfolding up [symmetric] using tu(1) dtn_safe_entries(1) [of False u] by (simp add: ticking_def)
  show ?thesis
  proof (cases "q < 0")
    case q: True
    have "reannounce_from ctx thr (i # is) r s = reannounce_from ctx thr is (r - 1) u"
      using True q u by (simp add: ticking_time [OF assms(1)] pos_def overdue_def)
    then show ?thesis using True q u tu
      by (intro exI [of _ True] exI [of _ u]) (simp add: announce_again_def pos_def del: reannounce_from.simps)
  next
    case q: False
    have "reannounce_from ctx thr (i # is) r s = reannounce_from ctx thr is r ?u"
      using True q u up by (simp add: ticking_time [OF assms(1)] ticking_time [OF tu(1)] pos_def overdue_def)
    then show ?thesis using True q u tu tu'
      by (intro exI [of _ False] exI [of _ ?u]) (simp add: announce_again_def pos_def del: reannounce_from.simps)
  qed
qed

lemma reannounce_from_exact:
  assumes "ticking t s" "distinct is" "\<forall>i \<in> set is. i < length (announcetable s)"
    "reannounce_from ctx thr is r s = (rc, s')"
  shows "\<exists>failed us. length failed = length is \<and> length us = Suc (length is) \<and> us ! 0 = s \<and> us ! length is = s' \<and>
    rc = r - int (length (filter (\<lambda>f. f) failed)) \<and> length (announcetable s') = length (announcetable s) \<and>
    (\<forall>j < length (announcetable s). j \<notin> set is \<longrightarrow> announcetable s' ! j = announcetable s ! j) \<and>
    (\<forall>k < length is.
       announce_again ctx t thr (is ! k) (announcetable s ! (is ! k)) (us ! k) (failed ! k) (us ! Suc k) \<and>
       announcetable s' ! (is ! k) = (if overdue t thr (announcetable s ! (is ! k)) \<and> \<not> failed ! k
         then (announcetable s ! (is ! k))\<lparr>e_updatetime := t\<rparr> else announcetable s ! (is ! k)))"
  using assms
proof (induction "is" arbitrary: r s)
  case Nil
  then show ?case by (intro exI [of _ "[]"] exI [of _ "[s]"]) simp
next
  case (Cons i "is")
  have i: "i < length (announcetable s)" "i \<notin> set is" using Cons.prems by auto
  define new where "new = (announcetable s ! i)\<lparr>e_updatetime := t\<rparr>"
  obtain f u where fu: "announce_again ctx t thr i (announcetable s ! i) s f u" "ticking t u"
    "announcetable u = (if overdue t thr (announcetable s ! i) \<and> \<not> f then (announcetable s)[i := new] else announcetable s)"
    "reannounce_from ctx thr is (if f then r - 1 else r) u = (rc, s')"
    using reannounce_step [OF Cons.prems(1) i(1), of ctx thr "is" r] Cons.prems(4) by (auto simp: new_def)
  have lu: "length (announcetable u) = length (announcetable s)"
    and at: "\<And>j. j \<noteq> i \<Longrightarrow> announcetable u ! j = announcetable s ! j" by (simp_all add: fu(3))
  have d: "distinct is" "\<forall>j \<in> set is. j < length (announcetable u)" using Cons.prems(2,3) lu by auto
  obtain failed us where ih: "length failed = length is" "length us = Suc (length is)" "us ! 0 = u" "us ! length is = s'"
    "rc = (if f then r - 1 else r) - int (length (filter (\<lambda>f. f) failed))" "length (announcetable s') = length (announcetable u)"
    "\<forall>j < length (announcetable u). j \<notin> set is \<longrightarrow> announcetable s' ! j = announcetable u ! j"
    "\<forall>k < length is.
       announce_again ctx t thr (is ! k) (announcetable u ! (is ! k)) (us ! k) (failed ! k) (us ! Suc k) \<and>
       announcetable s' ! (is ! k) = (if overdue t thr (announcetable u ! (is ! k)) \<and> \<not> failed ! k
         then (announcetable u ! (is ! k))\<lparr>e_updatetime := t\<rparr> else announcetable u ! (is ! k))"
    using Cons.IH [OF fu(2) d fu(4)] by (elim exE conjE) (rule that)
  have s'i: "announcetable s' ! i = (if overdue t thr (announcetable s ! i) \<and> \<not> f then new else announcetable s ! i)"
    using ih(7) i lu fu(3) by simp
  have "announcetable u ! (is ! k) = announcetable s ! (is ! k)" if "k < length is" for k
    using at [of "is ! k"] i(2) that by (metis nth_mem)
  then have k: "announce_again ctx t thr ((i # is) ! k) (announcetable s ! ((i # is) ! k)) ((s # us) ! k) ((f # failed) ! k) ((s # us) ! Suc k) \<and>
       announcetable s' ! ((i # is) ! k) = (if overdue t thr (announcetable s ! ((i # is) ! k)) \<and> \<not> (f # failed) ! k
         then (announcetable s ! ((i # is) ! k))\<lparr>e_updatetime := t\<rparr> else announcetable s ! ((i # is) ! k))"
    if "k < length (i # is)" for k
    using that ih(3,8) fu(1) s'i by (cases k) (simp_all add: new_def)
  have "\<forall>j < length (announcetable s). j \<notin> set (i # is) \<longrightarrow> announcetable s' ! j = announcetable s ! j"
    using ih(7) at lu by auto
  then show ?case
    using k ih(1,2,4,5,6) lu by (intro exI [of _ "f # failed"] exI [of _ "s # us"]) auto
qed

text \<open>
  C35: announcements are repeated. Within one second, \<^verbatim>\<open>reannounceList\<close> goes through the table once and starts a
  search, with the port of the context, for every announcement that is overdue, in the order of the table
  and each in the state the one before has left (\<open>us\<close>). One whose search starts gets the present time; one whose search fails keeps
  the old one and counts: the result is minus their number, which is that of the announcements still overdue afterwards.
  Nothing else in the table changes.
\<close>

theorem reannounceList_exact:
  assumes "dtn_safe False s" "clock_src s = (\<lambda>_. t)" "0 \<le> threshold" "reannounceList ctx threshold s = (rc, s')"
    "n = length (announcetable s)"
  shows "\<exists>failed us. length failed = n \<and> length us = Suc n \<and> us ! 0 = s \<and> us ! n = s' \<and>
      (\<forall>i < n. announce_again ctx t threshold i (announcetable s ! i) (us ! i) (failed ! i) (us ! Suc i)) \<and>
      announcetable s' = map (\<lambda>(e, f). if overdue t threshold e \<and> \<not> f then e\<lparr>e_updatetime := t\<rparr> else e)
        (zip (announcetable s) failed) \<and>
      rc = - int (length (filter (\<lambda>f. f) failed)) \<and>
      rc = - int (length (filter (overdue t threshold) (announcetable s')))"
proof -
  have "ticking t s" using assms(1,2) by (simp add: ticking_def)
  from reannounce_from_exact [OF this _ _ assms(4) [unfolded reannounceList_def]]
  obtain failed us where r: "length failed = n" "length us = Suc n" "us ! 0 = s" "us ! n = s'"
    "rc = - int (length (filter (\<lambda>f. f) failed))" "length (announcetable s') = n"
    "\<forall>i < n. announce_again ctx t threshold i (announcetable s ! i) (us ! i) (failed ! i) (us ! Suc i) \<and>
       announcetable s' ! i = (if overdue t threshold (announcetable s ! i) \<and> \<not> failed ! i
         then (announcetable s ! i)\<lparr>e_updatetime := t\<rparr> else announcetable s ! i)"
    by (auto simp: assms(5))
  have ag: "\<forall>i < n. announce_again ctx t threshold i (announcetable s ! i) (us ! i) (failed ! i) (us ! Suc i)"
    using r(7) by blast
  have tab: "announcetable s' = map (\<lambda>(e, f). if overdue t threshold e \<and> \<not> f then e\<lparr>e_updatetime := t\<rparr> else e)
      (zip (announcetable s) failed)"
    using r(1,6,7) assms(5) by (intro nth_equalityI) auto
  have "overdue t threshold (announcetable s' ! i) = failed ! i" if "i < n" for i
    using r(7) that assms(3) by (auto simp: announce_again_def overdue_def split: if_splits)
  then have "failed = map (overdue t threshold) (announcetable s')"
    using r(1,6) by (intro nth_equalityI) auto
  then have "rc = - int (length (filter (overdue t threshold) (announcetable s')))"
    using r(5) by (simp add: filter_map comp_def)
  then show ?thesis using r(1-5) ag tab by blast
qed

lemma dtn_safe_loaded: "dtn_safe False loaded_example"
proof -
  have "dht_inv loaded_example"
    by (simp add: loaded_example_def dtndht_static_def dtndht.fields_def dht.extend_def static_dht_def dht_inv_def rt_inv_def
        searches_inv_def storage_inv_def valid_id_def zero_ss_def sizeof_ss_def DHT_MAX_BLACKLISTED_def DHT_MAX_SEARCHES_def
        DHT_MAX_HASHES_def)
  then show ?thesis by (simp add: dtn_safe_def loaded_example_def valid_table_def ratings_ok_def ratings_initial_def)
qed

lemma reannounceList_exact_witness:
  "\<exists>s'. reannounceList ctx_example 600 (loaded_example\<lparr>announcetable :=
       [\<lparr>e_md = replicate 20 1, e_announce = True, e_status = SEARCHING, e_updatetime = 0\<rparr>]\<rparr>) = (- 1, s')"
proof -
  let ?s = "loaded_example\<lparr>announcetable :=
       [\<lparr>e_md = replicate 20 1, e_announce = True, e_status = SEARCHING, e_updatetime = 0\<rparr>]\<rparr>"
  have "dtn_safe False ?s" by (rule dtn_safe_tables(1) [OF dtn_safe_loaded]) (simp add: valid_table_def valid_id_def)
  moreover have "clock_src ?s = (\<lambda>_. 1000)" by (simp add: loaded_example_def)
  moreover obtain rc s' where rc: "reannounceList ctx_example 600 ?s = (rc, s')" by fastforce
  moreover have one: "1 = length (announcetable ?s)" by simp
  ultimately obtain failed us where f: "length failed = 1" "us ! 0 = ?s"
      "announce_again ctx_example 1000 600 0 (announcetable ?s ! 0) (us ! 0) (failed ! 0) (us ! Suc 0)"
      "rc = - int (length (filter (\<lambda>f. f) failed))"
    using reannounceList_exact [OF _ _ _ rc one, of 1000] by auto
  have "overdue 1000 600 (announcetable ?s ! 0)" by (simp add: overdue_def)
  moreover have "fst (dtn_dht_search ctx_example (replicate 20 1) (nat (cx_port ctx_example mod 65536)) ?s) = - 1"
    by (simp add: dtn_dht_search_def dht_search_def find_bucket_def ctx_example_def loaded_example_def dtndht_static_def
        dtndht.fields_def dht.extend_def static_dht_def table_def AF_INET_def AF_INET6_def set_errno_def)
  ultimately have "failed ! 0" using f(3) unfolding f(2) by (auto simp: announce_again_def)
  then have "failed = [True]" using f(1) by (cases failed) auto
  then show ?thesis using rc f(4) by simp
qed

end
