(* ===== verification/Tools.thy ===== *)
theory Tools
  imports Library
begin

text \<open>
  The two command line programs, \<^verbatim>\<open>tools/src/lookup.c\<close> and \<^verbatim>\<open>tools/src/announce.c\<close>. They are one text up to the
  option that carries the endpoint identifier, the function they call with it, the signal \<^verbatim>\<open>SIGUSR1\<close> and the
  output; \<open>tool\<close> says which of the two runs. What \<^verbatim>\<open>getaddrinfo\<close>, \<^verbatim>\<open>select\<close>, \<^verbatim>\<open>recvfrom\<close> and the clocks answer in
  one turn of the main loop, and the signals that arrive in it, are a \<open>turn\<close>; the loop runs along a list of turns.
  Standard output and the text on \<^verbatim>\<open>stderr\<close> are byte lists.
\<close>

datatype tool = Dhtlookup | Dhtannounce

subsection \<open>Command line\<close>

text \<open>
  \<^verbatim>\<open>getopt\<close> of the C library on all arguments behind the program name, as successive calls return
  it: an option, an option with its argument, or \<^verbatim>\<open>'?'\<close> with \<^verbatim>\<open>optopt\<close>. Arguments that are no options are skipped,
  \<^verbatim>\<open>--\<close> ends the options.
\<close>

datatype opt = Opt byte | Opt_arg byte mem | Opt_bad byte

type_synonym optstring = "(byte \<times> bool) list"

function getopt_words :: "optstring \<Rightarrow> mem list \<Rightarrow> opt list"
  and getopt_cluster :: "optstring \<Rightarrow> mem \<Rightarrow> mem list \<Rightarrow> opt list" where
  "getopt_words os [] = []"
| "getopt_words os (w # ws) =
     (if w = ascii ''--'' then []
      else if rd w 0 = 45 \<and> 1 < length w then getopt_cluster os (tl w) ws
      else getopt_words os ws)"
| "getopt_cluster os [] ws = getopt_words os ws"
| "getopt_cluster os (c # cs) ws =
     (case map_of os c of
        None \<Rightarrow> Opt_bad c # getopt_cluster os cs ws
      | Some False \<Rightarrow> Opt c # getopt_cluster os cs ws
      | Some True \<Rightarrow>
          if cs \<noteq> [] then Opt_arg c cs # getopt_words os ws
          else (case ws of [] \<Rightarrow> [Opt_bad c] | a # ws \<Rightarrow> Opt_arg c a # getopt_words os ws))"
  by pat_completeness auto
termination
  by (relation "measure (\<lambda>x. case x of Inl (os, ws) \<Rightarrow> 2 * sum_list (map (Suc \<circ> length) ws)
      | Inr (os, cs, ws) \<Rightarrow> 2 * sum_list (map (Suc \<circ> length) ws) + Suc (length cs))") auto

definition eid_option :: "tool \<Rightarrow> byte" where
  "eid_option p = (case p of Dhtlookup \<Rightarrow> 108 | Dhtannounce \<Rightarrow> 97)"

text \<open>\<^verbatim>\<open>"46cp:l:"\<close> and \<^verbatim>\<open>"46cp:a:"\<close>.\<close>

definition option_string :: "tool \<Rightarrow> optstring" where
  "option_string p = [(52, False), (54, False), (99, False), (112, True), (eid_option p, True)]"

record settings =
  set_ipv4 :: bool
  set_ipv6 :: bool
  set_port :: int
  set_shutdown :: bool
  set_eid :: "mem option"

definition default_settings :: settings where
  "default_settings = \<lparr>set_ipv4 = False, set_ipv6 = False, set_port = 9999, set_shutdown = True, set_eid = None\<rparr>"

text \<open>\<^verbatim>\<open>atoi\<close>: \<^verbatim>\<open>strtol\<close> up to the terminating zero byte, cut to 32 bits.\<close>

definition c_atoi :: "mem \<Rightarrow> int" where
  "c_atoi a = c_int (fst (strtol (a @ [0]) 0))"

text \<open>\<^verbatim>\<open>optopt\<close> is an \<^verbatim>\<open>int\<close> made from a signed \<^verbatim>\<open>char\<close>: \<^verbatim>\<open>%x\<close> shows its sign extension.\<close>

definition option_message :: "byte \<Rightarrow> mem" where
  "option_message c =
     (if c = 108 \<or> c = 112 then ascii ''Option -'' @ [c] @ ascii '' requires an argument.'' @ [10]
      else if 32 \<le> c \<and> c \<le> 126 then ascii ''Unknown option `-'' @ [c, 39, 46, 10]
      else ascii ''Unknown option character `'' @ [92] @ ascii ''x'' @
        hex (if c < 128 then unat c else 0xffffff00 + unat c) @ [39, 46, 10])"

text \<open>The loop over the options: the settings, or the exit status with the text on \<^verbatim>\<open>stderr\<close>.\<close>

fun read_options :: "tool \<Rightarrow> opt list \<Rightarrow> settings \<Rightarrow> (int \<times> mem) + settings" where
  "read_options p [] st = Inr st"
| "read_options p (Opt_bad c # os) st = Inl (1, option_message c)"
| "read_options p (Opt c # os) st =
     (if c = 99 then read_options p os (st\<lparr>set_shutdown := False\<rparr>)
      else if c = 52 then read_options p os (st\<lparr>set_ipv4 := True\<rparr>)
      else if c = 54 then read_options p os (st\<lparr>set_ipv6 := True\<rparr>)
      else Inl (- 1, []))"
| "read_options p (Opt_arg c a # os) st =
     (if c = eid_option p then read_options p os (st\<lparr>set_eid := Some a\<rparr>)
      else if c = 112 then
        (if c_atoi a < 1 then Inl (- 1, ascii ''Illegal port number '' @ a @ [10])
         else read_options p os (st\<lparr>set_port := c_atoi a\<rparr>))
      else Inl (- 1, []))"

definition usage :: "tool \<Rightarrow> mem" where
  "usage p = (case p of
       Dhtlookup \<Rightarrow> ascii ''Usage: dhtlookup [options] -l <eid>'' @ [10, 10]
     | Dhtannounce \<Rightarrow> ascii ''Usage: dhtannounce [options] -a <eid>'' @ [10, 10])"

definition command_line :: "tool \<Rightarrow> mem list \<Rightarrow> (int \<times> mem) + (settings \<times> mem)" where
  "command_line p argv =
     (case read_options p (getopt_words (option_string p) argv) default_settings of
        Inl e \<Rightarrow> Inl e
      | Inr st \<Rightarrow> (case set_eid st of None \<Rightarrow> Inl (- 1, usage p) | Some eid \<Rightarrow> Inr (st, eid)))"

subsection \<open>Output\<close>

fun print_eids :: "mem list \<Rightarrow> mem" where
  "print_eids [] = []"
| "print_eids (e # es) = e @ (if es \<noteq> [] then ascii '' '' else []) @ print_eids es"

fun print_args :: "cl_arg list \<Rightarrow> mem" where
  "print_args [] = []"
| "print_args (a # as) =
     arg_key a @ ascii ''='' @ arg_value a @ (if as \<noteq> [] then ascii '' '' else []) @ print_args as"

fun print_layers :: "convergence_layer list \<Rightarrow> mem" where
  "print_layers [] = []"
| "print_layers (l # ls) =
     ascii ''name='' @ clname l @ ascii '' args={'' @ print_args (cl_args l) @ ascii ''}'' @
     (if ls \<noteq> [] then ascii '' '' else []) @ print_layers ls"

definition result_line :: "mem \<Rightarrow> lookup_result \<Rightarrow> mem" where
  "result_line eid r =
     eid @ ascii '' groups={'' @ print_eids (lr_groups r) @ ascii ''} neighbours={'' @
     print_eids (lr_neighbours r) @ ascii ''} clayers={'' @ print_layers (lr_clayer r) @ ascii ''}'' @ [10]"

subsection \<open>State\<close>

text \<open>\<open>t_buf\<close>, \<open>t_from\<close>, \<open>t_fromlen\<close> and \<open>t_tosleep\<close> are local variables of \<^verbatim>\<open>main\<close>, the others are static.\<close>

record tool_state =
  lib :: dtndht
  t_ctx :: dtn_dht_context
  exiting :: bool
  request_done :: bool
  bootstrapped :: int
  shutdown_after :: bool
  t_stdout :: mem
  t_buf :: mem
  t_from :: mem
  t_fromlen :: nat
  t_tosleep :: int

text \<open>The two functions the library calls, and the calls of the library with what they make it call.\<close>

definition handle_lookup_result :: "tool \<Rightarrow> mem \<Rightarrow> lookup_result \<Rightarrow> tool_state \<Rightarrow> tool_state" where
  "handle_lookup_result p eid r t =
     (case p of Dhtlookup \<Rightarrow> t\<lparr>t_stdout := t_stdout t @ result_line eid r\<rparr> | Dhtannounce \<Rightarrow> t)"

definition operation_done :: "mem \<Rightarrow> tool_state \<Rightarrow> tool_state" where
  "operation_done info_hash t = (if shutdown_after t then t\<lparr>exiting := True\<rparr> else t)"

fun called_back :: "tool \<Rightarrow> action list \<Rightarrow> tool_state \<Rightarrow> tool_state" where
  "called_back p [] t = t"
| "called_back p (a # as) t = called_back p as
     (case a of Datagram _ _ _ _ \<Rightarrow> t
      | Lookup_result eid r \<Rightarrow> handle_lookup_result p eid r t
      | Operation_done h \<Rightarrow> operation_done h t)"

definition lib_call :: "tool \<Rightarrow> (dtndht \<Rightarrow> 'r \<times> dtndht) \<Rightarrow> tool_state \<Rightarrow> 'r \<times> tool_state" where
  "lib_call p f t =
     (let (r, s) = f (lib t) in (r, called_back p (drop (length (trace (lib t))) (trace s)) (t\<lparr>lib := s\<rparr>)))"

text \<open>Signal handlers; one that \<^verbatim>\<open>init_signal\<close> does not install never runs.\<close>

datatype handler = Sigexit | Sigrelookup

definition installed :: "tool \<Rightarrow> handler \<Rightarrow> bool" where
  "installed p h = (case p of Dhtlookup \<Rightarrow> True | Dhtannounce \<Rightarrow> h = Sigexit)"

definition sigexit :: "tool_state \<Rightarrow> tool_state" where
  "sigexit t = t\<lparr>exiting := True\<rparr>"

definition sigrelookup :: "tool_state \<Rightarrow> tool_state" where
  "sigrelookup t = t\<lparr>request_done := False\<rparr>"

fun signals :: "tool \<Rightarrow> handler list \<Rightarrow> tool_state \<Rightarrow> tool_state" where
  "signals p [] t = t"
| "signals p (h # hs) t = signals p hs
     (if installed p h then (case h of Sigexit \<Rightarrow> sigexit t | Sigrelookup \<Rightarrow> sigrelookup t) else t)"

subsection \<open>The main loop\<close>

text \<open>
  One turn of the loop. Signals arrive before the test of \<^verbatim>\<open>exiting\<close>, before the test of \<^verbatim>\<open>lookup_done\<close>, before
  \<^verbatim>\<open>lookup_done = 1\<close> and before the test of \<^verbatim>\<open>exiting\<close> behind \<^verbatim>\<open>select\<close>: nothing else reads or writes the two
  flags but the call-back, which only sets \<^verbatim>\<open>exiting\<close>. \<open>selected\<close> is the result of \<^verbatim>\<open>select\<close> with the two
  bits it leaves in \<^verbatim>\<open>readfds\<close>, \<open>received\<close> the datagram and its sender, or None for \<open>- 1\<close>.
\<close>

record turn =
  sig_loop :: "handler list"
  sig_ready :: "handler list"
  sig_call :: "handler list"
  sig_wait :: "handler list"
  resolve :: "mem \<Rightarrow> mem \<Rightarrow> nat \<Rightarrow> int + (mem \<times> nat) list"
  selected :: "int \<times> bool \<times> bool"
  received :: "(mem \<times> mem) option"
  time_of_day :: int
  stack_tid :: mem

definition bootstrapping ::
  "tool \<Rightarrow> (mem \<Rightarrow> mem \<Rightarrow> nat \<Rightarrow> int + (mem \<times> nat) list) \<Rightarrow> tool_state \<Rightarrow> tool_state" where
  "bootstrapping p res t =
     (let (now1, t) = lib_call p c_time t in
      if bootstrapped t > now1 + 30 then t
      else
        let (now2, t) = lib_call p c_time t; t = t\<lparr>bootstrapped := c_int now2\<rparr>
        in snd (lib_call p (dtn_dht_dns_bootstrap res (t_ctx t) None None) t))"

definition numberOfNodes :: "tool_state \<Rightarrow> nat" where
  "numberOfNodes t = snd (snd (dtn_dht_nodes AF_INET (lib t))) + snd (snd (dtn_dht_nodes AF_INET6 (lib t)))"

definition request :: "tool \<Rightarrow> dtn_dht_context \<Rightarrow> mem \<Rightarrow> dtndht \<Rightarrow> int \<times> dtndht" where
  "request p ctx eid = (case p of
       Dhtlookup \<Rightarrow> dtn_dht_lookup ctx eid | Dhtannounce \<Rightarrow> dtn_dht_announce ctx eid SINGLETON)"

text \<open>From the top of the loop to \<^verbatim>\<open>select\<close>; \<^verbatim>\<open>random()\<close> is drawn for the timeout.\<close>

definition before_select :: "tool \<Rightarrow> mem \<Rightarrow> turn \<Rightarrow> tool_state \<Rightarrow> tool_state" where
  "before_select p eid r t =
     (let t = (if numberOfNodes t = 0 then bootstrapping p (resolve r) t else t);
          (ready, t) = lib_call p (dtn_dht_ready_for_work (t_ctx t)) t;
          t = signals p (sig_ready r) t;
          t = (if ready \<noteq> 0 \<and> \<not> request_done t
               then (signals p (sig_call r) (snd (lib_call p (request p (t_ctx t) eid) t)))\<lparr>request_done := True\<rparr>
               else t)
      in snd (lib_call p c_random t))"

text \<open>\<^verbatim>\<open>recvfrom\<close> stores at most 4095 bytes; without a readable socket the old contents stay.\<close>

definition store_packet :: "(mem \<times> mem) option \<Rightarrow> tool_state \<Rightarrow> int \<times> tool_state" where
  "store_packet rcv t = (case rcv of
       None \<Rightarrow> (- 1, t)
     | Some (d, sa) \<Rightarrow>
         let n = min (length d) 4095
         in (int n, t\<lparr>t_buf := memcpy (t_buf t) 0 d n, t_from := memcpy (t_from t) 0 sa (length sa),
                      t_fromlen := length sa\<rparr>))"

definition fetch :: "turn \<Rightarrow> tool_state \<Rightarrow> int \<times> tool_state" where
  "fetch r t =
     (let (rc, r4, r6) = selected r in
      if rc > 0 then
        let t = t\<lparr>t_fromlen := sizeof_ss\<rparr> in
        if ipv4socket (t_ctx t) \<ge> 0 \<and> r4 then store_packet (received r) t
        else if ipv6socket (t_ctx t) \<ge> 0 \<and> r6 then store_packet (received r) t
        else (rc, t)
      else (rc, t))"

definition after_select :: "tool \<Rightarrow> turn \<Rightarrow> tool_state \<Rightarrow> tool_state" where
  "after_select p r t =
     (let (rc, t) = fetch r t;
          t = (if rc > 0 then t\<lparr>t_buf := (t_buf t)[nat rc := 0]\<rparr> else t);
          ((_, sleep), t) =
            (if rc > 0
             then lib_call p (dtn_dht_periodic (t_ctx t) (t_buf t) (nat rc) (t_from t) (t_fromlen t) (stack_tid r) (time_of_day r)) t
             else lib_call p (dtn_dht_periodic (t_ctx t) [] 0 [] 0 (stack_tid r) (time_of_day r)) t)
      in case sleep of None \<Rightarrow> t | Some n \<Rightarrow> t\<lparr>t_tosleep := n\<rparr>)"

text \<open>One turn: whether the loop goes on, and the state.\<close>

definition loop_turn :: "tool \<Rightarrow> mem \<Rightarrow> turn \<Rightarrow> tool_state \<Rightarrow> bool \<times> tool_state" where
  "loop_turn p eid r t =
     (let t = signals p (sig_loop r) t in
      if exiting t then (False, t)
      else
        let t = signals p (sig_wait r) (before_select p eid r t) in
        if exiting t then (False, t) else (True, after_select p r t))"

text \<open>The loop along a list of turns: whether it has been left by then.\<close>

fun main_loop :: "tool \<Rightarrow> mem \<Rightarrow> turn list \<Rightarrow> tool_state \<Rightarrow> bool \<times> tool_state" where
  "main_loop p eid [] t = (False, t)"
| "main_loop p eid (r # rs) t =
     (let (go, t) = loop_turn p eid r t in if go then main_loop p eid rs t else (True, t))"

subsection \<open>The programs\<close>

text \<open>
  What the system answers before the loop: \<^verbatim>\<open>inet_pton\<close>, \<^verbatim>\<open>bind\<close>, \<^verbatim>\<open>setsockopt\<close>, the two \<^verbatim>\<open>socket\<close> calls, \<^verbatim>\<open>fcntl\<close> on
  both sockets, the time, and the uninitialised contents of \<^verbatim>\<open>_buf\<close> and \<^verbatim>\<open>from\<close>.
\<close>

record system =
  sys_pton :: "nat \<Rightarrow> mem \<Rightarrow> mem option"
  sys_bind :: "int \<Rightarrow> mem \<Rightarrow> int"
  sys_opt6 :: int
  sys_socket4 :: int
  sys_socket6 :: int
  sys_nonblocking4 :: bool
  sys_nonblocking6 :: bool
  sys_time :: int
  sys_buf :: mem
  sys_from :: mem

definition configure :: "settings \<Rightarrow> dtn_dht_context \<Rightarrow> dtn_dht_context" where
  "configure st ctx =
     ctx\<lparr>cx_port := set_port st,
       cx_type := (if set_ipv4 st \<and> \<not> set_ipv6 st then IPV4ONLY
                   else if \<not> set_ipv4 st \<and> set_ipv6 st then IPV6ONLY else cx_type ctx)\<rparr>"

definition enter_loop :: "system \<Rightarrow> settings \<Rightarrow> dtn_dht_context \<Rightarrow> dtndht \<Rightarrow> tool_state" where
  "enter_loop y st ctx s =
     \<lparr>lib = snd (dtn_dht_init ctx (sys_nonblocking4 y) (sys_nonblocking6 y) (sys_time y) s), t_ctx = ctx, exiting = False,
      request_done = False, bootstrapped = 0, shutdown_after = set_shutdown st, t_stdout = [], t_buf = sys_buf y,
      t_from = sys_from y, t_fromlen = 0, t_tosleep = 0\<rparr>"

text \<open>From the settings to the sockets: the result of \<^verbatim>\<open>dtn_dht_init_sockets\<close> and the context.\<close>

definition open_node :: "system \<Rightarrow> settings \<Rightarrow> dtndht \<Rightarrow> int \<times> dtn_dht_context \<times> dtndht" where
  "open_node y st s =
     (let (_, ctx, s) = dtn_dht_initstruct s;
          (rc, ctx) = dtn_dht_init_sockets (sys_pton y) (sys_bind y) (sys_opt6 y) (sys_socket4 y) (sys_socket6 y)
            (configure st ctx)
      in (rc, ctx, s))"

text \<open>
  How a run ends: the exit status (None: the turns are used up and the program still runs), the two output
  streams, the descriptors closed by \<^verbatim>\<open>dtn_dht_close_sockets\<close>, the state of the library.
\<close>

record outcome =
  status :: "int option"
  out_stderr :: mem
  out_stdout :: mem
  closed :: "int list"
  final :: dtndht

definition tool_main :: "tool \<Rightarrow> system \<Rightarrow> mem list \<Rightarrow> turn list \<Rightarrow> dtndht \<Rightarrow> outcome" where
  "tool_main p y argv rs s =
     (case command_line p argv of
        Inl (rc, msg) \<Rightarrow> \<lparr>status = Some rc, out_stderr = msg, out_stdout = [], closed = [], final = s\<rparr>
      | Inr (st, eid) \<Rightarrow>
          let (rc, ctx, s) = open_node y st s
          in if rc \<noteq> 0
             then \<lparr>status = Some (- 1), out_stderr = [], out_stdout = [], closed = snd (dtn_dht_close_sockets ctx), final = s\<rparr>
             else let (left, t) = main_loop p eid rs (enter_loop y st ctx s) in
               if left
               then let (_, t) = lib_call p dtn_dht_uninit t
                    in \<lparr>status = Some 0, out_stderr = [], out_stdout = t_stdout t,
                        closed = snd (dtn_dht_close_sockets (t_ctx t)), final = lib t\<rparr>
               else \<lparr>status = None, out_stderr = [], out_stdout = t_stdout t, closed = [], final = lib t\<rparr>)"

definition lookup_main :: "system \<Rightarrow> mem list \<Rightarrow> turn list \<Rightarrow> dtndht \<Rightarrow> outcome" where
  "lookup_main = tool_main Dhtlookup"

definition announce_main :: "system \<Rightarrow> mem list \<Rightarrow> turn list \<Rightarrow> dtndht \<Rightarrow> outcome" where
  "announce_main = tool_main Dhtannounce"

end
