(* ===== verification/Tools_Inv.thy ===== *)
theory Tools_Inv
  imports Tools
begin

text \<open>
  The command line programs keep the invariants of the library, whatever their arguments, the system and the
  network do; when they stop, and what they do with their arguments and signals.
\<close>

subsection \<open>Starting a node\<close>

text \<open>
  The programs do not look at what \<^verbatim>\<open>dtn_dht_init\<close> returns. That is harmless: from well-formed states it leads to
  well-formed ones also when it fails.
\<close>

lemma safe_set_table:
  assumes "safe c s" "inet af" "bs = [] \<or> bs = [calloc_bucket af]"
  shows "safe c (set_table af bs s)"
proof -
  have "rt_inv (set_table af bs s)"
    using assms rt_inv_set_table [of s af bs] wf_calloc_bucket [of af] by (auto simp: safe_def dht_inv_def)
  moreover have "searches_inv (set_table af bs s) = searches_inv s" "storage_inv (set_table af bs s) = storage_inv s"
    by (simp_all add: searches_inv_def storage_inv_def set_table_def)
  ultimately show ?thesis using assms(1) by (simp add: safe_def dht_inv_def) (simp add: set_table_def)
qed

lemma safe_calloc_later: "safe c s \<Longrightarrow> safe c (s\<lparr>calloc_src := later (calloc_src s)\<rparr>)"
  by (simp add: safe_def dht_inv_def rt_inv_def searches_inv_def storage_inv_def later_def)

lemma safe_init_socket:
  assumes "init_socket af sock s = (ok, t)" "safe c s" "inet af"
  shows "safe c t"
  using assms(1)
  by (cases rule: init_socket_cases)
    (use assms(2,3) safe_set_table [OF safe_calloc_later [OF assms(2)] assms(3)] in simp_all)

lemma safe_no_work:
  assumes "safe c s"
  shows "safe c (s\<lparr>searches := [], numsearches := 0, storages := [], numstorage := 0, mygroups := [], myneighbours := []\<rparr>)"
  using assms
  by (simp add: safe_def dht_inv_def rt_inv_def searches_inv_def storage_inv_def DHT_MAX_SEARCHES_def DHT_MAX_HASHES_def)

lemma safe_any_init:
  assumes "safe c s" "20 \<le> length x"
  shows "safe c (snd (dht_init sock sock6 x v nb nb6 t s))"
proof (cases "dht_socket s \<ge> 0 \<or> dht_socket6 s \<ge> 0 \<or> buckets s \<noteq> [] \<or> buckets6 s \<noteq> []")
  case True
  then show ?thesis using safe_errno [OF assms(1), of EBUSY] by (simp add: dht_init_def)
next
  case False
  define u where "u = s\<lparr>searches := [], numsearches := 0, storages := [], numstorage := 0, mygroups := [], myneighbours := []\<rparr>"
  have u: "safe c u" using safe_no_work [OF assms(1)] by (simp add: u_def)
  then have pu: "prepared c u" using False by (simp add: prepared_def safe_idle) (simp add: u_def)
  obtain ok w where w: "init_socket AF_INET sock u = (ok, w)" by fastforce
  have sw: "safe c w" by (rule safe_init_socket [OF w u]) simp
  have pw: "prepared c w" using w
    by (cases rule: init_socket_cases) (use pu safe_idle [OF sw] in \<open>auto simp: prepared_def set_table_def\<close>)
  obtain ok6 z where z: "init_socket AF_INET6 sock6 w = (ok6, z)" by fastforce
  have sz: "safe c z" by (rule safe_init_socket [OF z sw]) simp
  have pz: "prepared c z" using z
    by (cases rule: init_socket_cases)
      (use pw safe_idle [OF sz] in \<open>auto simp: prepared_def set_table_def AF_INET_def AF_INET6_def\<close>)
  have e: "dht_init sock sock6 x v nb nb6 t s =
      (if \<not> ok then (- 1, w) else if sock \<ge> 0 \<and> \<not> nb then (- 1, set_table AF_INET [] w)
       else if \<not> ok6 then (- 1, z) else if sock6 \<ge> 0 \<and> \<not> nb6 then (- 1, set_table AF_INET [] z)
       else (1, init_rest sock sock6 x v t z))"
    unfolding dht_init_def if_not_P [OF False] Let_def u_def [symmetric] w prod.case z by (simp add: set_table_def)
  show ?thesis unfolding e
    using sw sz safe_set_table [OF sw, of AF_INET "[]"] safe_set_table [OF sz, of AF_INET "[]"]
      safe_init_rest [OF pz assms(2)] by simp
qed

lemma safe_any_dtn_init:
  assumes "dtn_safe c s" "length (cx_id ctx) = 20"
  shows "dtn_safe c (snd (dtn_dht_init ctx nb nb6 t s))"
proof -
  let ?u = "(set_minimum ctx s)\<lparr>announcetable := [], lookuptable := []\<rparr>"
  have u: "dtn_safe c ?u" using assms(1) by (simp add: dtn_safe_def set_minimum_def valid_table_def)
  show ?thesis using dtn_safe_calm [OF u safe_any_init [OF safe_of_dtn [OF u]]] assms(2) by (simp add: dtn_dht_init_def)
qed

lemma loaded_dtn_safe: "dtn_loaded c s \<Longrightarrow> dtn_safe c s"
proof -
  assume "dtn_loaded c s"
  then obtain ra ca so ti ma where s: "s = dtndht_static ra ca so ti ma" "c \<longrightarrow> (\<forall>k. ca k)"
    by (auto simp: dtn_loaded_def)
  have "dht_inv s" unfolding s(1)
    by (simp add: dtndht_static_def dtndht.fields_def dht.extend_def static_dht_def dht_inv_def rt_inv_def searches_inv_def
        storage_inv_def valid_id_def DHT_MAX_SEARCHES_def DHT_MAX_HASHES_def DHT_MAX_BLACKLISTED_def)
  then show ?thesis using s
    by (simp add: dtn_safe_def valid_table_def usable_def ratings_ok_def) (simp add: ratings_initial_def)
qed

lemma safe_random: "dtn_safe c s \<Longrightarrow> dtn_safe c (snd (c_random s))"
  by (simp add: dtn_safe_def c_random_def dht_inv_def rt_inv_def searches_inv_def storage_inv_def)

lemma dtn_safe_initstruct:
  assumes "dtn_safe c s" "dtn_dht_initstruct s = (r, ctx, u)"
  shows "dtn_safe c u" "length (cx_id ctx) = 20"
proof -
  obtain x v where v: "random_bytes SHA_DIGEST_LENGTH s = (x, v)" by fastforce
  then have e: "u = v" "cx_id ctx = x" using assms(2) by (auto simp: dtn_dht_initstruct_def dht_random_bytes_def)
  show "dtn_safe c u" unfolding e(1)
    by (rule dtn_safe_calm [OF assms(1) keptD(1) [OF kept_drawn [OF safe_of_dtn [OF assms(1)] drawn_random_bytes [OF v]]]])
  show "length (cx_id ctx) = 20" using length_random_bytes [OF v] by (simp add: e(2) SHA_DIGEST_LENGTH_def)
qed

subsection \<open>The loop\<close>

lemma called_back_fields [simp]:
  "lib (called_back p as t) = lib t" "t_ctx (called_back p as t) = t_ctx t" "t_buf (called_back p as t) = t_buf t"
  "t_from (called_back p as t) = t_from t" "t_fromlen (called_back p as t) = t_fromlen t"
  "t_tosleep (called_back p as t) = t_tosleep t" "request_done (called_back p as t) = request_done t"
  "bootstrapped (called_back p as t) = bootstrapped t" "shutdown_after (called_back p as t) = shutdown_after t"
  by (induction p as t rule: called_back.induct)
    (simp_all add: handle_lookup_result_def operation_done_def split: action.split tool.split)

lemma signals_fields [simp]:
  "lib (signals p hs t) = lib t" "t_ctx (signals p hs t) = t_ctx t" "t_buf (signals p hs t) = t_buf t"
  "t_from (signals p hs t) = t_from t" "t_fromlen (signals p hs t) = t_fromlen t"
  "t_tosleep (signals p hs t) = t_tosleep t" "bootstrapped (signals p hs t) = bootstrapped t"
  "shutdown_after (signals p hs t) = shutdown_after t" "t_stdout (signals p hs t) = t_stdout t"
  by (induction p hs t rule: signals.induct) (simp_all add: sigexit_def sigrelookup_def split: handler.split)

lemma lib_call_fields [simp]:
  "fst (lib_call p f t) = fst (f (lib t))" "lib (snd (lib_call p f t)) = snd (f (lib t))"
  "t_ctx (snd (lib_call p f t)) = t_ctx t" "t_buf (snd (lib_call p f t)) = t_buf t"
  "t_from (snd (lib_call p f t)) = t_from t" "t_fromlen (snd (lib_call p f t)) = t_fromlen t"
  "t_tosleep (snd (lib_call p f t)) = t_tosleep t" "request_done (snd (lib_call p f t)) = request_done t"
  "bootstrapped (snd (lib_call p f t)) = bootstrapped t" "shutdown_after (snd (lib_call p f t)) = shutdown_after t"
  by (simp_all add: lib_call_def case_prod_unfold Let_def)

text \<open>The state of a program: a well-formed library, and local variables of the declared sizes.\<close>

definition tool_inv :: "bool \<Rightarrow> tool_state \<Rightarrow> bool" where
  "tool_inv c t \<longleftrightarrow> dtn_safe c (lib t) \<and> length (t_buf t) = 4096 \<and> length (t_from t) = sizeof_ss \<and> 0 \<le> t_tosleep t"

lemma tool_inv_lib_call: "tool_inv c t \<Longrightarrow> dtn_safe c (snd (f (lib t))) \<Longrightarrow> tool_inv c (snd (lib_call p f t))"
  by (simp add: tool_inv_def)

lemma tool_inv_signals [simp]: "tool_inv c (signals p hs t) = tool_inv c t"
  by (simp add: tool_inv_def)

text \<open>
  What is relied on in one turn: \<^verbatim>\<open>getaddrinfo\<close> gives addresses that fit their structure, a positive \<^verbatim>\<open>select\<close>
  leaves one of our sockets in the set, \<^verbatim>\<open>recvfrom\<close> on it gives an Internet address; and, with \<open>c\<close>, the packet
  is not one that makes the parser release a structure twice.
\<close>

definition good_answers :: "(mem \<Rightarrow> mem \<Rightarrow> nat \<Rightarrow> int + (mem \<times> nat) list) \<Rightarrow> bool" where
  "good_answers res \<longleftrightarrow> (\<forall>x y f rs. res x y f = Inr rs \<longrightarrow> (\<forall>(sa, n) \<in> set rs. 0 < n \<and> n \<le> sizeof_ss))"

definition packet_ok :: "bool \<Rightarrow> mem \<Rightarrow> mem \<Rightarrow> mem \<Rightarrow> bool" where
  "packet_ok c tid0 d sa \<longleftrightarrow> good_sa sa (length sa) \<and>
     (c \<longrightarrow> (\<forall>buf ss. length buf = 4096 \<longrightarrow> length ss = sizeof_ss \<longrightarrow>
        (let n = min (length d) 4095 in \<not> double_free ((memcpy buf 0 d n)[n := 0]) n (memcpy ss 0 sa (length sa)) tid0)))"

definition turn_ok :: "bool \<Rightarrow> dtn_dht_context \<Rightarrow> turn \<Rightarrow> bool" where
  "turn_ok c ctx r \<longleftrightarrow> good_answers (resolve r) \<and>
     (case selected r of (rc, r4, r6) \<Rightarrow> 0 < rc \<longrightarrow> 0 \<le> ipv4socket ctx \<and> r4 \<or> 0 \<le> ipv6socket ctx \<and> r6) \<and>
     (case received r of None \<Rightarrow> True | Some (d, sa) \<Rightarrow> packet_ok c (stack_tid r) d sa)"

lemma inv_bootstrapping:
  assumes "tool_inv c t" "good_answers res"
  shows "tool_inv c (bootstrapping p res t)"
proof -
  have time: "tool_inv c (snd (lib_call p c_time t))" if "tool_inv c t" for t
    using that steadyD(1) [OF steady_time] by (intro tool_inv_lib_call) (auto simp: tool_inv_def)
  have dns: "tool_inv c (snd (lib_call p (dtn_dht_dns_bootstrap res ctx None None) t))" if "tool_inv c t" for t ctx
  proof (rule tool_inv_lib_call [OF that])
    have "dtn_safe c (set_minimum ctx (lib t))" using that steadyD(1) [OF steady_ext(1)] by (auto simp: tool_inv_def)
    from safe_dns [OF this, of res] assms(2) show "dtn_safe c (snd (dtn_dht_dns_bootstrap res ctx None None (lib t)))"
      by (auto simp: dtn_dht_dns_bootstrap_def good_answers_def)
  qed
  have set: "tool_inv c (t\<lparr>bootstrapped := b\<rparr>) = tool_inv c t" for t b by (simp add: tool_inv_def)
  show ?thesis using time [OF assms(1)] time [OF time [OF assms(1)]]
    by (simp add: bootstrapping_def case_prod_unfold Let_def dns set)
qed

lemma inv_before_select:
  assumes "tool_inv c t" "good_answers (resolve r)"
  shows "tool_inv c (before_select p eid r t)"
proof -
  have set: "tool_inv c (t\<lparr>request_done := b\<rparr>) = tool_inv c t" for t b by (simp add: tool_inv_def)
  define u where "u = (if numberOfNodes t = 0 then bootstrapping p (resolve r) t else t)"
  have u: "tool_inv c u" using assms inv_bootstrapping by (simp add: u_def)
  define v where "v = snd (lib_call p (dtn_dht_ready_for_work (t_ctx u)) u)"
  have v: "tool_inv c v" unfolding v_def
    using u steadyD(1) [OF steady_ready] by (intro tool_inv_lib_call) (auto simp: tool_inv_def)
  define w where "w = signals p (sig_ready r) v"
  have w: "tool_inv c w" using v by (simp add: w_def)
  have req: "dtn_safe c (snd (request p ctx eid (lib w)))" for ctx
    using w safe_dtn_dht_lookup safe_dtn_dht_announce by (cases p) (simp_all add: request_def tool_inv_def)
  define x where "x = (if fst (lib_call p (dtn_dht_ready_for_work (t_ctx u)) u) \<noteq> 0 \<and> \<not> request_done w
     then (signals p (sig_call r) (snd (lib_call p (request p (t_ctx w) eid) w)))\<lparr>request_done := True\<rparr> else w)"
  have x: "tool_inv c x" using w tool_inv_lib_call [OF w, of "request p (t_ctx w) eid" p, OF req] by (simp add: x_def set)
  have "before_select p eid r t = snd (lib_call p c_random x)"
    unfolding before_select_def u_def [symmetric] case_prod_unfold Let_def v_def [symmetric] w_def [symmetric]
      x_def [symmetric] ..
  then show ?thesis using tool_inv_lib_call [OF x, of c_random p] safe_random x by (simp add: tool_inv_def)
qed

lemma sleep_time_nonneg: "0 \<le> sleep_time s"
  by (simp add: sleep_time_def Let_def)

lemma periodic_sleep:
  "fst (dtn_dht_periodic ctx buf n sa m tid0 t s) = (rc, Some k) \<Longrightarrow> 0 \<le> k"
  by (auto simp: dtn_dht_periodic_def dht_periodic_def case_prod_unfold Let_def sleep_time_nonneg split: if_splits)

text \<open>Behind \<^verbatim>\<open>select\<close>: what a packet leaves in the local variables is what \<^verbatim>\<open>dtn_dht_periodic\<close> asks for.\<close>

lemma fetch_ok:
  assumes "fetch r t = (rc, u)" "tool_inv c t" "turn_ok c (t_ctx t) r"
  shows "tool_inv c u" "lib u = lib t" "t_ctx u = t_ctx t" "0 < rc \<Longrightarrow>
    good_sa (t_from u) (t_fromlen u) \<and> nat rc < 4096 \<and>
    (c \<longrightarrow> \<not> double_free ((t_buf u)[nat rc := 0]) (nat rc) (t_from u) (stack_tid r))"
proof -
  obtain k r4 r6 where sel: "selected r = (k, r4, r6)" using prod_cases3 by blast
  have ss: "sizeof_ss = length (t_from t)" using assms(2) by (simp add: tool_inv_def)
  have "(rc \<le> 0 \<and> (u = t \<or> u = t\<lparr>t_fromlen := sizeof_ss\<rparr>)) \<or>
    (\<exists>d sa. received r = Some (d, sa) \<and> store_packet (Some (d, sa)) (t\<lparr>t_fromlen := sizeof_ss\<rparr>) = (rc, u))"
    using assms(1,3) sel by (cases "received r") (auto simp: fetch_def store_packet_def turn_ok_def Let_def split: if_splits)
  then consider (none) "rc \<le> 0" "u = t \<or> u = t\<lparr>t_fromlen := sizeof_ss\<rparr>"
    | (packet) d sa where "received r = Some (d, sa)"
        "store_packet (Some (d, sa)) (t\<lparr>t_fromlen := sizeof_ss\<rparr>) = (rc, u)" by blast
  then have "tool_inv c u \<and> lib u = lib t \<and> t_ctx u = t_ctx t \<and> (0 < rc \<longrightarrow>
    good_sa (t_from u) (t_fromlen u) \<and> nat rc < 4096 \<and>
    (c \<longrightarrow> \<not> double_free ((t_buf u)[nat rc := 0]) (nat rc) (t_from u) (stack_tid r)))"
  proof cases
    case none
    then show ?thesis using assms(2) by (auto simp: tool_inv_def)
  next
    case packet
    define n where "n = min (length d) 4095"
    have ok: "packet_ok c (stack_tid r) d sa" using assms(3) packet(1) by (simp add: turn_ok_def)
    have u: "u = t\<lparr>t_buf := memcpy (t_buf t) 0 d n, t_from := memcpy (t_from t) 0 sa (length sa), t_fromlen := length sa\<rparr>"
      "rc = int n" using packet(2) by (simp_all add: store_packet_def n_def Let_def)
    have n: "n \<le> 4095" "n \<le> length d" by (simp_all add: n_def)
    have g: "good_sa (memcpy (t_from t) 0 sa (length sa)) (length sa)"
      using ok assms(2) good_sa_memcpy by (simp add: packet_ok_def tool_inv_def)
    have "tool_inv c u" unfolding u(1) using assms(2) n ok
      by (auto simp: tool_inv_def packet_ok_def good_sa_def)
    moreover have "c \<longrightarrow> \<not> double_free ((t_buf u)[n := 0]) n (t_from u) (stack_tid r)"
      using ok assms(2) unfolding packet_ok_def n_def [symmetric] Let_def by (simp add: u(1) tool_inv_def)
    ultimately show ?thesis using g n u by simp
  qed
  then show "tool_inv c u" "lib u = lib t" "t_ctx u = t_ctx t" "0 < rc \<Longrightarrow>
    good_sa (t_from u) (t_fromlen u) \<and> nat rc < 4096 \<and>
    (c \<longrightarrow> \<not> double_free ((t_buf u)[nat rc := 0]) (nat rc) (t_from u) (stack_tid r))"
    by blast+
qed

lemma inv_after_select:
  assumes "tool_inv c t" "turn_ok c (t_ctx t) r"
  shows "tool_inv c (after_select p r t)"
proof -
  obtain rc u where u: "fetch r t = (rc, u)" by fastforce
  note f = fetch_ok [OF u assms]
  define v where "v = (if rc > 0 then u\<lparr>t_buf := (t_buf u)[nat rc := 0]\<rparr> else u)"
  have v: "tool_inv c v" "t_ctx v = t_ctx t" using f(1,3) by (auto simp: v_def tool_inv_def)
  define g where "g = (if rc > 0
     then dtn_dht_periodic (t_ctx v) (t_buf v) (nat rc) (t_from v) (t_fromlen v) (stack_tid r) (time_of_day r)
     else dtn_dht_periodic (t_ctx v) [] 0 [] 0 (stack_tid r) (time_of_day r))"
  have "dtn_safe c (snd (g (lib v)))"
  proof (cases "rc > 0")
    case True
    then have "0 < nat rc \<longrightarrow> good_sa (t_from v) (t_fromlen v) \<and> nat rc < length (t_buf v) \<and>
        (c \<longrightarrow> \<not> double_free (t_buf v) (nat rc) (t_from v) (stack_tid r))"
      using f(4) v(1) by (simp add: v_def tool_inv_def)
    then show ?thesis using safe_dtn_dht_periodic v(1) True by (simp add: g_def tool_inv_def)
  next
    case False
    then show ?thesis using safe_dtn_dht_periodic v(1) by (simp add: g_def tool_inv_def)
  qed
  from tool_inv_lib_call [OF v(1), of g p, OF this] have w: "tool_inv c (snd (lib_call p g v))" .
  have s: "0 \<le> k" if "snd (fst (g (lib v))) = Some k" for k
    using that periodic_sleep by (cases "rc > 0") (simp_all add: g_def prod_eq_iff)
  have e: "after_select p r t = (case snd (fst (g (lib v))) of None \<Rightarrow> snd (lib_call p g v)
      | Some n \<Rightarrow> (snd (lib_call p g v))\<lparr>t_tosleep := n\<rparr>)"
    unfolding after_select_def u Let_def prod.case v_def [symmetric]
    by (cases "rc > 0") (simp_all add: g_def case_prod_unfold split: option.split)
  show "tool_inv c (after_select p r t)" unfolding e
    using w s by (auto simp: tool_inv_def split: option.split)
qed

lemma ctx_turn [simp]:
  "t_ctx (before_select p eid r t) = t_ctx t" "t_ctx (snd (fetch r t)) = t_ctx t" "t_ctx (after_select p r t) = t_ctx t"
proof -
  show "t_ctx (before_select p eid r t) = t_ctx t"
    by (simp add: before_select_def bootstrapping_def case_prod_unfold Let_def)
  show f: "t_ctx (snd (fetch r t)) = t_ctx t"
    by (simp add: fetch_def store_packet_def case_prod_unfold Let_def split: option.split)
  show "t_ctx (after_select p r t) = t_ctx t"
    using f by (simp add: after_select_def case_prod_unfold Let_def split: option.split)
qed

lemma ctx_main_loop: "t_ctx (snd (main_loop p eid rs t)) = t_ctx t"
proof (induction rs arbitrary: t)
  case (Cons r rs)
  then show ?case by (simp add: case_prod_unfold Let_def) (simp add: loop_turn_def Let_def)
qed simp

lemma inv_loop_turn:
  assumes "tool_inv c t" "turn_ok c (t_ctx t) r"
  shows "tool_inv c (snd (loop_turn p eid r t))"
proof -
  let ?u = "signals p (sig_wait r) (before_select p eid r (signals p (sig_loop r) t))"
  have u: "tool_inv c ?u" "turn_ok c (t_ctx ?u) r"
    using assms inv_before_select [of c "signals p (sig_loop r) t" r p eid] by (simp_all add: turn_ok_def)
  show ?thesis using assms inv_after_select [OF u, of p] u(1) by (simp add: loop_turn_def Let_def)
qed

lemma inv_main_loop:
  assumes "tool_inv c t" "\<forall>r \<in> set rs. turn_ok c (t_ctx t) r"
  shows "tool_inv c (snd (main_loop p eid rs t))"
  using assms
proof (induction rs arbitrary: t)
  case (Cons r rs)
  have "t_ctx (snd (loop_turn p eid r t)) = t_ctx t" by (simp add: loop_turn_def Let_def)
  then show ?case using Cons.IH [of "snd (loop_turn p eid r t)"] inv_loop_turn [OF Cons.prems(1), of r p eid] Cons.prems(2)
    by (simp add: case_prod_unfold Let_def)
qed simp

subsection \<open>The programs\<close>

text \<open>The ratings are freed once; the flag for freed ratings is read only by a later start.\<close>

lemma uninit_not_aborted:
  assumes "dtn_safe True s"
  shows "\<not> aborted (snd (dtn_dht_uninit s))"
  using assms
  by (simp add: dtn_safe_def usable_def dtn_dht_uninit_def free_ratings_def dht_uninit_def set_errno_def cleanup_lookups_def
      cleanup_announces_def pass_time_def Let_def split: option.split if_splits)

lemma open_node_safe:
  assumes "dtn_safe c s" "open_node y st s = (rc, ctx, u)"
  shows "dtn_safe c u" "length (cx_id ctx) = 20"
proof -
  obtain a ctx0 w where w: "dtn_dht_initstruct s = (a, ctx0, w)" using prod_cases3 by blast
  note i = dtn_safe_initstruct [OF assms(1) w]
  show "dtn_safe c u" using i(1) assms(2) w by (auto simp: open_node_def Let_def case_prod_unfold)
  have "cx_id (snd (dtn_dht_init_sockets a b o6 s4 s6 x)) = cx_id x" for a b o6 s4 s6 x
    by (simp add: dtn_dht_init_sockets_def Let_def case_prod_unfold split: dtn_dht_bind_type.split)
  then show "length (cx_id ctx) = 20" using i(2) assms(2) w
    by (auto simp: open_node_def configure_def Let_def case_prod_unfold)
qed

lemma enter_loop_inv:
  assumes "dtn_safe c s" "length (cx_id ctx) = 20" "length (sys_buf y) = 4096" "length (sys_from y) = sizeof_ss"
  shows "tool_inv c (enter_loop y st ctx s)" "t_ctx (enter_loop y st ctx s) = ctx"
  using assms safe_any_dtn_init by (simp_all add: enter_loop_def tool_inv_def)

text \<open>
  C3: the command line programs are safe, under conditions on the system (\<open>turn_ok\<close>): \<^verbatim>\<open>select\<close> returns a positive number only with
  a readable socket, and \<^verbatim>\<open>recvfrom\<close> and \<^verbatim>\<open>getaddrinfo\<close> give addresses of the two families. Then, for all arguments and signals, in
  \<^verbatim>\<open>dhtlookup\<close> and in \<^verbatim>\<open>dhtannounce\<close>: while the program runs, the library is well-formed, also when
  \<^verbatim>\<open>dtn_dht_init\<close>, whose result the programs ignore, has failed. Provided moreover that every allocation succeeds and no packet triggers the
  double release in \<^verbatim>\<open>parse_dtn_convergence_layer\<close> (both are \<open>c\<close>), nothing aborts, the final \<^verbatim>\<open>dtn_dht_uninit\<close> included, even if the
  node has rated something.
\<close>

theorem tools_safe:
  assumes "dtn_loaded c s" "length (sys_buf y) = 4096" "length (sys_from y) = sizeof_ss"
    "\<forall>st eid. command_line p argv = Inr (st, eid) \<longrightarrow> (\<forall>r \<in> set rs. turn_ok c (fst (snd (open_node y st s))) r)"
  shows "(status (tool_main p y argv rs s) = None \<longrightarrow> dtn_safe c (final (tool_main p y argv rs s))) \<and>
    (c \<longrightarrow> \<not> aborted (final (tool_main p y argv rs s)))"
proof (cases "command_line p argv")
  case (Inl e)
  then show ?thesis using loaded_dtn_safe [OF assms(1)]
    by (cases e) (simp add: tool_main_def dtn_safe_def)
next
  case (Inr e)
  obtain st eid where e: "e = (st, eid)" by fastforce
  obtain rc ctx u where o: "open_node y st s = (rc, ctx, u)" using prod_cases3 by blast
  note n = open_node_safe [OF loaded_dtn_safe [OF assms(1)] o]
  obtain left t where t: "main_loop p eid rs (enter_loop y st ctx u) = (left, t)" by fastforce
  have "\<forall>r \<in> set rs. turn_ok c ctx r" using assms(4) Inr e o by simp
  then have "tool_inv c t"
    using inv_main_loop [of c "enter_loop y st ctx u" rs p eid] enter_loop_inv [OF n assms(2,3)] t by simp
  then have l: "dtn_safe c (lib t)" by (simp add: tool_inv_def)
  then have "c \<longrightarrow> \<not> aborted (snd (dtn_dht_uninit (lib t)))" using uninit_not_aborted by auto
  then show ?thesis using l n(1) Inr e o t
    by (simp add: tool_main_def case_prod_unfold Let_def) (auto simp: dtn_safe_def)
qed

definition system_example :: system where
  "system_example = \<lparr>sys_pton = (\<lambda>_ _. None), sys_bind = (\<lambda>_ _. 0), sys_opt6 = 0, sys_socket4 = 3, sys_socket6 = 4,
     sys_nonblocking4 = True, sys_nonblocking6 = True, sys_time = 50, sys_buf = replicate 4096 0, sys_from = zero_ss\<rparr>"

definition turn_example :: turn where
  "turn_example = \<lparr>sig_loop = [], sig_ready = [], sig_call = [], sig_wait = [], resolve = (\<lambda>_ _ _. Inl 2),
     selected = (0, False, False), received = None, time_of_day = 60, stack_tid = replicate 16 0\<rparr>"

lemma turn_example_ok: "turn_ok c ctx turn_example" "turn_ok c ctx (turn_example\<lparr>sig_wait := hs\<rparr>)"
  by (simp_all add: turn_ok_def turn_example_def good_answers_def)

lemma tools_safe_witness:
  "\<not> aborted (final (lookup_main system_example [ascii ''-4'', ascii ''-l'', ascii ''dtn://a'']
     [turn_example, turn_example\<lparr>sig_wait := [Sigexit]\<rparr>] loaded_example))"
proof -
  have "dtn_loaded True loaded_example"
    unfolding dtn_loaded_def loaded_example_def by (intro exI conjI, rule refl, simp)
  then have "\<not> aborted (final (tool_main Dhtlookup system_example argv
      [turn_example, turn_example\<lparr>sig_wait := [Sigexit]\<rparr>] loaded_example))" for argv
    using tools_safe [of True loaded_example system_example Dhtlookup argv
        "[turn_example, turn_example\<lparr>sig_wait := [Sigexit]\<rparr>]"]
    by (auto simp: system_example_def turn_example_ok)
  then show ?thesis by (simp add: lookup_main_def)
qed

subsection \<open>Leaving the loop\<close>

lemma exiting_signals:
  "exiting (signals p hs t) \<longleftrightarrow> exiting t \<or> Sigexit \<in> set hs"
  by (induction p hs t rule: signals.induct)
    (auto simp: installed_def sigexit_def sigrelookup_def split: handler.splits tool.splits)

lemma exiting_called_back: "exiting t \<Longrightarrow> exiting (called_back p as t)"
  by (induction p as t rule: called_back.induct)
    (auto simp: handle_lookup_result_def operation_done_def split: action.split tool.split)

lemma exiting_lib_call: "exiting t \<Longrightarrow> exiting (snd (lib_call p f t))"
  by (simp add: lib_call_def case_prod_unfold Let_def exiting_called_back)

text \<open>The signals that arrive in a turn: those during the call of the library only if there is one.\<close>

definition asking :: "tool \<Rightarrow> turn \<Rightarrow> tool_state \<Rightarrow> bool" where
  "asking p r t =
     (let t = signals p (sig_loop r) t;
          t = (if numberOfNodes t = 0 then bootstrapping p (resolve r) t else t);
          (ready, t) = lib_call p (dtn_dht_ready_for_work (t_ctx t)) t
      in ready \<noteq> 0 \<and> \<not> request_done (signals p (sig_ready r) t))"

definition arriving :: "tool \<Rightarrow> turn \<Rightarrow> tool_state \<Rightarrow> handler set" where
  "arriving p r t = set (sig_loop r) \<union> set (sig_ready r) \<union> (if asking p r t then set (sig_call r) else {}) \<union> set (sig_wait r)"

lemma before_select_interrupted:
  assumes "Sigexit \<in> set (sig_ready r) \<or> asking p r t \<and> Sigexit \<in> set (sig_call r)"
  shows "exiting (before_select p eid r (signals p (sig_loop r) t))"
proof -
  define t1 where "t1 = signals p (sig_loop r) t"
  define t2 where "t2 = (if numberOfNodes t1 = 0 then bootstrapping p (resolve r) t1 else t1)"
  obtain ready t3 where t3: "lib_call p (dtn_dht_ready_for_work (t_ctx t2)) t2 = (ready, t3)" by fastforce
  define t4 where "t4 = signals p (sig_ready r) t3"
  define t5 where "t5 = (if ready \<noteq> 0 \<and> \<not> request_done t4
     then (signals p (sig_call r) (snd (lib_call p (request p (t_ctx t4) eid) t4)))\<lparr>request_done := True\<rparr> else t4)"
  have e: "before_select p eid r t1 = snd (lib_call p c_random t5)"
    unfolding before_select_def Let_def t2_def [symmetric] t3 prod.case t4_def [symmetric] t5_def [symmetric] ..
  have "asking p r t \<longleftrightarrow> ready \<noteq> 0 \<and> \<not> request_done t4"
    by (simp add: asking_def Let_def t1_def [symmetric] t2_def [symmetric] t3 t4_def [symmetric])
  moreover have "exiting t4" if "Sigexit \<in> set (sig_ready r)" using that by (simp add: t4_def exiting_signals)
  ultimately have "exiting t5" using assms exiting_lib_call [of t4] by (auto simp: t5_def exiting_signals)
  then show ?thesis using exiting_lib_call e unfolding t1_def by simp
qed

lemma loop_turn_interrupted: "Sigexit \<in> arriving p r t \<Longrightarrow> \<not> fst (loop_turn p eid r t)"
  using before_select_interrupted [of r p t eid]
  by (auto simp: arriving_def loop_turn_def Let_def exiting_signals split: if_splits)

lemma main_loop_append:
  "main_loop p eid (rs @ rs') t = (if fst (main_loop p eid rs t) then main_loop p eid rs t
     else main_loop p eid rs' (snd (main_loop p eid rs t)))"
  by (induction rs arbitrary: t) (simp_all add: case_prod_unfold Let_def)

lemma main_loop_interrupted:
  "Sigexit \<in> arriving p r (snd (main_loop p eid rs t)) \<Longrightarrow> fst (main_loop p eid (rs @ r # rs') t)"
  using loop_turn_interrupted [of p r "snd (main_loop p eid rs t)" eid]
  by (simp add: main_loop_append case_prod_unfold Let_def)

lemma operation_done_exits:
  assumes "Operation_done h \<in> set as" "shutdown_after t"
  shows "exiting (called_back p as t)"
proof -
  have m: "exiting (called_back p as t)" if "exiting t" for p as t
    using that by (induction p as t rule: called_back.induct)
      (auto simp: handle_lookup_result_def operation_done_def split: action.split tool.split)
  show ?thesis using assms
    by (induction p as t rule: called_back.induct)
      (auto simp: handle_lookup_result_def operation_done_def m split: action.split tool.split)
qed

text \<open>
  Command lines that end the program: the first option that is not known, lacks its argument or is a port number
  below one decides.
\<close>

definition fatal :: "opt \<Rightarrow> bool" where
  "fatal x \<longleftrightarrow> (case x of Opt c \<Rightarrow> False | Opt_bad c \<Rightarrow> True | Opt_arg c a \<Rightarrow> c = 112 \<and> c_atoi a < 1)"

definition opt_of :: "tool \<Rightarrow> opt \<Rightarrow> bool" where
  "opt_of p x \<longleftrightarrow> (case x of Opt c \<Rightarrow> c \<in> {52, 54, 99} | Opt_bad c \<Rightarrow> True | Opt_arg c a \<Rightarrow> c = 112 \<or> c = eid_option p)"

lemma getopt_opts:
  "os = option_string p \<Longrightarrow> x \<in> set (getopt_words os ws) \<Longrightarrow> opt_of p x"
  "os = option_string p \<Longrightarrow> x \<in> set (getopt_cluster os cs ws) \<Longrightarrow> opt_of p x"
proof (induction os ws and os cs ws rule: getopt_words_getopt_cluster.induct)
  case (4 os c cs ws)
  have f: "map_of os c = Some False \<Longrightarrow> c \<in> {52, 54, 99}" "map_of os c = Some True \<Longrightarrow> c = 112 \<or> c = eid_option p"
    using 4(5) by (auto simp: option_string_def split: if_splits)
  consider (unknown) "map_of os c = None" | (plain) "map_of os c = Some False"
    | (rest) "map_of os c = Some True" "cs \<noteq> []" | (none) "map_of os c = Some True" "cs = []" "ws = []"
    | (word) a vs where "map_of os c = Some True" "cs = []" "ws = a # vs"
    by (cases "map_of os c") (auto, metis list.exhaust)
  then show ?case
  proof cases
    case unknown
    then show ?thesis using 4(1) [OF unknown 4(5)] 4(6) by (auto simp: opt_of_def)
  next
    case plain
    then show ?thesis using 4(4) [OF plain _ 4(5)] 4(6) f(1) by (auto simp: opt_of_def)
  next
    case rest
    then show ?thesis using 4(2) [OF rest(1) _ rest(2) 4(5)] 4(6) f(2) by (auto simp: opt_of_def)
  next
    case none
    then show ?thesis using 4(6) by (simp add: opt_of_def)
  next
    case word
    then show ?thesis using 4(3) [OF word(1) _ _ word(3) 4(5)] 4(6) f(2) by (auto simp: opt_of_def)
  qed
qed (auto split: if_splits)

lemma eid_option_port: "eid_option p \<noteq> 112"
  by (cases p) (simp_all add: eid_option_def)

lemma read_options_step:
  assumes "opt_of p x" "\<not> fatal x"
  shows "\<exists>st'. read_options p (x # os) st = read_options p os st' \<and>
    (set_eid st' = None \<longleftrightarrow> set_eid st = None \<and> (\<forall>a. x \<noteq> Opt_arg (eid_option p) a))"
  using assms eid_option_port [of p] by (cases x) (auto simp: opt_of_def fatal_def)

lemma read_options_good:
  "\<forall>x \<in> set os. opt_of p x \<and> \<not> fatal x \<Longrightarrow> \<exists>st'. read_options p os st = Inr st' \<and>
    (set_eid st' = None \<longleftrightarrow> set_eid st = None \<and> (\<forall>a. Opt_arg (eid_option p) a \<notin> set os))"
proof (induction os arbitrary: st)
  case (Cons x os)
  have "opt_of p x" "\<not> fatal x" using Cons.prems by simp_all
  from read_options_step [OF this, of os st] obtain st1 where st1: "read_options p (x # os) st = read_options p os st1"
    "set_eid st1 = None \<longleftrightarrow> set_eid st = None \<and> (\<forall>a. x \<noteq> Opt_arg (eid_option p) a)"
    by (elim exE conjE) (rule that)
  have "\<forall>x \<in> set os. opt_of p x \<and> \<not> fatal x" using Cons.prems by simp
  from Cons.IH [OF this, of st1] obtain st2 where st2: "read_options p os st1 = Inr st2"
    "set_eid st2 = None \<longleftrightarrow> set_eid st1 = None \<and> (\<forall>a. Opt_arg (eid_option p) a \<notin> set os)"
    by (elim exE conjE) (rule that)
  have "set_eid st2 = None \<longleftrightarrow> set_eid st = None \<and> (\<forall>a. Opt_arg (eid_option p) a \<notin> set (x # os))"
    unfolding st2(2) st1(2) by auto
  then show ?case using st1(1) st2(1) by (intro exI [of _ st2]) simp
qed simp

lemma read_options_fatal:
  assumes "\<forall>x \<in> set os. opt_of p x" "find fatal os = Some x"
  shows "read_options p os st = (case x of Opt_bad c \<Rightarrow> Inl (1, option_message c)
    | Opt_arg c a \<Rightarrow> Inl (- 1, ascii ''Illegal port number '' @ a @ [10]) | Opt c \<Rightarrow> Inr st) \<and> fatal x"
  using assms
proof (induction os arbitrary: st)
  case (Cons z os)
  show ?case
  proof (cases "fatal z")
    case True
    then show ?thesis using Cons.prems eid_option_port [of p] by (cases z) (auto simp: fatal_def)
  next
    case False
    then obtain st1 where "read_options p (z # os) st = read_options p os st1"
      using read_options_step [of p z os st] Cons.prems(1) by auto
    moreover have "\<not> fatal (Opt c)" for c by (simp add: fatal_def)
    ultimately show ?thesis using Cons.IH [of st1] Cons.prems False by (cases x) auto
  qed
qed simp

lemma command_line_cases:
  assumes "os = getopt_words (option_string p) argv"
  shows "find fatal os = Some x \<Longrightarrow> (case x of
      Opt_bad c \<Rightarrow> command_line p argv = Inl (1, option_message c)
    | Opt_arg c a \<Rightarrow> command_line p argv = Inl (- 1, ascii ''Illegal port number '' @ a @ [10])
    | Opt c \<Rightarrow> False)"
    and "find fatal os = None \<Longrightarrow> if \<forall>a. Opt_arg (eid_option p) a \<notin> set os then command_line p argv = Inl (- 1, usage p)
      else \<exists>st eid. command_line p argv = Inr (st, eid)"
proof -
  have ok: "\<forall>x \<in> set os. opt_of p x" using getopt_opts(1) [OF refl] assms by blast
  show "case x of
      Opt_bad c \<Rightarrow> command_line p argv = Inl (1, option_message c)
    | Opt_arg c a \<Rightarrow> command_line p argv = Inl (- 1, ascii ''Illegal port number '' @ a @ [10])
    | Opt c \<Rightarrow> False" if "find fatal os = Some x"
    using read_options_fatal [OF ok that, of default_settings]
    by (cases x) (simp_all add: command_line_def assms fatal_def)
  show "if \<forall>a. Opt_arg (eid_option p) a \<notin> set os then command_line p argv = Inl (- 1, usage p)
      else \<exists>st eid. command_line p argv = Inr (st, eid)" if "find fatal os = None"
  proof -
    have "\<forall>x \<in> set os. opt_of p x \<and> \<not> fatal x" using ok that by (auto simp: find_None_iff)
    from read_options_good [OF this, of default_settings] obtain st where
      st: "read_options p os default_settings = Inr st"
        "set_eid st = None \<longleftrightarrow> set_eid default_settings = None \<and> (\<forall>a. Opt_arg (eid_option p) a \<notin> set os)"
      by (elim exE conjE) (rule that)
    have "(\<forall>a. Opt_arg (eid_option p) a \<notin> set os) \<longleftrightarrow> set_eid st = None"
      unfolding st(2) by (simp add: default_settings_def)
    then show ?thesis using st(1)
      by (cases "set_eid st") (simp_all add: command_line_def assms [symmetric])
  qed
qed

text \<open>
  C38: how the programs end. The first fatal option decides a bad command line: status 1 for an option that is
  not known or lacks its argument, -1 for a port number below one; without a fatal option but also without an identifier, the usage
  and -1; then the library has not been called. With a good command line the status is -1 if the sockets cannot be opened, 0 exactly if
  the loop is left (then all sockets that had been opened are closed), and none while the program runs. A \<^verbatim>\<open>SIGINT\<close> that arrives
  in a turn, before the test of \<^verbatim>\<open>exiting\<close>, during the test of the state, during the call of the library if the turn makes it, or during
  \<^verbatim>\<open>select\<close>, makes the program leave the loop.
\<close>

theorem tools_end:
  assumes "oc = tool_main p y argv rs s" "os = getopt_words (option_string p) argv"
  shows "case find fatal os of
      Some (Opt_bad c) \<Rightarrow> status oc = Some 1 \<and> out_stderr oc = option_message c \<and> final oc = s
    | Some (Opt_arg c a) \<Rightarrow>
        status oc = Some (- 1) \<and> out_stderr oc = ascii ''Illegal port number '' @ a @ [10] \<and> final oc = s
    | Some (Opt c) \<Rightarrow> False
    | None \<Rightarrow>
        if \<forall>a. Opt_arg (eid_option p) a \<notin> set os
        then status oc = Some (- 1) \<and> out_stderr oc = usage p \<and> final oc = s
        else \<exists>st eid rc ctx u. command_line p argv = Inr (st, eid) \<and> open_node y st s = (rc, ctx, u) \<and>
          (rc \<noteq> 0 \<longrightarrow> status oc = Some (- 1) \<and> final oc = u) \<and>
          (rc = 0 \<longrightarrow> status oc = (if fst (main_loop p eid rs (enter_loop y st ctx u)) then Some 0 else None)) \<and>
          (status oc = Some 0 \<longrightarrow> closed oc = filter (\<lambda>fd. 0 \<le> fd) [ipv4socket ctx, ipv6socket ctx]) \<and>
          (rc = 0 \<longrightarrow> (\<forall>qs r qs'. rs = qs @ r # qs' \<longrightarrow>
             Sigexit \<in> arriving p r (snd (main_loop p eid qs (enter_loop y st ctx u))) \<longrightarrow> status oc = Some 0))"
proof -
  have bad: "status oc = Some (fst e) \<and> out_stderr oc = snd e \<and> final oc = s" if "command_line p argv = Inl e" for e
    using that by (cases e) (simp add: assms(1) tool_main_def)
  have good: "\<exists>rc ctx u. open_node y st s = (rc, ctx, u) \<and>
      (rc \<noteq> 0 \<longrightarrow> status oc = Some (- 1) \<and> final oc = u) \<and>
      (rc = 0 \<longrightarrow> status oc = (if fst (main_loop p eid rs (enter_loop y st ctx u)) then Some 0 else None)) \<and>
      (status oc = Some 0 \<longrightarrow> closed oc = filter (\<lambda>fd. 0 \<le> fd) [ipv4socket ctx, ipv6socket ctx]) \<and>
      (rc = 0 \<longrightarrow> (\<forall>qs r qs'. rs = qs @ r # qs' \<longrightarrow>
         Sigexit \<in> arriving p r (snd (main_loop p eid qs (enter_loop y st ctx u))) \<longrightarrow> status oc = Some 0))"
    if c: "command_line p argv = Inr (st, eid)" for st eid
  proof -
    obtain rc ctx u where o: "open_node y st s = (rc, ctx, u)" using prod_cases3 by blast
    have r: "rc \<noteq> 0 \<Longrightarrow> status oc = Some (- 1) \<and> final oc = u"
      "rc = 0 \<Longrightarrow> status oc = (if fst (main_loop p eid rs (enter_loop y st ctx u)) then Some 0 else None)"
      "status oc = Some 0 \<Longrightarrow> closed oc = filter (\<lambda>fd. 0 \<le> fd) [ipv4socket ctx, ipv6socket ctx]"
      using c o ctx_main_loop [of p eid rs "enter_loop y st ctx u"]
      by (simp_all add: assms(1) tool_main_def case_prod_unfold Let_def dtn_dht_close_sockets_def split: if_splits)
        (simp_all add: enter_loop_def)
    have "status oc = Some 0"
      if "rc = 0" "rs = qs @ r # qs'" "Sigexit \<in> arriving p r (snd (main_loop p eid qs (enter_loop y st ctx u)))" for qs r qs'
      using r(2) [OF that(1)] main_loop_interrupted [OF that(3), of qs'] that(2) by simp
    then show ?thesis using o r by blast
  qed
  show ?thesis
  proof (cases "find fatal os")
    case (Some x)
    then show ?thesis using command_line_cases(1) [OF assms(2) Some] bad by (cases x) simp_all
  next
    case None
    then show ?thesis
    proof (cases "\<forall>a. Opt_arg (eid_option p) a \<notin> set os")
      case True
      then show ?thesis using None command_line_cases(2) [OF assms(2) None] bad by simp
    next
      case False
      then obtain st eid where "command_line p argv = Inr (st, eid)"
        using command_line_cases(2) [OF assms(2) None] unfolding if_not_P [OF False] by blast
      then show ?thesis using None False good by auto
    qed
  qed
qed

lemma tools_end_witness:
  "status (lookup_main system_example [ascii ''-x'', ascii ''-p0''] [] loaded_example) = Some 1 \<and>
   status (lookup_main system_example [ascii ''-p0'', ascii ''-x''] [] loaded_example) = Some (- 1) \<and>
   status (lookup_main system_example [] [] loaded_example) = Some (- 1)"
proof -
  have f: "find fatal (getopt_words (option_string Dhtlookup) [ascii ''-x'', ascii ''-p0'']) = Some (Opt_bad 120)"
    "find fatal (getopt_words (option_string Dhtlookup) [ascii ''-p0'', ascii ''-x'']) = Some (Opt_arg 112 [48])"
    "getopt_words (option_string Dhtlookup) [] = []"
    by code_simp+
  show ?thesis
    using tools_end [where p = Dhtlookup and y = system_example and argv = "[ascii ''-x'', ascii ''-p0'']" and rs = "[]"
          and s = loaded_example, OF refl refl]
      tools_end [where p = Dhtlookup and y = system_example and argv = "[ascii ''-p0'', ascii ''-x'']" and rs = "[]"
          and s = loaded_example, OF refl refl]
      tools_end [where p = Dhtlookup and y = system_example and argv = "[]" and rs = "[]" and s = loaded_example, OF refl refl]
    unfolding f by (simp add: lookup_main_def)
qed

subsection \<open>Signals and requests\<close>

lemma request_done_signals:
  "Sigrelookup \<notin> set hs \<Longrightarrow> request_done (signals p hs t) = request_done t"
  "Sigrelookup \<in> set hs \<Longrightarrow> \<not> request_done (signals Dhtlookup hs t)"
proof -
  show a: "Sigrelookup \<notin> set hs \<Longrightarrow> request_done (signals p hs t) = request_done t" for p hs t
    by (induction p hs t rule: signals.induct) (auto simp: sigexit_def split: handler.split)
  show "Sigrelookup \<in> set hs \<Longrightarrow> \<not> request_done (signals Dhtlookup hs t)"
  proof (induction hs arbitrary: t)
    case (Cons h hs)
    then show ?case
      by (cases "Sigrelookup \<in> set hs") (simp_all add: a installed_def sigrelookup_def)
  qed simp
qed

text \<open>
  What becomes of a \<^verbatim>\<open>SIGUSR1\<close>. One that \<^verbatim>\<open>dhtlookup\<close> receives while it waits is answered: the turn ends without
  \<^verbatim>\<open>lookup_done\<close>, so that the next ready turn looks up again, exactly once. One that arrives during the call of
  \<^verbatim>\<open>dtn_dht_lookup\<close> is lost, because \<^verbatim>\<open>lookup_done = 1\<close> follows it: the list of those signals does not
  appear in the result.
\<close>

theorem relookup_signal:
  assumes "u = (if numberOfNodes t = 0 then bootstrapping Dhtlookup (resolve r) t else t)"
    "ready = fst (dtn_dht_ready_for_work (t_ctx u) (lib u))"
  shows "request_done (before_select Dhtlookup eid r t) =
      (ready \<noteq> 0 \<or> Sigrelookup \<notin> set (sig_ready r) \<and> request_done u) \<and>
    (Sigrelookup \<in> set (sig_wait r) \<longrightarrow>
      \<not> request_done (signals Dhtlookup (sig_wait r) (before_select Dhtlookup eid r t)))"
proof -
  define w where "w = signals Dhtlookup (sig_ready r) (snd (lib_call Dhtlookup (dtn_dht_ready_for_work (t_ctx u)) u))"
  have "request_done w = (Sigrelookup \<notin> set (sig_ready r) \<and> request_done u)"
    using request_done_signals by (cases "Sigrelookup \<in> set (sig_ready r)") (auto simp: w_def)
  moreover have "request_done (before_select Dhtlookup eid r t) = (ready \<noteq> 0 \<or> request_done w)"
    unfolding before_select_def assms(1) [symmetric] case_prod_unfold Let_def w_def [symmetric]
    by (simp add: assms(2))
  ultimately show ?thesis using request_done_signals(2) by simp
qed

lemma relookup_signal_witness:
  "request_done (before_select Dhtlookup [] (turn_example\<lparr>sig_call := [Sigrelookup]\<rparr>)
     (enter_loop system_example default_settings ctx_example loaded_example)) = 
   request_done (before_select Dhtlookup [] turn_example
     (enter_loop system_example default_settings ctx_example loaded_example))"
  using relookup_signal [OF refl refl, where r = "turn_example\<lparr>sig_call := [Sigrelookup]\<rparr>" and eid = "[]"]
    relookup_signal [OF refl refl, where r = turn_example and eid = "[]"]
  by (simp add: turn_example_def)

text \<open>
  The pause between two questions to the name service. The test is the wrong way round: the programs return without
  asking only if the last question lies more than 30 seconds in the future. However soon they come again, they ask.
\<close>

lemma bootstrapping_never_pauses:
  assumes "bootstrapped t \<le> clock_src (lib t) 0 + 30"
  shows "bootstrapping p res t =
    snd (lib_call p (dtn_dht_dns_bootstrap res (t_ctx t) None None)
      (t\<lparr>lib := (lib t)\<lparr>clock_src := later (later (clock_src (lib t)))\<rparr>, bootstrapped := c_int (clock_src (lib t) 1)\<rparr>))"
  using assms by (simp add: bootstrapping_def lib_call_def c_time_def later_def Let_def)

subsection \<open>The command line\<close>

text \<open>
  C39: the context of a started program is well-typed. When \<^verbatim>\<open>main\<close> comes to its loop, the port is a port number,
  the node identifier has 20 bytes, the kind of the context is the one the options ask for, and the context has a socket
  for exactly the families of that kind; the identifier to look for has been given.
\<close>

theorem started_context_typed:
  assumes "dtn_loaded c s" "command_line p argv = Inr (st, eid)" "open_node y st s = (0, ctx, u)"
  shows "0 < cx_port ctx \<and> cx_port ctx < 65536 \<and> cx_port ctx = set_port st \<and> length (cx_id ctx) = 20 \<and> cx_type ctx \<noteq> BINDNONE \<and>
    (0 \<le> ipv4socket ctx \<longleftrightarrow> cx_type ctx \<noteq> IPV6ONLY) \<and> (0 \<le> ipv6socket ctx \<longleftrightarrow> cx_type ctx \<noteq> IPV4ONLY) \<and>
    (cx_type ctx = IPV4ONLY \<longleftrightarrow> set_ipv4 st \<and> \<not> set_ipv6 st) \<and> (cx_type ctx = IPV6ONLY \<longleftrightarrow> \<not> set_ipv4 st \<and> set_ipv6 st) \<and>
    set_eid st = Some eid"
proof -
  obtain a ctx0 w where w: "dtn_dht_initstruct s = (a, ctx0, w)" using prod_cases3 by blast
  have c0: "cx_type ctx0 = BINDBOTH" using w by (auto simp: dtn_dht_initstruct_def case_prod_unfold Let_def)
  define d where "d = configure st ctx0"
  have d: "dtn_dht_init_sockets (sys_pton y) (sys_bind y) (sys_opt6 y) (sys_socket4 y) (sys_socket6 y) d = (0, ctx)"
    using assms(3) w by (auto simp: open_node_def d_def case_prod_unfold Let_def prod_eq_iff)
  have k: "cx_port ctx = cx_port d" "cx_type ctx = cx_type d" using d
    by (auto simp: dtn_dht_init_sockets_def Let_def case_prod_unfold split: if_splits dtn_dht_bind_type.splits)
  have e: "set_eid st = Some eid" using assms(2) by (auto simp: command_line_def split: sum.splits option.splits)
  have l: "length (cx_id ctx) = 20" using open_node_safe(2) [OF loaded_dtn_safe [OF assms(1)] assms(3)] .
  have q: "0 < cx_port d \<and> cx_port d < 65536 \<and> (0 \<le> ipv4socket ctx \<longleftrightarrow> cx_type d = IPV4ONLY \<or> cx_type d = BINDBOTH) \<and>
      (0 \<le> ipv6socket ctx \<longleftrightarrow> cx_type d = IPV6ONLY \<or> cx_type d = BINDBOTH)"
    using d by (cases "cx_type d"; auto simp: dtn_dht_init_sockets_def Let_def split: if_splits)
  show ?thesis using q k e l c0 by (auto simp: d_def configure_def split: if_splits)
qed

lemma command_line_example:
  "command_line Dhtlookup [ascii ''-4p6881'', ascii ''x'', ascii ''-l'', ascii ''--''] =
     Inr (default_settings\<lparr>set_ipv4 := True, set_port := 6881, set_eid := Some (ascii ''--'')\<rparr>, ascii ''--'')"
  by code_simp

lemma started_context_typed_witness:
  "\<exists>ctx u. open_node system_example (default_settings\<lparr>set_ipv4 := True, set_port := 6881, set_eid := Some (ascii ''--'')\<rparr>)
     loaded_example = (0, ctx, u) \<and> cx_port ctx = 6881 \<and> 0 \<le> ipv4socket ctx \<and> ipv6socket ctx < 0"
proof -
  let ?st = "default_settings\<lparr>set_ipv4 := True, set_port := 6881, set_eid := Some (ascii ''--'')\<rparr>"
  have l: "dtn_loaded True loaded_example"
    unfolding dtn_loaded_def loaded_example_def by (intro exI conjI, rule refl, simp)
  obtain rc ctx u where o: "open_node system_example ?st loaded_example = (rc, ctx, u)" using prod_cases3 by blast
  then have "rc = 0" by (auto simp: open_node_def dtn_dht_initstruct_def configure_def dtn_dht_init_sockets_def bind_sockets_def
      system_example_def case_prod_unfold Let_def)
  with o have o: "open_node system_example ?st loaded_example = (0, ctx, u)" by simp
  from started_context_typed [OF l command_line_example o] o show ?thesis by (auto simp: default_settings_def)
qed

text \<open>The options as a user writes them.\<close>

definition written :: "tool \<Rightarrow> settings \<Rightarrow> mem \<Rightarrow> mem list" where
  "written p st eid = (if set_ipv4 st then [ascii ''-4''] else []) @ (if set_ipv6 st then [ascii ''-6''] else []) @
     (if set_shutdown st then [] else [ascii ''-c'']) @ [ascii ''-p'', dec (nat (set_port st))] @ [[45, eid_option p], eid]"

lemma c_atoi_dec: "k < 2 ^ 31 \<Longrightarrow> c_atoi (dec k) = int k"
proof -
  assume k: "k < 2 ^ 31"
  have "strtol (dec k @ [0]) 0 = (int k, 0 + length (dec k))"
    by (rule strtol_dec(1) [of _ _ _ 0 "[]"]) (use k in \<open>simp_all add: is_digit_def\<close>)
  then show ?thesis using k by (simp add: c_atoi_def c_int_id)
qed

text \<open>
  C40: the command line is read as it is written. For all settings with a port number, the options written for them
  give exactly these settings back, with the identifier as it stands, even one that looks like an option.
\<close>

theorem command_line_round_trip:
  assumes "0 < set_port st" "set_port st < 2 ^ 31" "set_eid st = Some eid"
  shows "command_line p (written p st eid) = Inr (st, eid)"
proof -
  have a: "c_atoi (dec (nat (set_port st))) = set_port st" using c_atoi_dec [of "nat (set_port st)"] assms by simp
  have w: "getopt_words (option_string p) (written p st eid) = (if set_ipv4 st then [Opt 52] else []) @
      (if set_ipv6 st then [Opt 54] else []) @ (if set_shutdown st then [] else [Opt 99]) @
      [Opt_arg 112 (dec (nat (set_port st))), Opt_arg (eid_option p) eid]"
    by (cases p) (simp_all add: written_def option_string_def eid_option_def ascii_def)
  have "read_options p (getopt_words (option_string p) (written p st eid)) default_settings = Inr st"
    unfolding w using a assms by (cases p) (simp_all add: eid_option_def default_settings_def)
  then show ?thesis using assms(3) by (simp add: command_line_def)
qed

lemma command_line_round_trip_witness:
  "command_line Dhtannounce [ascii ''-6'', ascii ''-p'', ascii ''6881'', ascii ''-a'', ascii ''-4''] =
     Inr (default_settings\<lparr>set_ipv6 := True, set_port := 6881, set_eid := Some (ascii ''-4'')\<rparr>, ascii ''-4'')"
proof -
  have "written Dhtannounce (default_settings\<lparr>set_ipv6 := True, set_port := 6881, set_eid := Some (ascii ''-4'')\<rparr>) (ascii ''-4'') =
    [ascii ''-6'', ascii ''-p'', ascii ''6881'', ascii ''-a'', ascii ''-4'']"
    by (simp add: written_def default_settings_def ascii_def eid_option_def dec.simps)
  then show ?thesis
    using command_line_round_trip [of "default_settings\<lparr>set_ipv6 := True, set_port := 6881, set_eid := Some (ascii ''-4'')\<rparr>"
        "ascii ''-4''" Dhtannounce] by (simp add: default_settings_def)
qed

text \<open>Two slips: a port beyond 32 bits is cut, and \<^verbatim>\<open>dhtannounce\<close> has the message of \<^verbatim>\<open>dhtlookup\<close> for its own option.\<close>

lemma huge_port_accepted:
  "command_line Dhtlookup [ascii ''-p4294974177'', ascii ''-la''] =
     Inr (default_settings\<lparr>set_port := 6881, set_eid := Some (ascii ''a'')\<rparr>, ascii ''a'')"
  by code_simp

lemma announce_argument_message:
  "command_line Dhtannounce [ascii ''-a''] = Inl (1, ascii ''Unknown option `-a'' @ [39, 46, 10])"
  "command_line Dhtlookup [ascii ''-l''] = Inl (1, ascii ''Option -l requires an argument.'' @ [10])"
  by code_simp+

end
