(* ===== verification/Reply_Roundtrip.thy ===== *)
theory Reply_Roundtrip
  imports Parser_Roundtrip
begin

text \<open>
  The information a node sends about itself survives the wire: what \<^verbatim>\<open>send_dtninfo\<close> writes for a node with
  convergence layers, \<^verbatim>\<open>parse_dtn_message\<close> reads back, with the address of the sender added to its IP layers. Without any
  layer the message is not readable.
\<close>

subsection \<open>What is written\<close>

fun enc_args :: "cl_arg list \<Rightarrow> mem" where
  "enc_args [] = []"
| "enc_args (a # as) = arg_key a @ ascii ''='' @ arg_value a @ ascii '';'' @ enc_args as"

definition layer_len :: "convergence_layer \<Rightarrow> nat" where
  "layer_len c = 6 + length (clname c) + args_len (cl_args c)"

fun enc_layers :: "convergence_layer list \<Rightarrow> mem" where
  "enc_layers [] = []"
| "enc_layers (c # cs) =
     dec (layer_len c) @ ascii '':name='' @ clname c @ ascii '';'' @ enc_args (cl_args c) @ enc_layers cs"

fun enc_eids :: "mem list \<Rightarrow> mem" where
  "enc_eids [] = []"
| "enc_eids (e # es) = dec (length e) @ ascii '':'' @ e @ enc_eids es"

lemma length_enc_args [simp]: "length (enc_args as) = args_len as"
  by (induction as) (simp_all add: args_len_def ascii_def)

lemma put_fmt_Some: "put_fmt sz ts b = Some b' \<Longrightarrow> length b' < sz \<Longrightarrow> b' = b @ ts"
  "put_fmt sz ts b = Some b' \<Longrightarrow> length b \<le> length b'"
  by (auto simp: put_fmt_def split: if_splits)

lemma put_mem_Some: "put_mem sz ts b = Some b' \<Longrightarrow> b' = b @ ts"
  by (auto simp: put_mem_def split: if_splits)

lemma put_args_Some: "put_args sz as b = Some b' \<Longrightarrow> b' = b @ enc_args as"
proof (induction as arbitrary: b)
  case (Cons a as)
  then have "put_args sz as (b @ arg_key a @ ascii ''='' @ arg_value a @ ascii '';'') = Some b'"
    by (auto split: bind_splits dest!: put_mem_Some)
  from Cons.IH [OF this] show ?case by simp
qed simp

lemma put_eids_Some:
  "put_eids sz es b = Some b' \<Longrightarrow> length b' < sz \<Longrightarrow> b' = b @ enc_eids es"
  "put_eids sz es b = Some b' \<Longrightarrow> length b \<le> length b'"
proof (induction sz es b rule: put_eids.induct)
  case (2 sz e es b)
  {
    case 1
    obtain b1 b2 where b: "put_fmt sz (dec (length e) @ ascii '':'') b = Some b1" "put_mem sz e b1 = Some b2"
      "put_eids sz es b2 = Some b'" using 1(1) by (auto split: bind_splits)
    have "length b2 \<le> length b'" using "2.IH"(2) [OF b(1,2)] b(3) by blast
    then show ?case using put_fmt_Some(1) [OF b(1)] put_mem_Some [OF b(2)] "2.IH"(1) [OF b(1,2)] b(3) 1(2) by auto
  next
    case 2
    obtain b1 b2 where b: "put_fmt sz (dec (length e) @ ascii '':'') b = Some b1" "put_mem sz e b1 = Some b2"
      "put_eids sz es b2 = Some b'" using 2 by (auto split: bind_splits)
    show ?case using put_fmt_Some(2) [OF b(1)] put_mem_Some [OF b(2)] "2.IH"(2) [OF b(1,2) b(3)] by simp
  }
qed auto

lemma put_cls_Some:
  "put_cls sz cs b = Some b' \<Longrightarrow> length b' < sz \<Longrightarrow> b' = b @ enc_layers cs"
  "put_cls sz cs b = Some b' \<Longrightarrow> length b \<le> length b'"
proof (induction sz cs b rule: put_cls.induct)
  case (2 sz c cs b)
  {
    case 1
    obtain b1 b2 b3 b4 where b: "put_fmt sz (dec (6 + length (clname c) + args_len (cl_args c)) @ ascii '':name='') b = Some b1"
      "put_mem sz (clname c) b1 = Some b2" "put_mem sz (ascii '';'') b2 = Some b3" "put_args sz (cl_args c) b3 = Some b4"
      "put_cls sz cs b4 = Some b'" using 1(1) by (auto split: bind_splits)
    have "length b4 \<le> length b'" using "2.IH"(2) [OF b(1-4)] b(5) by blast
    then show ?case
      using put_fmt_Some(1) [OF b(1)] put_mem_Some [OF b(2)] put_mem_Some [OF b(3)] put_args_Some [OF b(4)]
        "2.IH"(1) [OF b(1-4)] b(5) 1(2) by (auto simp: layer_len_def)
  next
    case 2
    obtain b1 b2 b3 b4 where b: "put_fmt sz (dec (6 + length (clname c) + args_len (cl_args c)) @ ascii '':name='') b = Some b1"
      "put_mem sz (clname c) b1 = Some b2" "put_mem sz (ascii '';'') b2 = Some b3" "put_args sz (cl_args c) b3 = Some b4"
      "put_cls sz cs b4 = Some b'" using 2 by (auto split: bind_splits)
    show ?case
      using put_fmt_Some(2) [OF b(1)] put_mem_Some [OF b(2)] put_mem_Some [OF b(3)] put_args_Some [OF b(4)]
        "2.IH"(2) [OF b(1-4) b(5)] by simp
  }
qed auto

lemma dtninfo_msg_eq:
  assumes "dtninfo_msg tid eid cls nbs grs = Some m" "length m < 4096"
  shows "m = ascii ''d1:rd2:cll'' @ enc_layers cls @ ascii ''e3:eid'' @ dec (length eid) @ ascii '':'' @ eid @
    ascii ''2:grl'' @ enc_eids grs @ ascii ''e2:nbl'' @ enc_eids nbs @ ascii ''ee1:t'' @ dec (length tid) @ ascii '':'' @ tid @
    ascii ''1:y1:re''"
proof -
  obtain b1 b2 b3 b4 b5 b6 b7 b8 b9 b10 where b: "put_fmt 4096 (ascii ''d1:rd2:cll'') [] = Some b1" "put_cls 4096 cls b1 = Some b2"
    "put_fmt 4096 (ascii ''e3:eid'' @ dec (length eid) @ ascii '':'') b2 = Some b3" "put_mem 4096 eid b3 = Some b4"
    "put_fmt 4096 (ascii ''2:grl'') b4 = Some b5" "put_eids 4096 grs b5 = Some b6" "put_fmt 4096 (ascii ''e2:nbl'') b6 = Some b7"
    "put_eids 4096 nbs b7 = Some b8" "put_fmt 4096 (ascii ''ee1:t'' @ dec (length tid) @ ascii '':'') b8 = Some b9"
    "put_mem 4096 tid b9 = Some b10" "put_fmt 4096 (ascii ''1:y1:re'') b10 = Some m"
    using assms(1) by (auto simp: dtninfo_msg_def split: bind_splits)
  have m10: "length b9 \<le> length b10" "length b3 \<le> length b4" using put_mem_Some [OF b(10)] put_mem_Some [OF b(4)] by simp_all
  note le = put_fmt_Some(2) [OF b(11)] m10(1) put_fmt_Some(2) [OF b(9)] put_eids_Some(2) [OF b(8)] put_fmt_Some(2) [OF b(7)]
    put_eids_Some(2) [OF b(6)] put_fmt_Some(2) [OF b(5)] m10(2) put_fmt_Some(2) [OF b(3)] put_cls_Some(2) [OF b(2)]
  have lt: "length b1 < 4096" "length b2 < 4096" "length b3 < 4096" "length b5 < 4096" "length b6 < 4096" "length b7 < 4096"
    "length b8 < 4096" "length b9 < 4096" using le assms(2) by simp_all
  show ?thesis
    using put_fmt_Some(1) [OF b(1) lt(1)] put_cls_Some(1) [OF b(2) lt(2)] put_fmt_Some(1) [OF b(3) lt(3)] put_mem_Some [OF b(4)]
      put_fmt_Some(1) [OF b(5) lt(4)] put_eids_Some(1) [OF b(6) lt(5)] put_fmt_Some(1) [OF b(7) lt(6)]
      put_eids_Some(1) [OF b(8) lt(7)] put_fmt_Some(1) [OF b(9) lt(8)] put_mem_Some [OF b(10)]
      put_fmt_Some(1) [OF b(11) assms(2)] by simp
qed

subsection \<open>Arguments and layers\<close>

text \<open>What a layer must be like to be readable: a name without a semicolon, at least one argument, separators only as such.\<close>

definition arg_ok :: "cl_arg \<Rightarrow> bool" where
  "arg_ok a \<longleftrightarrow> 61 \<notin> set (arg_key a) \<and> 59 \<notin> set (arg_value a)"

definition layer_ok :: "convergence_layer \<Rightarrow> bool" where
  "layer_ok c \<longleftrightarrow> 59 \<notin> set (clname c) \<and> cl_args c \<noteq> [] \<and> (\<forall>a \<in> set (cl_args c). arg_ok a) \<and> layer_len c < 2 ^ 63"

lemma rd_drop: "drop p m = x # xs \<Longrightarrow> rd m p = x"
  by (metis drop_eq_Nil hd_drop_conv_nth linorder_not_less list.discI list.sel(1) rd_nth)

lemma drop_more: "drop p m = xs @ ys \<Longrightarrow> drop (p + length xs) m = ys"
  by (metis add.commute append_eq_conv_conj drop_drop)

lemma slice_drop: "drop p m = xs @ ys \<Longrightarrow> slice p (length xs) m = xs"
  by (simp add: slice_def)

lemma scan_to_found:
  assumes "drop p m = xs @ c # ys" "c \<notin> set xs" "length xs < n"
  shows "scan_to c m p n = length xs"
proof -
  have "slice p n m = xs @ c # take (n - length xs - 1) ys"
    using assms(1,3) by (simp add: slice_def take_Cons')
  moreover have "takeWhile (\<lambda>b. b \<noteq> c) (xs @ c # zs) = xs" for zs using assms(2) by (induction xs) auto
  ultimately show ?thesis by (simp add: scan_to_def)
qed

lemma parse_args_enc:
  assumes "as \<noteq> []" "\<forall>a \<in> set as. arg_ok a" "drop p m = enc_args as @ rest"
  shows "parse_dtn_convergence_layer_args m p (args_len as) = Some (args_len as, as)"
  using assms
proof (induction as arbitrary: p)
  case (Cons a as)
  let ?k = "arg_key a" and ?v = "arg_value a"
  have d: "drop p m = ?k @ 61 # ?v @ 59 # enc_args as @ rest" using Cons.prems(3) by (simp add: ascii_def)
  have d1: "drop (p + length ?k) m = 61 # ?v @ 59 # enc_args as @ rest" by (rule drop_more [OF d])
  have d2: "drop (p + length ?k + 1) m = ?v @ 59 # enc_args as @ rest"
    using drop_more [of "p + length ?k" m "[61]"] d1 by simp
  have d3: "drop (p + length ?k + 1 + length ?v) m = 59 # enc_args as @ rest" by (rule drop_more [OF d2])
  have d4: "drop (p + (length ?k + length ?v + 2)) m = enc_args as @ rest"
    using drop_more [of "p + length ?k + 1 + length ?v" m "[59]"] d3 by (simp add: ac_simps)
  have n: "args_len (a # as) = length ?k + length ?v + 2 + args_len as" by (simp add: args_len_def)
  have ok: "61 \<notin> set ?k" "59 \<notin> set ?v" using Cons.prems(2) by (simp_all add: arg_ok_def)
  have k: "scan_to 61 m p (args_len (a # as)) = length ?k" by (rule scan_to_found [OF d ok(1)]) (simp add: n)
  have v: "scan_to 59 m (p + length ?k + 1) (args_len (a # as) - (length ?k + 1)) = length ?v"
    by (rule scan_to_found [OF d2 ok(2)]) (simp add: n)
  have s: "slice p (length ?k) m = ?k" "slice (p + length ?k + 1) (length ?v) m = ?v"
    using slice_drop [OF d] slice_drop [OF d2] by simp_all
  have r: "rd m (p + length ?k) = 61" "rd m (p + length ?k + 1 + length ?v) = 59" using rd_drop [OF d1] rd_drop [OF d3] by simp_all
  have ae: "\<lparr>arg_key = ?k, arg_value = ?v\<rparr> = a" by (cases a) simp
  have e: "parse_dtn_convergence_layer_args m p (args_len (a # as)) =
    (if length ?k + length ?v + 2 < args_len (a # as) then
       map_option (\<lambda>(rc, args). (length ?k + length ?v + 2 + rc, a # (if rc > 0 then args else [])))
         (parse_dtn_convergence_layer_args m (p + (length ?k + length ?v + 2)) (args_len as))
     else Some (length ?k + length ?v + 2, [a]))"
    by (subst parse_dtn_convergence_layer_args.simps) (simp only: Let_def k v s r refl if_False not_True_eq_False not_False_eq_True ae, simp add: n)
  show ?case
  proof (cases "as = []")
    case True
    then show ?thesis unfolding e by (simp add: n args_len_def)
  next
    case False
    then have "0 < args_len as" by (cases as) (simp_all add: args_len_def)
    then show ?thesis unfolding e using Cons.IH [OF False _ d4] Cons.prems(2) by (simp add: n)
  qed
qed simp

text \<open>The layer as the receiver sees it: IP layers get the address of the sender.\<close>

definition with_ip :: "mem \<Rightarrow> convergence_layer \<Rightarrow> convergence_layer" where
  "with_ip sa c = c\<lparr>cl_args := (if is_ip_layer (clname c)
     then \<lparr>arg_key = ascii ''ip'', arg_value = sender_ip sa\<rparr> # cl_args c else cl_args c)\<rparr>"

definition layers_len :: "convergence_layer list \<Rightarrow> nat" where
  "layers_len cs = (\<Sum>c \<leftarrow> cs. layer_len c)"

lemma digit_hd: "drop p m = dec k @ xs \<Longrightarrow> rd m p \<noteq> 101"
proof -
  assume "drop p m = dec k @ xs"
  moreover obtain d ds where "dec k = d # ds" by (cases "dec k") simp_all
  moreover from this have "is_digit d" using dec_digits [of k] by simp
  ultimately show ?thesis using rd_drop [of p m d] by (auto simp: is_digit_def)
qed

lemma enc_layers_append: "enc_layers (cs @ ds) = enc_layers cs @ enc_layers ds"
  by (induction cs) simp_all

text \<open>The parser on the text of one layer: what is left are its arguments and the layers behind it.\<close>

lemma parse_layer_head:
  assumes "drop p m = enc_layers [c] @ tail" "59 \<notin> set (clname c)" "layer_len c < 2 ^ 63" "length (enc_layers [c]) \<le> len"
  defines "q \<equiv> p + length (dec (layer_len c))"
  shows "parse_dtn_convergence_layer m p len sa =
      (case parse_dtn_convergence_layer_args m (q + 6 + length (clname c) + 1) (args_len (cl_args c)) of
         None \<Rightarrow> Inl Malformed
       | Some (_, args) \<Rightarrow>
           (case parse_dtn_convergence_layer m (q + layer_len c + 1) (p + len - (q + layer_len c + 1)) sa of
              Inl _ \<Rightarrow> Inl Freed
            | Inr (pos, layers) \<Rightarrow>
                Inr (layer_len c + pos, with_ip sa \<lparr>clname = clname c, cl_args = args\<rparr> # (if pos = 0 then [] else layers))))"
    and "drop (q + 6 + length (clname c) + 1) m = enc_args (cl_args c) @ tail" "drop (q + layer_len c + 1) m = tail"
proof -
  let ?n = "clname c" and ?a = "enc_args (cl_args c)" and ?L = "layer_len c" and ?D = "dec (layer_len c)"
  have n5: "length (ascii ''name='') = 5" by (simp add: ascii_def)
  have d: "drop p m = ?D @ 58 # ascii ''name='' @ ?n @ 59 # ?a @ tail"
    using assms(1) by (simp add: ascii_def)
  have st: "strtol m p = (int ?L, q)" "rd m q = 58"
    using strtol_dec [OF d _ assms(3)] by (simp_all add: q_def is_digit_def)
  have d1: "drop (q + 1) m = ascii ''name='' @ ?n @ 59 # ?a @ tail"
    using drop_more [of p m "?D @ [58]"] d by (simp add: q_def)
  have d2: "drop (q + 6) m = ?n @ 59 # ?a @ tail"
    using drop_more [OF d1] n5 by (simp add: ac_simps)
  have d3: "drop (q + 6 + length ?n) m = 59 # ?a @ tail" by (rule drop_more [OF d2])
  show d4: "drop (q + 6 + length ?n + 1) m = ?a @ tail"
    using drop_more [of "q + 6 + length ?n" m "[59]"] d3 by simp
  have L: "?L = 6 + length ?n + args_len (cl_args c)" by (simp add: layer_len_def)
  show "drop (q + ?L + 1) m = tail" using drop_more [OF d4] by (simp add: L ac_simps)
  have "slice (q + 6) (length ?n + k) m = ?n @ take k (59 # ?a @ tail)" for k
    using d2 by (simp add: slice_def)
  moreover have "takeWhile (\<lambda>b. b \<noteq> 59) (?n @ take k (59 # xs)) = ?n" for k xs
    using assms(2) by (cases k) (auto simp: takeWhile_append)
  ultimately have nm: "scan_to 59 m (q + 6) (?L - 6) = length ?n" by (simp add: scan_to_def L)
  have len: "length (enc_layers [c]) = length ?D + 1 + ?L" by (simp add: L ascii_def)
  have "slice (q + 1) 5 m = ascii ''name=''" using slice_drop [OF d1] n5 by simp
  moreover have "slice (q + 6) (length ?n) m = ?n" by (rule slice_drop [OF d2])
  moreover have "\<not> p + len < q + 1 + ?L" using assms(4) len by (simp add: q_def)
  moreover have "5 < int ?L" "?L - length ?n - 6 = args_len (cl_args c)" by (simp_all add: L)
  ultimately show "parse_dtn_convergence_layer m p len sa =
      (case parse_dtn_convergence_layer_args m (q + 6 + length ?n + 1) (args_len (cl_args c)) of
         None \<Rightarrow> Inl Malformed
       | Some (_, args) \<Rightarrow>
           (case parse_dtn_convergence_layer m (q + ?L + 1) (p + len - (q + ?L + 1)) sa of
              Inl _ \<Rightarrow> Inl Freed
            | Inr (pos, layers) \<Rightarrow>
                Inr (?L + pos, with_ip sa \<lparr>clname = clname c, cl_args = args\<rparr> # (if pos = 0 then [] else layers))))"
    using digit_hd [OF d] st rd_drop [OF d3] nm
    by (subst parse_dtn_convergence_layer.simps)
      (simp add: with_ip_def Let_def case_prod_unfold cong: option.case_cong sum.case_cong if_cong)
qed

lemma parse_layer_ok:
  assumes "drop p m = enc_layers [c] @ tail" "layer_ok c" "length (enc_layers [c]) \<le> len"
  defines "q \<equiv> p + length (dec (layer_len c))"
  shows "parse_dtn_convergence_layer m p len sa =
      (case parse_dtn_convergence_layer m (q + layer_len c + 1) (p + len - (q + layer_len c + 1)) sa of
         Inl _ \<Rightarrow> Inl Freed
       | Inr (pos, layers) \<Rightarrow> Inr (layer_len c + pos, with_ip sa c # (if pos = 0 then [] else layers)))"
    and "drop (q + layer_len c + 1) m = tail" "length (enc_layers [c]) = q + layer_len c + 1 - p"
proof -
  have ok: "59 \<notin> set (clname c)" "layer_len c < 2 ^ 63" "cl_args c \<noteq> []" "\<forall>a \<in> set (cl_args c). arg_ok a"
    using assms(2) by (simp_all add: layer_ok_def)
  have cc: "\<lparr>clname = clname c, cl_args = cl_args c\<rparr> = c" by (cases c) simp
  note h = parse_layer_head [OF assms(1) ok(1,2) assms(3), folded q_def]
  show "parse_dtn_convergence_layer m p len sa =
      (case parse_dtn_convergence_layer m (q + layer_len c + 1) (p + len - (q + layer_len c + 1)) sa of
         Inl _ \<Rightarrow> Inl Freed
       | Inr (pos, layers) \<Rightarrow> Inr (layer_len c + pos, with_ip sa c # (if pos = 0 then [] else layers)))"
    unfolding h(1) parse_args_enc [OF ok(3,4) h(2)] option.case prod.case cc ..
  show "drop (q + layer_len c + 1) m = tail" by (rule h(3))
  show "length (enc_layers [c]) = q + layer_len c + 1 - p" by (simp add: q_def layer_len_def ascii_def)
qed

lemma parse_layers_enc:
  assumes "\<forall>c \<in> set cs. layer_ok c" "drop p m = enc_layers cs @ 101 # rest" "length (enc_layers cs) \<le> len"
  shows "parse_dtn_convergence_layer m p len sa = Inr (layers_len cs, map (with_ip sa) cs)"
  using assms
proof (induction cs arbitrary: p len)
  case Nil
  then have "rd m p = 101" using rd_drop by simp
  then show ?case by (simp add: parse_dtn_convergence_layer.simps layers_len_def)
next
  case (Cons c cs)
  have e: "enc_layers (c # cs) = enc_layers [c] @ enc_layers cs" using enc_layers_append [of "[c]" cs] by simp
  have d: "drop p m = enc_layers [c] @ enc_layers cs @ 101 # rest" "layer_ok c" "length (enc_layers [c]) \<le> len"
    using Cons.prems unfolding e by simp_all
  define q where "q = p + length (dec (layer_len c)) + layer_len c + 1"
  note h = parse_layer_ok [OF d, folded q_def]
  have "length (enc_layers cs) \<le> p + len - q" using Cons.prems(3) h(3) unfolding e q_def by simp
  from Cons.IH [OF _ h(2) this] Cons.prems(1)
  have "parse_dtn_convergence_layer m q (p + len - q) sa = Inr (layers_len cs, map (with_ip sa) cs)" by simp
  moreover have "layers_len cs = 0 \<longleftrightarrow> cs = []" by (cases cs) (simp_all add: layers_len_def layer_len_def)
  ultimately show ?case unfolding h(1) by (auto simp: layers_len_def)
qed

text \<open>
  A layer without arguments: the parser of the arguments looks for a key in nothing and takes the first
  byte behind the layer for the equality sign, which it is not.
\<close>

lemma parse_layers_argless:
  assumes "\<forall>c \<in> set cs. layer_ok c" "cl_args c = []" "59 \<notin> set (clname c)" "layer_len c < 2 ^ 63"
    "drop p m = enc_layers (cs @ c # ds) @ 101 # rest" "length (enc_layers (cs @ c # ds)) \<le> len"
  shows "parse_dtn_convergence_layer m p len sa = Inl (if cs = [] then Malformed else Freed)"
  using assms(1,5,6)
proof (induction cs arbitrary: p len)
  case Nil
  have e: "enc_layers (c # ds) = enc_layers [c] @ enc_layers ds" using enc_layers_append [of "[c]" ds] by simp
  have d: "drop p m = enc_layers [c] @ enc_layers ds @ 101 # rest" "length (enc_layers [c]) \<le> len"
    using Nil.prems unfolding append_Nil e by simp_all
  define k where "k = p + length (dec (layer_len c)) + 6 + length (clname c) + 1"
  note h = parse_layer_head [OF d(1) assms(3,4) d(2), folded k_def]
  have "rd m k \<noteq> 61"
  proof (cases ds)
    case Nil
    then show ?thesis using h(2) assms(2) rd_drop [of k m 101] by simp
  next
    case (Cons x xs)
    obtain b bs where b: "dec (layer_len x) = b # bs" by (cases "dec (layer_len x)") simp_all
    then have "is_digit b" using dec_digits [of "layer_len x"] by simp
    then show ?thesis using h(2) assms(2) Cons b rd_drop [of k m b] by (auto simp: is_digit_def)
  qed
  then have "parse_dtn_convergence_layer_args m k 0 = None"
    by (subst parse_dtn_convergence_layer_args.simps) (simp add: scan_to_def slice_def)
  then show ?case unfolding h(1) by (simp add: assms(2) args_len_def)
next
  case (Cons x xs)
  have e: "enc_layers ((x # xs) @ c # ds) = enc_layers [x] @ enc_layers (xs @ c # ds)"
    using enc_layers_append [of "[x]" "xs @ c # ds"] by simp
  have d: "drop p m = enc_layers [x] @ enc_layers (xs @ c # ds) @ 101 # rest" "layer_ok x" "length (enc_layers [x]) \<le> len"
    using Cons.prems unfolding e by simp_all
  define q where "q = p + length (dec (layer_len x)) + layer_len x + 1"
  note h = parse_layer_ok [OF d, folded q_def]
  have "length (enc_layers (xs @ c # ds)) \<le> p + len - q" using Cons.prems(3) h(3) unfolding e q_def by simp
  from Cons.IH [OF _ h(2) this] Cons.prems(1) show ?case unfolding h(1) by simp
qed

subsection \<open>Lists of identifiers\<close>

lemma parse_eids_enc:
  assumes "\<forall>e \<in> set es. e \<noteq> [] \<and> length e < 2 ^ 63" "drop p m = enc_eids es @ 101 # rest" "length (enc_eids es) \<le> len"
  shows "parse_dtn_eid_list m p len = Some (length (enc_eids es), es)"
  using assms
proof (induction es arbitrary: p len)
  case Nil
  then have "rd m p = 101" using rd_drop by simp
  then show ?case by (simp add: parse_dtn_eid_list.simps)
next
  case (Cons e es)
  let ?D = "dec (length e)"
  have d: "drop p m = ?D @ 58 # e @ enc_eids es @ 101 # rest" using Cons.prems(2) by (simp add: ascii_def)
  define q where "q = p + length ?D"
  have st: "strtol m p = (int (length e), q)" "rd m q = 58"
    using strtol_dec [OF d] Cons.prems(1) by (simp_all add: q_def is_digit_def)
  have d1: "drop (q + 1) m = e @ enc_eids es @ 101 # rest" using drop_more [of p m "?D @ [58]"] d by (simp add: q_def)
  have d2: "drop (q + 1 + length e) m = enc_eids es @ 101 # rest" by (rule drop_more [OF d1])
  have len: "length (enc_eids (e # es)) = length ?D + 1 + length e + length (enc_eids es)" by (simp add: ascii_def)
  have rec: "parse_dtn_eid_list m (q + 1 + length e) (len - (q + 1 + length e - p)) = Some (length (enc_eids es), es)"
    by (rule Cons.IH) (use Cons.prems d2 len in \<open>simp_all add: q_def\<close>)
  have z: "length (enc_eids es) = 0 \<longleftrightarrow> es = []" by (cases es) simp_all
  have "slice (q + 1) (length e) m = e" by (rule slice_drop [OF d1])
  moreover have "\<not> p + len < q + 1 + length e" using Cons.prems(3) len by (simp add: q_def)
  moreover have "0 < int (length e)" using Cons.prems(1) by simp
  ultimately have "parse_dtn_eid_list m p len =
      Some (length (enc_eids es) + (q + 1 + length e - p), e # (if length (enc_eids es) = 0 then [] else es))"
    using digit_hd [OF d] st rec by (subst parse_dtn_eid_list.simps) (simp add: Let_def)
  then show ?case using z len by (auto simp: q_def)
qed

subsection \<open>Finding the fields\<close>

text \<open>A pattern is found behind a text without it that ends with a byte foreign to it.\<close>

lemma memmem_at_behind_sep:
  assumes "memmem_at xs nd = None" "xs = [] \<or> last xs \<notin> set nd" "nd \<noteq> []"
  shows "memmem_at (xs @ nd @ rest) nd = Some (length xs)"
  using assms
proof (induction xs)
  case Nil
  then show ?case by (cases nd) auto
next
  case (Cons x xs)
  have t: "take (length nd) (x # xs @ nd @ rest) \<noteq> nd"
  proof
    assume t: "take (length nd) (x # xs @ nd @ rest) = nd"
    show False
    proof (cases "length nd \<le> length (x # xs)")
      case True
      then have "take (length nd) (x # xs) = nd" using t by (simp add: take_Cons' split: if_splits)
      then show False using Cons.prems(1) by simp
    next
      case False
      then have l: "length xs < length nd" by simp
      have "nd ! length xs = (x # xs @ nd @ rest) ! length xs" using l t by (metis nth_take)
      also have "\<dots> = (x # xs) ! length xs" by (metis append_Cons length_Cons lessI nth_append)
      also have "\<dots> = last (x # xs)" by (simp add: last_conv_nth)
      finally show False using Cons.prems(2) nth_mem [OF l] by simp
    qed
  qed
  have "memmem_at xs nd = None" using Cons.prems(1) by (simp split: if_splits)
  then have "memmem_at (xs @ nd @ rest) nd = Some (length xs)" using Cons by (auto split: if_splits)
  then show ?case using t by simp
qed

lemma memmem_at_drop: "memmem_at xs nd = None \<Longrightarrow> nd \<noteq> [] \<Longrightarrow> memmem_at (drop k xs) nd = None"
proof (induction k arbitrary: xs)
  case (Suc k)
  then show ?case by (cases xs) (auto split: if_splits)
qed simp

lemma search_from_found:
  assumes "drop p m = xs @ nd @ ys" "memmem_at (xs @ nd @ ys) nd = Some (length xs)" "nd \<noteq> []"
  shows "search_from (m @ t) (length m) p nd = Some (p + length xs)"
proof -
  have "p < length m" using assms(1,3) by (cases "p < length m") simp_all
  then have "slice p (length m - p) (m @ t) = drop p m" by (simp add: slice_def)
  then have "slice p (length m - p) (m @ t) = xs @ nd @ ys" using assms(1) by simp
  then show ?thesis using assms(2) by (simp add: search_from_def dht_memmem_def)
qed

lemma length_dec_less: "2 \<le> k \<Longrightarrow> length (dec k) < k"
proof (induction k rule: dec.induct)
  case (1 n)
  show ?case
  proof (cases "n < 10")
    case True
    then show ?thesis using "1.prems" by (subst dec.simps) simp
  next
    case False
    have l: "length (dec n) = Suc (length (dec (n div 10)))" using False by (subst dec.simps) simp
    show ?thesis
    proof (cases "2 \<le> n div 10")
      case True
      then show ?thesis using "1.IH" [OF False True] l by linarith
    next
      case f: False
      then have "length (dec (n div 10)) = 1" by (subst dec.simps) simp
      then show ?thesis using l False by simp
    qed
  qed
qed

subsection \<open>The reply\<close>

lemma layers_len_less: "cs \<noteq> [] \<Longrightarrow> layers_len cs < length (enc_layers cs)"
proof (induction cs)
  case (Cons c cs)
  have "0 < length (dec (layer_len c))" by simp
  then show ?case using Cons by (cases "cs = []") (auto simp: layers_len_def layer_len_def ascii_def)
qed simp

lemma layers_len_pos: "cs \<noteq> [] \<Longrightarrow> 0 < layers_len cs"
  by (cases cs) (simp_all add: layers_len_def layer_len_def)

lemma enc_args_Nil [simp]: "enc_args as = [] \<longleftrightarrow> as = []"
  by (cases as) (simp_all add: ascii_def)

lemma last_enc_args: "as \<noteq> [] \<Longrightarrow> last (enc_args as) = 59"
  by (induction as) (auto simp: ascii_def)

lemma drop_front: "drop p m = xs \<Longrightarrow> xs \<noteq> [] \<Longrightarrow> drop p (m @ t) = xs @ t"
  by (cases "p < length m") auto

lemma last_enc_layers: "cs \<noteq> [] \<Longrightarrow> \<forall>c \<in> set cs. layer_ok c \<Longrightarrow> last (enc_layers cs) = 59"
proof (induction cs)
  case (Cons c cs)
  have "cl_args c \<noteq> []" using Cons.prems by (simp add: layer_ok_def)
  then show ?case using Cons last_enc_args [OF \<open>cl_args c \<noteq> []\<close>] by (cases "cs = []") (auto simp: last_append ascii_def)
qed simp

text \<open>The two lists and the transaction identifier, from the groups on.\<close>

lemma parse_reply_lists_enc:
  assumes "drop pos m = pre @ ascii ''2:grl'' @ enc_eids grs @ ascii ''e2:nbl'' @ enc_eids nbs @ ascii ''ee1:t'' @
      dec (length tid) @ ascii '':'' @ tid @ ascii ''1:y1:re''"
    and "memmem_at pre (ascii ''2:grl'') = None"
    and "\<forall>e \<in> set grs. e \<noteq> [] \<and> length e < 2 ^ 63" "\<forall>e \<in> set nbs. e \<noteq> [] \<and> length e < 2 ^ 63"
    and "tid \<noteq> []" "length tid < length tid0" "length tid0 \<le> 16"
  shows "parse_reply_lists (m @ t) (length m) pos tid0 eid ls =
    Dtn_reply tid \<lparr>lr_eid = Some eid, lr_groups = grs, lr_neighbours = nbs, lr_clayer = ls\<rparr>"
proof -
  let ?G = "ascii ''2:grl''" and ?N = "ascii ''e2:nbl''" and ?T = "ascii ''e1:t''"
  let ?tl = "dec (length tid) @ 58 # tid @ ascii ''1:y1:re''"
  let ?nb = "enc_eids nbs @ 101 # ?T @ ?tl" and ?gr = "enc_eids grs @ ?N @ enc_eids nbs @ 101 # ?T @ ?tl"
  have d: "drop pos m = pre @ ?G @ ?gr" using assms(1) by (simp add: ascii_def)
  define p where "p = pos + length pre"
  have len: "length ?G = 5" "length ?N = 6" by (simp_all add: ascii_def)
  have s1: "search_from (m @ t) (length m) pos ?G = Some p"
    unfolding p_def using assms(2) by (intro search_from_found [OF d] memmem_at_behind) (simp_all add: ascii_def)
  have d1: "drop (p + 5) m = ?gr" using drop_more [OF drop_more [OF d]] len by (simp add: p_def)
  have d2: "drop (p + 5 + length (enc_eids grs)) m = [] @ ?N @ ?nb" using drop_more [OF d1] by simp
  define r where "r = p + 5 + length (enc_eids grs)"
  have s2: "search_from (m @ t) (length m) r ?N = Some r"
    using search_from_found [OF d2] by (simp add: r_def ascii_def)
  have d3: "drop (r + 6) m = ?nb" using drop_more [of r m ?N ?nb] d2 len by (simp add: r_def)
  have d4: "drop (r + 6 + length (enc_eids nbs)) m = [101] @ ?T @ ?tl" using drop_more [OF d3] by simp
  define u where "u = r + 6 + length (enc_eids nbs)"
  have s3: "search_from (m @ t) (length m) u ?T = Some (u + 1)"
    using search_from_found [OF d4] by (simp add: u_def ascii_def)
  have d5: "drop (u + 5) m = ?tl" using drop_more [of u m "[101] @ ?T" ?tl] d4 by (simp add: u_def ascii_def)
  have le: "u + 5 < length m" "length m - (u + 5) = length ?tl" using arg_cong [OF d5, of length] by simp_all
  have eids: "parse_dtn_eid_list (m @ t) (p + 5) (length m - (p + 5)) = Some (length (enc_eids grs), grs)"
    "parse_dtn_eid_list (m @ t) (r + 6) (length m - (r + 6)) = Some (length (enc_eids nbs), nbs)"
    using parse_eids_enc [OF assms(3), of "p + 5" "m @ t" "ascii ''2:nbl'' @ ?nb @ t"] drop_front [OF d1, of t]
      parse_eids_enc [OF assms(4), of "r + 6" "m @ t" "?T @ ?tl @ t"] drop_front [OF d3, of t] le(1)
    by (simp_all add: u_def r_def ascii_def)
  have "string_at (m @ t) (length m) (u + 5) (length tid0) = Some tid"
    using assms(5-7) le drop_front [OF d5, of t] by (intro string_at_dec [where rest = "ascii ''1:y1:re'' @ t"]) simp_all
  then show ?thesis
    using s1 eids s2 s3 assms(5) by (simp add: parse_reply_lists_def parse_reply_tid_def r_def u_def add.commute add.left_commute)
qed

lemma parse_dtn_reply_enc:
  assumes "dtninfo_msg tid eid cls nbs grs = Some m" "length m < 4096" "cls \<noteq> []" "\<forall>c \<in> set cls. layer_ok c" "5 < length eid"
    and "\<forall>e \<in> set (grs @ nbs). e \<noteq> [] \<and> length e < 2 ^ 63" "tid \<noteq> []" "length tid < length tid0" "length tid0 \<le> 16"
    and "memmem_at (enc_layers cls) (ascii ''e3:eid'') = None" "memmem_at eid (ascii ''2:grl'') = None"
  shows "parse_dtn_reply (m @ 0 # rest) (length m) sa tid0 =
      Dtn_reply tid \<lparr>lr_eid = Some eid, lr_groups = grs, lr_neighbours = nbs, lr_clayer = map (with_ip sa) cls\<rparr>"
    and "take 10 (m @ 0 # rest) = ascii ''d1:rd2:cll''"
proof -
  let ?M = "m @ 0 # rest" and ?E = "ascii ''e3:eid''" and ?D = "dec (length eid)" and ?k = "layers_len cls"
  define lists where "lists = ascii ''2:grl'' @ enc_eids grs @ ascii ''e2:nbl'' @ enc_eids nbs @ ascii ''ee1:t'' @
      dec (length tid) @ ascii '':'' @ tid @ ascii ''1:y1:re''"
  have m: "m = ascii ''d1:rd2:cll'' @ enc_layers cls @ ?E @ ?D @ 58 # eid @ lists"
    using dtninfo_msg_eq [OF assms(1,2)] by (simp add: lists_def) (simp add: ascii_def)
  have d10: "drop 10 m = enc_layers cls @ ?E @ ?D @ 58 # eid @ lists" unfolding m by (simp add: ascii_def)
  have "parse_dtn_convergence_layer ?M 10 (length m - 10) sa = Inr (?k, map (with_ip sa) cls)"
  proof (rule parse_layers_enc [OF assms(4), where rest = "ascii ''3:eid'' @ ?D @ 58 # eid @ lists @ 0 # rest"])
    show "drop 10 ?M = enc_layers cls @ 101 # ascii ''3:eid'' @ ?D @ 58 # eid @ lists @ 0 # rest"
      using drop_front [OF d10] by (simp add: ascii_def)
  qed (use arg_cong [OF d10, of length] in simp)
  moreover have k: "0 < ?k" "?k < length (enc_layers cls)"
    using assms(3) layers_len_less [OF assms(3)] layers_len_pos [OF assms(3)] by simp_all
  define p where "p = 10 + length (enc_layers cls)"
  have "search_from ?M (length m) (10 + ?k) ?E = Some (10 + ?k + length (drop ?k (enc_layers cls)))"
  proof (rule search_from_found [where ys = "?D @ 58 # eid @ lists"])
    show "drop (10 + ?k) m = drop ?k (enc_layers cls) @ ?E @ ?D @ 58 # eid @ lists"
      using arg_cong [OF d10, of "drop ?k"] k(2) by (simp add: add.commute)
    have "last (drop ?k (enc_layers cls)) \<notin> set ?E"
      using last_enc_layers [OF assms(3,4)] k(2) by (simp add: ascii_def)
    then show "memmem_at (drop ?k (enc_layers cls) @ ?E @ ?D @ 58 # eid @ lists) ?E = Some (length (drop ?k (enc_layers cls)))"
      using assms(10) by (intro memmem_at_behind_sep memmem_at_drop) (simp_all add: ascii_def)
  qed (simp add: ascii_def)
  then have "search_from ?M (length m) (10 + ?k) ?E = Some p" using k(2) by (simp add: p_def)
  moreover have d1: "drop (p + 6) m = ?D @ 58 # eid @ lists"
    using drop_more [of 10 m "enc_layers cls @ ?E"] d10 by (simp add: p_def ascii_def ac_simps)
  have "length eid < 2 ^ 63" using assms(2) unfolding m by simp
  then have "strtol ?M (p + 6) = (int (length eid), p + 6 + length ?D)" "rd ?M (p + 6 + length ?D) = 58"
    using strtol_dec [of "p + 6" ?M "length eid" 58 "eid @ lists @ 0 # rest"] drop_front [OF d1, of "0 # rest"]
    by (simp_all add: is_digit_def)
  moreover have d2: "drop (p + 6 + length ?D + 1) m = eid @ lists"
    using drop_more [of "p + 6" m "?D @ [58]"] d1 by simp
  moreover have ne: "eid @ lists \<noteq> []" using assms(5) by auto
  have "slice (p + 6 + length ?D + 1) (length eid) ?M = eid" using drop_front [OF d2 ne] by (simp add: slice_def)
  moreover have "\<not> length m < p + 6 + length ?D + 1 + length eid"
    using arg_cong [OF d2, of length] assms(5) by simp
  moreover have "length ?D < length eid" using length_dec_less assms(5) by simp
  then have "p + 6 + length eid = p + 6 + length ?D + 1 + (length eid - Suc (length ?D))" by simp
  then have "drop (p + 6 + length eid) m = drop (length eid - Suc (length ?D)) (drop (p + 6 + length ?D + 1) m)"
    by (simp only: drop_drop add.commute)
  then have "drop (p + 6 + length eid) m = drop (length eid - Suc (length ?D)) eid @ lists"
    unfolding d2 by simp
  then have "parse_reply_lists ?M (length m) (p + 6 + length eid) tid0 eid (map (with_ip sa) cls) =
      Dtn_reply tid \<lparr>lr_eid = Some eid, lr_groups = grs, lr_neighbours = nbs, lr_clayer = map (with_ip sa) cls\<rparr>"
    using assms(6-9) memmem_at_drop [OF assms(11)]
    by (intro parse_reply_lists_enc) (simp_all add: lists_def ascii_def)
  ultimately show "parse_dtn_reply ?M (length m) sa tid0 =
      Dtn_reply tid \<lparr>lr_eid = Some eid, lr_groups = grs, lr_neighbours = nbs, lr_clayer = map (with_ip sa) cls\<rparr>"
    using k(1) assms(5) by (simp add: parse_dtn_reply_def)
  show "take 10 ?M = ascii ''d1:rd2:cll''" unfolding m by (simp add: ascii_def)
qed

text \<open>
  C7: the information a node gives about itself survives the wire. What \<^verbatim>\<open>send_dtninfo\<close> writes for a node with
  at least one convergence layer, every layer with at least one argument and no separator in its texts,
  \<^verbatim>\<open>parse_dtn_message\<close> reads back: the same identifier, groups, neighbours and layers in the same order, the
  address of the sender put in front of the arguments of its IP layers, and the same transaction identifier. The
  identifier is longer than five bytes (the parser insists), and the layers and the identifier do not hold
  the field names the parser searches behind them.
\<close>

theorem dtn_reply_roundtrip:
  assumes "dtninfo_msg tid eid cls nbs grs = Some m" "length m < 4096" "cls \<noteq> []" "\<forall>c \<in> set cls. layer_ok c" "5 < length eid"
    and "\<forall>e \<in> set (grs @ nbs). e \<noteq> [] \<and> length e < 2 ^ 63" "tid \<noteq> []" "length tid < length tid0" "length tid0 \<le> 16"
    and "memmem_at (enc_layers cls) (ascii ''e3:eid'') = None" "memmem_at eid (ascii ''2:grl'') = None"
  shows "parse_dtn_message (m @ 0 # rest) (length m) sa tid0 =
    Dtn_reply tid \<lparr>lr_eid = Some eid, lr_groups = grs, lr_neighbours = nbs, lr_clayer = map (with_ip sa) cls\<rparr>"
  using parse_dtn_reply_enc [OF assms] by (simp add: parse_dtn_message_def rd_append_end ascii_def)

text \<open>The reply as a message format; the reader knows the address \<open>sa\<close> it came from.\<close>

type_synonym node_info = "mem \<times> mem \<times> convergence_layer list \<times> mem list \<times> mem list"

definition info_ok :: "mem \<Rightarrow> node_info \<Rightarrow> bool" where
  "info_ok tid0 = (\<lambda>(tid, eid, cls, nbs, grs). cls \<noteq> [] \<and> (\<forall>c \<in> set cls. layer_ok c) \<and> 5 < length eid \<and>
     (\<forall>e \<in> set (grs @ nbs). e \<noteq> [] \<and> length e < 2 ^ 63) \<and> tid \<noteq> [] \<and> length tid < length tid0 \<and> length tid0 \<le> 16 \<and>
     memmem_at (enc_layers cls) (ascii ''e3:eid'') = None \<and> memmem_at eid (ascii ''2:grl'') = None \<and>
     (\<forall>m. dtninfo_msg tid eid cls nbs grs = Some m \<longrightarrow> length m < 4096))"

definition info_view :: "mem \<Rightarrow> node_info \<Rightarrow> dtn_parse" where
  "info_view sa = (\<lambda>(tid, eid, cls, nbs, grs).
     Dtn_reply tid \<lparr>lr_eid = Some eid, lr_groups = grs, lr_neighbours = nbs, lr_clayer = map (with_ip sa) cls\<rparr>)"

interpretation info: wire_format "\<lambda>(tid, eid, cls, nbs, grs). dtninfo_msg tid eid cls nbs grs"
  "\<lambda>m. parse_dtn_reply (m @ [0]) (length m) sa tid0" "info_view sa" "info_ok tid0" for sa tid0
proof
  fix x :: node_info and m :: mem
  obtain tid eid cls nbs grs where x: "x = (tid, eid, cls, nbs, grs)" using prod_cases5 by blast
  assume "info_ok tid0 x" "(case x of (tid, eid, cls, nbs, grs) \<Rightarrow> dtninfo_msg tid eid cls nbs grs) = Some m"
  then show "parse_dtn_reply (m @ [0]) (length m) sa tid0 = info_view sa x"
    by (auto simp: x info_ok_def info_view_def intro!: parse_dtn_reply_enc(1))
qed

lemma with_ip_inj: "with_ip sa c = with_ip sa d \<Longrightarrow> c = d"
  by (cases c, cases d) (auto simp: with_ip_def split: if_splits)

text \<open>Nodes that describe themselves with the same bytes are the same in every respect.\<close>

lemma reply_names_node:
  assumes "info_ok tid0 x" "info_ok tid0 y" "(\<lambda>(tid, eid, cls, nbs, grs). dtninfo_msg tid eid cls nbs grs) x = Some m"
    "(\<lambda>(tid, eid, cls, nbs, grs). dtninfo_msg tid eid cls nbs grs) y = Some m"
  shows "x = y"
proof (rule info.emit_inj [OF _ assms])
  show "inj_on (info_view []) (Collect (info_ok tid0))"
    by (auto intro!: inj_onI simp: info_view_def dest!: map_inj_on intro: with_ip_inj inj_onI)
qed

text \<open>A node with the usual TCP layer, a group and a neighbour, seen from \<^verbatim>\<open>10.0.0.1\<close>.\<close>

definition tcp_layer :: convergence_layer where
  "tcp_layer = \<lparr>clname = ascii ''tcp'', cl_args = [\<lparr>arg_key = ascii ''port'', arg_value = ascii ''4556''\<rparr>]\<rparr>"

lemma dtn_reply_roundtrip_witness:
  "\<exists>m. dtninfo_msg [1, 2] (ascii ''dtn://a'') [tcp_layer] [ascii ''dtn://n''] [ascii ''dtn://g''] = Some m \<and>
     parse_dtn_message (m @ [0]) (length m) ([2, 0, 17, 204, 10, 0, 0, 1] @ replicate 8 0) (replicate 16 0) =
       Dtn_reply [1, 2] \<lparr>lr_eid = Some (ascii ''dtn://a''), lr_groups = [ascii ''dtn://g''], lr_neighbours = [ascii ''dtn://n''],
         lr_clayer = [with_ip ([2, 0, 17, 204, 10, 0, 0, 1] @ replicate 8 0) tcp_layer]\<rparr> \<and>
     cl_args (with_ip ([2, 0, 17, 204, 10, 0, 0, 1] @ replicate 8 0) tcp_layer) =
       [\<lparr>arg_key = ascii ''ip'', arg_value = ascii ''10.0.0.1''\<rparr>, \<lparr>arg_key = ascii ''port'', arg_value = ascii ''4556''\<rparr>]"
proof -
  let ?sa = "[2, 0, 17, 204, 10, 0, 0, 1] @ replicate 8 0 :: mem"
  have "dtninfo_msg [1, 2] (ascii ''dtn://a'') [tcp_layer] [ascii ''dtn://n''] [ascii ''dtn://g''] =
      Some (ascii ''d1:rd2:cll19:name=tcp;port=4556;e3:eid7:dtn://a2:grl7:dtn://ge2:nbl7:dtn://nee1:t2:'' @ [1, 2] @ ascii ''1:y1:re'')"
    by code_simp
  then obtain m where m: "dtninfo_msg [1, 2] (ascii ''dtn://a'') [tcp_layer] [ascii ''dtn://n''] [ascii ''dtn://g''] = Some m"
    "length m < 4096" by (simp add: ascii_def)
  have l: "\<forall>c \<in> set [tcp_layer]. layer_ok c"
    by (simp add: layer_ok_def tcp_layer_def arg_ok_def layer_len_def args_len_def ascii_def)
  have n: "memmem_at (enc_layers [tcp_layer]) (ascii ''e3:eid'') = None" "memmem_at (ascii ''dtn://a'') (ascii ''2:grl'') = None"
    by code_simp+
  have "parse_dtn_message (m @ [0]) (length m) ?sa (replicate 16 0) =
      Dtn_reply [1, 2] \<lparr>lr_eid = Some (ascii ''dtn://a''), lr_groups = [ascii ''dtn://g''], lr_neighbours = [ascii ''dtn://n''],
         lr_clayer = map (with_ip ?sa) [tcp_layer]\<rparr>"
    by (rule dtn_reply_roundtrip [OF m _ l _ _ _ _ _ n]) (simp_all add: ascii_def)
  moreover have "cl_args (with_ip ?sa tcp_layer) =
       [\<lparr>arg_key = ascii ''ip'', arg_value = ascii ''10.0.0.1''\<rparr>, \<lparr>arg_key = ascii ''port'', arg_value = ascii ''4556''\<rparr>]"
    by code_simp
  ultimately show ?thesis using m(1) by simp
qed

text \<open>Without a convergence layer the parser rejects the message: the length it reads for the layers is zero.\<close>

lemma layerless_reply_unreadable:
  assumes "dtninfo_msg tid eid [] nbs grs = Some m" "length m < 4096"
  shows "parse_dtn_message (m @ 0 # rest) (length m) sa tid0 = Dtn_none tid0"
proof -
  let ?M = "m @ 0 # rest"
  have "take 10 ?M = ascii ''d1:rd2:cll''" "rd ?M 10 = 101"
    using dtninfo_msg_eq [OF assms] by (simp_all add: ascii_def rd_def)
  then show ?thesis
    by (simp add: parse_dtn_message_def parse_dtn_reply_def rd_append_end ascii_def parse_dtn_convergence_layer.simps)
qed

text \<open>
  C9: the program's own replies can trigger the double release. What \<^verbatim>\<open>send_dtninfo\<close> writes for a node that
  has a convergence layer without arguments behind at least one readable layer, whatever comes after it, is read by
  \<^verbatim>\<open>parse_dtn_message\<close> so that \<^verbatim>\<open>parse_dtn_convergence_layer\<close> has released the structure of the first
  layer when its caller releases it again, whoever sent it.
\<close>

theorem own_reply_double_free:
  assumes "dtninfo_msg tid eid (ls @ l # ls') nbs grs = Some m" "length m < 4096" "ls \<noteq> []" "\<forall>c \<in> set ls. layer_ok c"
    "cl_args l = []" "59 \<notin> set (clname l)"
  shows "parse_dtn_message (m @ 0 # rest) (length m) sa tid0 = Dtn_double_free"
proof -
  let ?M = "m @ 0 # rest" and ?ls = "ls @ l # ls'"
  obtain xs where m: "m = ascii ''d1:rd2:cll'' @ enc_layers ?ls @ 101 # xs"
    using dtninfo_msg_eq [OF assms(1,2)] by (simp add: ascii_def)
  have d10: "drop 10 m = enc_layers ?ls @ 101 # xs" unfolding m by (simp add: ascii_def)
  have "length (clname l) \<le> length m" unfolding m by (simp add: enc_layers_append)
  then have "layer_len l < 2 ^ 63" using assms(2,5) by (simp add: layer_len_def args_len_def)
  moreover have "drop 10 ?M = enc_layers ?ls @ 101 # xs @ 0 # rest" using drop_front [OF d10] by simp
  moreover have "length (enc_layers ?ls) \<le> length m - 10" using arg_cong [OF d10, of length] by simp
  ultimately have "parse_dtn_convergence_layer ?M 10 (length m - 10) sa = Inl Freed"
    using parse_layers_argless [OF assms(4-6)] assms(3) by simp
  moreover have "take 10 ?M = ascii ''d1:rd2:cll''" unfolding m by (simp add: ascii_def)
  ultimately show ?thesis by (simp add: parse_dtn_message_def parse_dtn_reply_def rd_append_end ascii_def)
qed

lemma own_reply_double_free_witness:
  "\<exists>m. dtninfo_msg [1, 2] (ascii ''dtn://a'') [tcp_layer, \<lparr>clname = ascii ''email'', cl_args = []\<rparr>] [] [] = Some m \<and>
     parse_dtn_message (m @ [0]) (length m) [] (replicate 16 0) = Dtn_double_free"
proof -
  let ?ls = "[tcp_layer] @ [\<lparr>clname = ascii ''email'', cl_args = []\<rparr>]"
  obtain m where m: "dtninfo_msg [1, 2] (ascii ''dtn://a'') ?ls [] [] = Some m" "length m < 4096"
    by (simp add: dtninfo_msg_def put_fmt_def put_mem_def tcp_layer_def ascii_def args_len_def dec.simps)
  have "layer_ok tcp_layer" by (simp add: layer_ok_def tcp_layer_def arg_ok_def layer_len_def args_len_def ascii_def)
  with own_reply_double_free [OF m, of "[]" "[]" "replicate 16 0"] m(1) show ?thesis by (simp add: ascii_def)
qed

end
