(* ===== verification/Sha1_Test.thy ===== *)
theory Sha1_Test
  imports Sha1_Correct
begin

text \<open>
  The rest of \<^verbatim>\<open>sha1.c\<close>: the digest of a file and the self-test with its tables, which are compiled with
  \<^verbatim>\<open>POLARSSL_FS_IO\<close> and \<^verbatim>\<open>POLARSSL_SELF_TEST\<close>.
\<close>

subsection \<open>Digest of a file\<close>

definition POLARSSL_ERR_SHA1_FILE_IO_ERROR :: int where "POLARSSL_ERR_SHA1_FILE_IO_ERROR = - 0x0076"

text \<open>The successive answers of \<^verbatim>\<open>fread\<close>; an empty one ends the loop.\<close>

fun update_all :: "sha1_context \<Rightarrow> mem list \<Rightarrow> sha1_context" where
  "update_all ctx [] = ctx"
| "update_all ctx (b # bs) = (if length b > 0 then update_all (sha1_update ctx b) bs else ctx)"

text \<open>\<open>f\<close> is the opened file: what the calls of \<^verbatim>\<open>fread\<close> return and whether \<^verbatim>\<open>ferror\<close> is set in the end.\<close>

definition sha1_file :: "(mem list \<times> bool) option \<Rightarrow> int \<times> mem option" where
  "sha1_file f =
     (case f of None \<Rightarrow> (POLARSSL_ERR_SHA1_FILE_IO_ERROR, None)
      | Some (bs, failed) \<Rightarrow>
          let digest = snd (sha1_finish (update_all (sha1_starts sha1_ctx0) bs))
          in (if failed then POLARSSL_ERR_SHA1_FILE_IO_ERROR else 0, Some digest))"

lemma ctx_holds_update_all:
  assumes "ctx_holds ctx m" "length m + length (concat bs) < 2 ^ 32" "\<forall>b \<in> set bs. b \<noteq> []"
  shows "ctx_holds (update_all ctx bs) (m @ concat bs)"
  using assms
proof (induction bs arbitrary: ctx m)
  case (Cons b bs)
  have "ctx_holds (sha1_update ctx b) (m @ b)" by (rule ctx_holds_update) (use Cons.prems in simp_all)
  from Cons.IH [OF this] Cons.prems show ?case by simp
qed simp

text \<open>
  \<^verbatim>\<open>sha1_file\<close> computes the digest of the file. However \<^verbatim>\<open>fread\<close> cuts a file of less than 2 GiB into non-empty pieces,
  the result is 0 with the SHA-1 of the whole contents; a read error is reported.
\<close>

theorem sha1_file_is_sha1:
  assumes "concat bs = contents" "length contents < 2 ^ 31" "\<forall>b \<in> set bs. b \<noteq> []"
    "rest = [] \<or> hd rest = []"
  shows "sha1_file (Some (bs @ rest, failed)) =
    (if failed then POLARSSL_ERR_SHA1_FILE_IO_ERROR else 0, Some (sha1_std contents))"
proof -
  have e: "update_all ctx (bs @ rest) = update_all ctx bs" for ctx
    using assms(3,4) by (induction bs arbitrary: ctx) (cases rest; auto)+
  have "ctx_holds (update_all (sha1_starts sha1_ctx0) bs) ([] @ contents)"
    using ctx_holds_update_all [OF ctx0_starts, of bs] assms by simp
  from sha1_finish_std [OF this] assms(2) show ?thesis by (simp add: sha1_file_def e)
qed

lemma sha1_file_is_sha1_witness:
  "sha1_file (Some ([ascii ''a'', ascii ''bc'', []], False)) = (0, Some (sha1_std (ascii ''abc'')))"
  using sha1_file_is_sha1 [of "[ascii ''a'', ascii ''bc'']" "ascii ''abc''" "[[]]" False] by (simp add: ascii_def)

subsection \<open>The tables of the self-test\<close>

definition sha1_test_buf :: "mem list" where
  "sha1_test_buf = [ascii ''abc'', ascii ''abcdbcdecdefdefgefghfghighijhijkijkljklmklmnlmnomnopnopq'', []]"

definition sha1_test_sum :: "mem list" where
  "sha1_test_sum =
    [[0xA9, 0x99, 0x3E, 0x36, 0x47, 0x06, 0x81, 0x6A, 0xBA, 0x3E,
      0x25, 0x71, 0x78, 0x50, 0xC2, 0x6C, 0x9C, 0xD0, 0xD8, 0x9D],
     [0x84, 0x98, 0x3E, 0x44, 0x1C, 0x3B, 0xD2, 0x6E, 0xBA, 0xAE,
      0x4A, 0xA1, 0xF9, 0x51, 0x29, 0xE5, 0xE5, 0x46, 0x70, 0xF1],
     [0x34, 0xAA, 0x97, 0x3C, 0xD4, 0xC4, 0xDA, 0xA4, 0xF6, 0x1E,
      0xEB, 0x2B, 0xDB, 0xAD, 0x27, 0x31, 0x65, 0x34, 0x01, 0x6F]]"

definition sha1_hmac_test_key :: "mem list" where
  "sha1_hmac_test_key =
    [replicate 20 0x0B, ascii ''Jefe'', replicate 20 0xAA,
     [0x01, 0x02, 0x03, 0x04, 0x05, 0x06, 0x07, 0x08, 0x09, 0x0A, 0x0B, 0x0C, 0x0D, 0x0E, 0x0F, 0x10,
      0x11, 0x12, 0x13, 0x14, 0x15, 0x16, 0x17, 0x18, 0x19],
     replicate 20 0x0C, [], []]"

definition sha1_hmac_test_buf :: "mem list" where
  "sha1_hmac_test_buf =
    [ascii ''Hi There'', ascii ''what do ya want for nothing?'', replicate 50 0xDD, replicate 50 0xCD,
     ascii ''Test With Truncation'', ascii ''Test Using Larger Than Block-Size Key - Hash Key First'',
     ascii ''Test Using Larger Than Block-Size Key and Larger'' @ ascii '' Than One Block-Size Data'']"

definition sha1_hmac_test_sum :: "mem list" where
  "sha1_hmac_test_sum =
    [[0xB6, 0x17, 0x31, 0x86, 0x55, 0x05, 0x72, 0x64, 0xE2, 0x8B,
      0xC0, 0xB6, 0xFB, 0x37, 0x8C, 0x8E, 0xF1, 0x46, 0xBE, 0x00],
     [0xEF, 0xFC, 0xDF, 0x6A, 0xE5, 0xEB, 0x2F, 0xA2, 0xD2, 0x74,
      0x16, 0xD5, 0xF1, 0x84, 0xDF, 0x9C, 0x25, 0x9A, 0x7C, 0x79],
     [0x12, 0x5D, 0x73, 0x42, 0xB9, 0xAC, 0x11, 0xCD, 0x91, 0xA3,
      0x9A, 0xF4, 0x8A, 0xA1, 0x7B, 0x4F, 0x63, 0xF1, 0x75, 0xD3],
     [0x4C, 0x90, 0x07, 0xF4, 0x02, 0x62, 0x50, 0xC6, 0xBC, 0x84,
      0x14, 0xF9, 0xBF, 0x50, 0xC8, 0x6C, 0x2D, 0x72, 0x35, 0xDA],
     [0x4C, 0x1A, 0x03, 0x42, 0x4B, 0x55, 0xE0, 0x7F, 0xE7, 0xF2, 0x7B, 0xE1] @ replicate 8 0,
     [0xAA, 0x4A, 0xE5, 0xE1, 0x52, 0x72, 0xD0, 0x0E, 0x95, 0x70,
      0x56, 0x37, 0xCE, 0x8A, 0x3B, 0x55, 0xED, 0x40, 0x21, 0x12],
     [0xE8, 0xE9, 0x9D, 0x0F, 0x45, 0x23, 0x7D, 0x78, 0x6D, 0x6B,
      0xBA, 0xA7, 0x96, 0x5C, 0x78, 0x08, 0xBB, 0xFF, 0x1A, 0x91]]"

subsection \<open>The self-test\<close>

text \<open>
  The two loops share the local context: what a test leaves in it is where the next one starts. The second component
  of a result is the text printed.
\<close>

definition sha1_test_sums :: "nat \<Rightarrow> sha1_context \<Rightarrow> sha1_context \<times> mem" where
  "sha1_test_sums i ctx =
     (let ctx = sha1_starts ctx;
          ctx = (if i = 2 then ((\<lambda>ctx. sha1_update ctx (replicate 1000 97)) ^^ 1000) ctx
                 else sha1_update ctx (sha1_test_buf ! i))
      in sha1_finish ctx)"

definition hmac_test_sums :: "nat \<Rightarrow> sha1_context \<Rightarrow> sha1_context \<times> mem" where
  "hmac_test_sums i ctx =
     (let ctx = (if i = 5 \<or> i = 6 then sha1_hmac_starts ctx (replicate 80 0xAA)
                 else sha1_hmac_starts ctx (sha1_hmac_test_key ! i))
      in sha1_hmac_finish (sha1_hmac_update ctx (sha1_hmac_test_buf ! i)))"

fun sha1_tests :: "bool \<Rightarrow> nat list \<Rightarrow> sha1_context \<Rightarrow> mem \<Rightarrow> bool \<times> sha1_context \<times> mem" where
  "sha1_tests verbose [] ctx out = (True, ctx, out)"
| "sha1_tests verbose (i # is) ctx out =
     (let out = (if verbose then out @ ascii ''  SHA-1 test #'' @ [word_of_nat (49 + i)] @ ascii '': '' else out);
          (ctx, md) = sha1_test_sums i ctx
      in if memcmp md (sha1_test_sum ! i) 20 \<noteq> 0
         then (False, ctx, if verbose then out @ ascii ''failed'' @ [10] else out)
         else sha1_tests verbose is ctx (if verbose then out @ ascii ''passed'' @ [10] else out))"

fun hmac_tests :: "bool \<Rightarrow> nat list \<Rightarrow> sha1_context \<Rightarrow> mem \<Rightarrow> bool \<times> sha1_context \<times> mem" where
  "hmac_tests verbose [] ctx out = (True, ctx, out)"
| "hmac_tests verbose (i # is) ctx out =
     (let out = (if verbose then out @ ascii ''  HMAC-SHA-1 test #'' @ [word_of_nat (49 + i)] @ ascii '': '' else out);
          (ctx, md) = hmac_test_sums i ctx
      in if memcmp md (sha1_hmac_test_sum ! i) (if i = 4 then 12 else 20) \<noteq> 0
         then (False, ctx, if verbose then out @ ascii ''failed'' @ [10] else out)
         else hmac_tests verbose is ctx (if verbose then out @ ascii ''passed'' @ [10] else out))"

text \<open>\<open>ctx\<close> is the uninitialised local context.\<close>

definition sha1_self_test :: "sha1_context \<Rightarrow> bool \<Rightarrow> int \<times> mem" where
  "sha1_self_test ctx verbose =
     (let (ok, ctx, out) = sha1_tests verbose [0..<3] ctx [] in
      if \<not> ok then (1, out)
      else
        let out = (if verbose then out @ [10] else out); (ok, ctx, out) = hmac_tests verbose [0..<7] ctx out
        in if \<not> ok then (1, out) else (0, if verbose then out @ [10] else out))"

lemma ctx_holds_repeat:
  assumes "ctx_holds ctx m" "length m + n * length x < 2 ^ 32"
  shows "ctx_holds (((\<lambda>ctx. sha1_update ctx x) ^^ n) ctx) (m @ concat (replicate n x))"
  using assms(2)
proof (induction n)
  case (Suc n)
  have l: "length (concat (replicate n x)) = n * length x" by (simp add: length_concat sum_list_replicate)
  have "ctx_holds (sha1_update (((\<lambda>ctx. sha1_update ctx x) ^^ n) ctx) x) ((m @ concat (replicate n x)) @ x)"
    by (rule ctx_holds_update [OF Suc.IH]) (use Suc.prems l in simp_all)
  moreover have "concat (replicate n x) @ x = concat (replicate (Suc n) x)"
    by (metis concat_append concat.simps append_Nil2 replicate_append_same replicate_Suc)
  ultimately show ?case by simp
qed (use assms(1) in simp)

text \<open>The messages and keys the tests are about.\<close>

definition sha1_test_message :: "nat \<Rightarrow> mem" where
  "sha1_test_message i = (if i = 2 then replicate 1000000 97 else sha1_test_buf ! i)"

definition hmac_test_key :: "nat \<Rightarrow> mem" where
  "hmac_test_key i = (if i = 5 \<or> i = 6 then replicate 80 0xAA else sha1_hmac_test_key ! i)"

lemma concat_replicate_same: "concat (replicate n (replicate k x)) = replicate (n * k) x"
  by (induction n) (simp_all add: replicate_add)

lemma test_sums_std:
  assumes "length (buffer ctx) = 64" "i < 3"
  shows "snd (sha1_test_sums i ctx) = sha1_std (sha1_test_message i)"
    "length (buffer (fst (sha1_test_sums i ctx))) = 64"
proof -
  note c = ctx_holds_starts [OF assms(1)]
  have "\<exists>ctx'. sha1_test_sums i ctx = sha1_finish ctx' \<and> ctx_holds ctx' (sha1_test_message i)"
  proof (cases "i = 2")
    case True
    have "ctx_holds (((\<lambda>ctx. sha1_update ctx (replicate 1000 97)) ^^ 1000) (sha1_starts ctx))
        ([] @ concat (replicate 1000 (replicate 1000 97)))"
      by (rule ctx_holds_repeat [OF c]) simp
    then have "ctx_holds (((\<lambda>ctx. sha1_update ctx (replicate 1000 97)) ^^ 1000) (sha1_starts ctx))
        (sha1_test_message i)"
      unfolding concat_replicate_same sha1_test_message_def using True by simp
    then show ?thesis using True by (auto simp: sha1_test_sums_def Let_def)
  next
    case False
    then have "length (sha1_test_buf ! i) < 2 ^ 32"
      using assms(2) by (auto simp: sha1_test_buf_def ascii_def less_Suc_eq numeral_3_eq_3)
    from ctx_holds_update [OF c, of "sha1_test_buf ! i"] this show ?thesis
      using False by (auto simp: sha1_test_sums_def sha1_test_message_def Let_def)
  qed
  then obtain ctx' where e: "sha1_test_sums i ctx = sha1_finish ctx'" and h: "ctx_holds ctx' (sha1_test_message i)" by blast
  have "length (sha1_test_message i) < 2 ^ 31"
    using assms(2) by (auto simp: sha1_test_message_def sha1_test_buf_def ascii_def less_Suc_eq numeral_3_eq_3)
  from sha1_finish_std [OF h this]
  show "snd (sha1_test_sums i ctx) = sha1_std (sha1_test_message i)"
    "length (buffer (fst (sha1_test_sums i ctx))) = 64" unfolding e by simp_all
qed

lemma hmac_sums_std:
  assumes "length (buffer ctx) = 64" "i < 7"
  shows "snd (hmac_test_sums i ctx) = hmac_std (hmac_test_key i) (sha1_hmac_test_buf ! i)"
    "length (buffer (fst (hmac_test_sums i ctx))) = 64"
proof -
  have "i \<in> {0, 1, 2, 3, 4, 5, 6}" using assms(2) by auto
  then have l: "length (hmac_test_key i) < 2 ^ 31" "length (sha1_hmac_test_buf ! i) < 2 ^ 30"
    by (auto simp: hmac_test_key_def sha1_hmac_test_key_def sha1_hmac_test_buf_def ascii_def)
  have "hmac_test_sums i ctx = sha1_hmac_finish (sha1_hmac_update (sha1_hmac_starts ctx (hmac_test_key i)) (sha1_hmac_test_buf ! i))"
    by (simp add: hmac_test_sums_def hmac_test_key_def Let_def)
  then show "snd (hmac_test_sums i ctx) = hmac_std (hmac_test_key i) (sha1_hmac_test_buf ! i)"
    "length (buffer (fst (hmac_test_sums i ctx))) = 64"
    using hmac_steps_std [OF assms(1) l] by simp_all
qed

text \<open>The loops stop at the first wrong sum.\<close>

definition sum_right :: "mem \<Rightarrow> mem \<Rightarrow> nat \<Rightarrow> bool" where
  "sum_right md tab n \<longleftrightarrow> take n md = take n tab"

definition hmac_right :: "nat \<Rightarrow> bool" where
  "hmac_right i \<longleftrightarrow> sum_right (hmac_std (hmac_test_key i) (sha1_hmac_test_buf ! i)) (sha1_hmac_test_sum ! i) (if i = 4 then 12 else 20)"

lemma memcmp_sum: "length x = 20 \<Longrightarrow> length y = 20 \<Longrightarrow> memcmp x y n = 0 \<longleftrightarrow> sum_right x y n"
  by (simp add: memcmp_def bytes_cmp_eq_0 sum_right_def)

lemma sha1_tests_std:
  assumes "length (buffer ctx) = 64" "\<forall>i \<in> set is. i < 3"
  shows "fst (sha1_tests v is ctx out) = (\<forall>i \<in> set is. sum_right (sha1_std (sha1_test_message i)) (sha1_test_sum ! i) 20)"
    "fst (sha1_tests v is ctx out) \<Longrightarrow> length (buffer (fst (snd (sha1_tests v is ctx out)))) = 64"
proof -
  have "fst (sha1_tests v is ctx out) = (\<forall>i \<in> set is. sum_right (sha1_std (sha1_test_message i)) (sha1_test_sum ! i) 20) \<and>
      (fst (sha1_tests v is ctx out) \<longrightarrow> length (buffer (fst (snd (sha1_tests v is ctx out)))) = 64)"
    using assms
  proof (induction v "is" ctx out rule: sha1_tests.induct)
    case (2 v i "is" ctx out)
    have i: "i < 3" using "2.prems"(2) by simp
    then have l: "length (sha1_test_sum ! i) = 20" by (auto simp: sha1_test_sum_def less_Suc_eq numeral_3_eq_3)
    obtain c md where c: "sha1_test_sums i ctx = (c, md)" by fastforce
    note s = test_sums_std [OF "2.prems"(1) i, unfolded c, simplified]
    note ih = "2.IH" [OF refl c [symmetric] refl _ s(2)]
    show ?case using ih "2.prems"(2) s(1) memcmp_sum [OF _ l, of md 20] by (simp add: c Let_def)
  qed simp
  then show "fst (sha1_tests v is ctx out) = (\<forall>i \<in> set is. sum_right (sha1_std (sha1_test_message i)) (sha1_test_sum ! i) 20)"
    "fst (sha1_tests v is ctx out) \<Longrightarrow> length (buffer (fst (snd (sha1_tests v is ctx out)))) = 64" by blast+
qed

lemma hmac_tests_std:
  assumes "length (buffer ctx) = 64" "\<forall>i \<in> set is. i < 7"
  shows "fst (hmac_tests v is ctx out) = (\<forall>i \<in> set is. hmac_right i)"
  using assms
proof (induction v "is" ctx out rule: hmac_tests.induct)
  case (2 v i "is" ctx out)
  have i: "i < 7" using "2.prems"(2) by simp
  then have "i \<in> {0, 1, 2, 3, 4, 5, 6}" by auto
  then have l: "length (sha1_hmac_test_sum ! i) = 20" by (auto simp: sha1_hmac_test_sum_def)
  obtain c md where c: "hmac_test_sums i ctx = (c, md)" by fastforce
  note s = hmac_sums_std [OF "2.prems"(1) i, unfolded c, simplified]
  note ih = "2.IH" [OF refl c [symmetric] refl _ s(2)]
  have ls: "length md = 20" by (simp add: s(1) hmac_std_def Let_def)
  show ?case using ih "2.prems"(2) s(1) memcmp_sum [OF ls l] by (simp add: c hmac_right_def Let_def)
qed simp

text \<open>
  C31: the self-test tests the standard. Whatever its uninitialised context holds, \<^verbatim>\<open>sha1_self_test\<close> returns 0 exactly if the three
  tabled digests are the FIPS 180 digests of their messages (the last one fed in a thousand pieces of a
  thousand bytes), and the seven tabled codes are the HMACs of RFC 2104, the fifth in its first 12 bytes; otherwise it returns 1.
\<close>

theorem self_test_checks_standard:
  assumes "length (buffer ctx) = 64"
  shows "fst (sha1_self_test ctx verbose) =
    (if (\<forall>i < 3. sha1_std (sha1_test_message i) = sha1_test_sum ! i) \<and>
        (\<forall>i < 7. hmac_right i)
     then 0 else 1)"
proof -
  obtain ok c out where t: "sha1_tests verbose [0..<3] ctx [] = (ok, c, out)" using prod_cases3 by blast
  note s = sha1_tests_std [OF assms, of "[0..<3]" verbose "[]", unfolded t, simplified]
  have "sum_right (sha1_std m) (sha1_test_sum ! i) 20 \<longleftrightarrow> sha1_std m = sha1_test_sum ! i" if "i < 3" for m i
  proof -
    have "length (sha1_test_sum ! i) = 20" using that by (auto simp: sha1_test_sum_def less_Suc_eq numeral_3_eq_3)
    then show ?thesis by (simp add: sum_right_def)
  qed
  then have o: "ok \<longleftrightarrow> (\<forall>i < 3. sha1_std (sha1_test_message i) = sha1_test_sum ! i)" using s(1) by auto
  show ?thesis
  proof (cases ok)
    case True
    define q where "q = (if verbose then out @ [10] else out)"
    have "sha1_self_test ctx verbose = (let (ok, ctx, out) = hmac_tests verbose [0..<7] c q
        in if \<not> ok then (1, out) else (0, if verbose then out @ [10] else out))"
      unfolding sha1_self_test_def t Let_def prod.case q_def using True by simp
    then have "fst (sha1_self_test ctx verbose) = (if \<forall>i \<in> set [0..<7]. hmac_right i then 0 else 1)"
      using hmac_tests_std [OF s(2) [OF True], of "[0..<7]" verbose q] by (simp add: case_prod_unfold Let_def)
    then show ?thesis using True o by auto
  next
    case False
    then show ?thesis using o by (auto simp: sha1_self_test_def t)
  qed
qed

lemma self_test_checks_standard_witness:
  "fst (sha1_self_test sha1_ctx0 False) = fst (sha1_self_test (sha1_ctx0\<lparr>buffer := replicate 64 255, total0 := 7\<rparr>) True)"
  using self_test_checks_standard [of sha1_ctx0 False]
    self_test_checks_standard [of "sha1_ctx0\<lparr>buffer := replicate 64 255, total0 := 7\<rparr>" True]
  by (simp add: sha1_ctx0_def)

end
