(* ===== verification/Result_Memory.thy ===== *)
theory Result_Memory
  imports Dht_State
begin

text \<open>
  The memory of look-up results: the structures of \<^verbatim>\<open>dtndht.h\<close> and the functions of \<^verbatim>\<open>utils.c\<close> that create and free
  them, on an explicit heap. An address that is not in the map is not allocated; using or freeing it sets
  \<open>fault\<close>, which nothing resets. The functions that free are recursive along pointers, so they may run forever on a
  cyclic list: they return None then.
\<close>

subsection \<open>Heap\<close>

type_synonym addr = nat

datatype cell =
    Bytes mem
  | Dtn_eid (c_eid: addr) (c_eidlen: nat) (c_next: addr)
  | Cl_arg (c_key: addr) (c_keylen: nat) (c_value: addr) (c_valuelen: nat) (c_next: addr)
  | Clayer (c_clname: addr) (c_clnamelen: nat) (c_args: addr) (c_next: addr)
  | Result (c_reid: addr) (c_clayer: addr) (c_neighbours: addr) (c_groups: addr)

record heap =
  cells :: "addr \<rightharpoonup> cell"
  fault :: bool

definition c_fault :: "heap \<Rightarrow> heap" where
  "c_fault h = h\<lparr>fault := True\<rparr>"

text \<open>\<^verbatim>\<open>free\<close>; freeing \<^verbatim>\<open>NULL\<close> does nothing.\<close>

definition c_free :: "addr \<Rightarrow> heap \<Rightarrow> heap" where
  "c_free p h = (if p = 0 then h else if cells h p = None then c_fault h else h\<lparr>cells := (cells h)(p := None)\<rparr>)"

text \<open>\<^verbatim>\<open>malloc\<close> that succeeds, at the address \<open>a\<close>, with the fields set afterwards.\<close>

definition c_new :: "addr \<Rightarrow> cell \<Rightarrow> heap \<Rightarrow> addr \<times> heap" where
  "c_new a x h = (a, h\<lparr>cells := (cells h)(a \<mapsto> x)\<rparr>)"

subsection \<open>Creating\<close>

definition create_dtn_dht_lookup_result :: "addr \<Rightarrow> heap \<Rightarrow> addr \<times> heap" where
  "create_dtn_dht_lookup_result a = c_new a (Result 0 0 0 0)"

definition create_dtn_eid :: "addr \<Rightarrow> heap \<Rightarrow> addr \<times> heap" where
  "create_dtn_eid a = c_new a (Dtn_eid 0 0 0)"

definition create_convergence_layer_arg :: "addr \<Rightarrow> heap \<Rightarrow> addr \<times> heap" where
  "create_convergence_layer_arg a = c_new a (Cl_arg 0 0 0 0 0)"

definition create_convergence_layer :: "addr \<Rightarrow> heap \<Rightarrow> addr \<times> heap" where
  "create_convergence_layer a = c_new a (Clayer 0 0 0 0)"

subsection \<open>Freeing\<close>

text \<open>The fields of a structure are read again after the recursive call, as the source does.\<close>

partial_function (option) free_dtn_eid :: "addr \<Rightarrow> heap \<Rightarrow> heap option" where
  "free_dtn_eid p h =
     (if p = 0 then Some h
      else case cells h p of
        Some (Dtn_eid e l n) \<Rightarrow>
          Option.bind (free_dtn_eid n h) (\<lambda>h.
            case cells h p of
              Some (Dtn_eid e l n) \<Rightarrow> Some (c_free p (if e \<noteq> 0 then c_free e h else h))
            | _ \<Rightarrow> Some (c_fault h))
      | _ \<Rightarrow> Some (c_fault h))"

partial_function (option) free_convergence_layer_arg :: "addr \<Rightarrow> heap \<Rightarrow> heap option" where
  "free_convergence_layer_arg p h =
     (if p = 0 then Some h
      else case cells h p of
        Some (Cl_arg k kl v vl n) \<Rightarrow>
          Option.bind (free_convergence_layer_arg n h) (\<lambda>h.
            case cells h p of
              Some (Cl_arg k kl v vl n) \<Rightarrow>
                let h = (if k \<noteq> 0 then c_free k h else h)
                in Some (c_free p (if v \<noteq> 0 then c_free v h else h))
            | _ \<Rightarrow> Some (c_fault h))
      | _ \<Rightarrow> Some (c_fault h))"

partial_function (option) free_convergence_layer :: "addr \<Rightarrow> heap \<Rightarrow> heap option" where
  "free_convergence_layer p h =
     (if p = 0 then Some h
      else case cells h p of
        Some (Clayer nm l as n) \<Rightarrow>
          Option.bind (free_convergence_layer n h) (\<lambda>h.
            case cells h p of
              Some (Clayer nm l as n) \<Rightarrow>
                Option.bind (free_convergence_layer_arg as (if nm \<noteq> 0 then c_free nm h else h)) (\<lambda>h. Some (c_free p h))
            | _ \<Rightarrow> Some (c_fault h))
      | _ \<Rightarrow> Some (c_fault h))"

definition dtn_dht_free_convergence_layer_struct :: "addr \<Rightarrow> heap \<Rightarrow> heap option" where
  "dtn_dht_free_convergence_layer_struct p h = free_convergence_layer p h"

definition free_dtn_dht_lookup_result :: "addr \<Rightarrow> heap \<Rightarrow> heap option" where
  "free_dtn_dht_lookup_result p h =
     (if p = 0 then Some h
      else case cells h p of
        Some (Result e cl nb gr) \<Rightarrow>
          Option.bind (free_dtn_eid e h) (\<lambda>h.
          Option.bind (free_dtn_eid gr h) (\<lambda>h.
          Option.bind (free_dtn_eid nb h) (\<lambda>h.
          Option.bind (free_convergence_layer cl h) (\<lambda>h. Some (c_free p h)))))
      | _ \<Rightarrow> Some (c_fault h))"

subsection \<open>What the structures hold\<close>

text \<open>
  \<open>block h p m B\<close>: the pointer \<open>p\<close> leads to the bytes \<open>m\<close>, or is \<^verbatim>\<open>NULL\<close>; \<open>B\<close> are the addresses that takes. The other
  predicates say the same of the lists: which values they hold and which addresses they take.
\<close>

definition block :: "heap \<Rightarrow> addr \<Rightarrow> mem \<Rightarrow> addr set \<Rightarrow> bool" where
  "block h p m B \<longleftrightarrow> (if p = 0 then m = [] \<and> B = {} else cells h p = Some (Bytes m) \<and> B = {p})"

fun eid_list :: "heap \<Rightarrow> addr \<Rightarrow> mem list \<Rightarrow> addr set \<Rightarrow> bool" where
  "eid_list h p [] A \<longleftrightarrow> p = 0 \<and> A = {}"
| "eid_list h p (e # es) A \<longleftrightarrow> p \<noteq> 0 \<and> (\<exists>q n B C. cells h p = Some (Dtn_eid q (length e) n) \<and> block h q e B \<and>
     eid_list h n es C \<and> A = insert p (B \<union> C) \<and> p \<notin> B \<union> C \<and> B \<inter> C = {})"

fun arg_list :: "heap \<Rightarrow> addr \<Rightarrow> cl_arg list \<Rightarrow> addr set \<Rightarrow> bool" where
  "arg_list h p [] A \<longleftrightarrow> p = 0 \<and> A = {}"
| "arg_list h p (a # as) A \<longleftrightarrow> p \<noteq> 0 \<and> (\<exists>k v n B B' C.
     cells h p = Some (Cl_arg k (length (arg_key a)) v (length (arg_value a)) n) \<and>
     block h k (arg_key a) B \<and> block h v (arg_value a) B' \<and> arg_list h n as C \<and> A = insert p (B \<union> B' \<union> C) \<and>
     p \<notin> B \<union> B' \<union> C \<and> B \<inter> B' = {} \<and> (B \<union> B') \<inter> C = {})"

fun layer_list :: "heap \<Rightarrow> addr \<Rightarrow> convergence_layer list \<Rightarrow> addr set \<Rightarrow> bool" where
  "layer_list h p [] A \<longleftrightarrow> p = 0 \<and> A = {}"
| "layer_list h p (l # ls) A \<longleftrightarrow> p \<noteq> 0 \<and> (\<exists>q a n B B' C.
     cells h p = Some (Clayer q (length (clname l)) a n) \<and>
     block h q (clname l) B \<and> arg_list h a (cl_args l) B' \<and> layer_list h n ls C \<and> A = insert p (B \<union> B' \<union> C) \<and>
     p \<notin> B \<union> B' \<union> C \<and> B \<inter> B' = {} \<and> (B \<union> B') \<inter> C = {})"

text \<open>The identifier of a result is a list of at most one element.\<close>

definition result_at :: "heap \<Rightarrow> addr \<Rightarrow> lookup_result \<Rightarrow> addr set \<Rightarrow> bool" where
  "result_at h p r A \<longleftrightarrow> p \<noteq> 0 \<and> (\<exists>e cl nb gr B C D E. cells h p = Some (Result e cl nb gr) \<and>
     eid_list h e (case lr_eid r of None \<Rightarrow> [] | Some x \<Rightarrow> [x]) B \<and> eid_list h gr (lr_groups r) C \<and>
     eid_list h nb (lr_neighbours r) D \<and> layer_list h cl (lr_clayer r) E \<and> A = insert p (B \<union> C \<union> D \<union> E) \<and>
     p \<notin> B \<union> C \<union> D \<union> E \<and> B \<inter> C = {} \<and> (B \<union> C) \<inter> D = {} \<and> (B \<union> C \<union> D) \<inter> E = {})"

subsection \<open>Freeing what is there\<close>

text \<open>The heap without the addresses of a set.\<close>

definition without :: "addr set \<Rightarrow> heap \<Rightarrow> heap" where
  "without A h = h\<lparr>cells := cells h |` (- A)\<rparr>"

lemma without_simps [simp]:
  "without {} h = h" "without A (without B h) = without (A \<union> B) h" "fault (without A h) = fault h"
  "a \<notin> A \<Longrightarrow> cells (without A h) a = cells h a"
  by (simp_all add: without_def Int_commute Un_commute restrict_map_def [of _ UNIV])

lemma c_free_without: "p \<noteq> 0 \<Longrightarrow> p \<notin> A \<Longrightarrow> cells h p = Some x \<Longrightarrow> c_free p (without A h) = without (insert p A) h"
  by (auto simp: c_free_def without_def restrict_map_def fun_eq_iff intro!: arg_cong [where f = "\<lambda>c. h\<lparr>cells := c\<rparr>"])

lemma block_frame: "block h p m B \<Longrightarrow> A \<inter> B = {} \<Longrightarrow> block (without A h) p m B"
  by (auto simp: block_def split: if_splits)

lemma free_block:
  "block h p m B \<Longrightarrow> A \<inter> B = {} \<Longrightarrow> (if p \<noteq> 0 then c_free p (without A h) else without A h) = without (A \<union> B) h"
  using c_free_without [of p A h] by (auto simp: block_def Un_commute)

lemma eid_list_frame: "eid_list h p es B \<Longrightarrow> A \<inter> B = {} \<Longrightarrow> eid_list (without A h) p es B"
proof (induction h p es B rule: eid_list.induct)
  case (2 h p e es B)
  then obtain q n C D where "cells h p = Some (Dtn_eid q (length e) n)" "block h q e C" "eid_list h n es D"
    "B = insert p (C \<union> D)" "p \<notin> C \<union> D" "C \<inter> D = {}" "p \<noteq> 0" by auto
  moreover from this have "eid_list (without A h) n es D" "block (without A h) q e C" "p \<notin> A"
    using "2.IH" [of n D] "2.prems"(2) block_frame [of h q e C A] by auto
  ultimately show ?case by auto
qed simp

lemma free_eids: "eid_list h p es A \<Longrightarrow> free_dtn_eid p h = Some (without A h)"
proof (induction h p es A rule: eid_list.induct)
  case (1 h p A)
  then show ?case by (simp add: free_dtn_eid.simps)
next
  case (2 h p e es A)
  then obtain q n B C where c: "cells h p = Some (Dtn_eid q (length e) n)" "block h q e B" "eid_list h n es C"
    "A = insert p (B \<union> C)" "p \<notin> B \<union> C" "B \<inter> C = {}" "p \<noteq> 0" by auto
  have "cells (without C h) p = cells h p" using c(5) by simp
  moreover have "(if q \<noteq> 0 then c_free q (without C h) else without C h) = without (C \<union> B) h"
    using free_block [OF c(2), of C] c(6) by blast
  moreover have "c_free p (without (C \<union> B) h) = without A h"
    using c_free_without [OF c(7), of "C \<union> B"] c(1,4,5) by (simp add: Un_commute)
  ultimately show ?case
    using "2.IH" [OF c(3)] c(1,7) by (subst free_dtn_eid.simps) simp
qed

lemma arg_list_frame: "arg_list h p as B \<Longrightarrow> A \<inter> B = {} \<Longrightarrow> arg_list (without A h) p as B"
proof (induction h p as B rule: arg_list.induct)
  case (2 h p a as B)
  obtain k v n C C' D where c: "cells h p = Some (Cl_arg k (length (arg_key a)) v (length (arg_value a)) n)"
    "block h k (arg_key a) C" "block h v (arg_value a) C'" "arg_list h n as D"
    "B = insert p (C \<union> C' \<union> D)" "p \<notin> C \<union> C' \<union> D" "C \<inter> C' = {}" "(C \<union> C') \<inter> D = {}" "p \<noteq> 0"
    using "2.prems"(1) by (simp only: arg_list.simps) blast
  have d: "A \<inter> C = {}" "A \<inter> C' = {}" "A \<inter> D = {}" "p \<notin> A" using "2.prems"(2) c(5) by blast+
  have "cells (without A h) p = Some (Cl_arg k (length (arg_key a)) v (length (arg_value a)) n)"
    "arg_list (without A h) n as D" "block (without A h) k (arg_key a) C" "block (without A h) v (arg_value a) C'"
    using c(1) "2.IH" [OF c(4) d(3)] block_frame [OF c(2) d(1)] block_frame [OF c(3) d(2)] d(4) by simp_all
  with c(5-9) show ?case by (simp only: arg_list.simps) blast
qed simp

lemma free_args: "arg_list h p as A \<Longrightarrow> free_convergence_layer_arg p h = Some (without A h)"
proof (induction h p as A rule: arg_list.induct)
  case (1 h p A)
  then show ?case by (simp add: free_convergence_layer_arg.simps)
next
  case (2 h p a as A)
  obtain k v n B B' C where c: "cells h p = Some (Cl_arg k (length (arg_key a)) v (length (arg_value a)) n)"
    "block h k (arg_key a) B" "block h v (arg_value a) B'" "arg_list h n as C"
    "A = insert p (B \<union> B' \<union> C)" "p \<notin> B \<union> B' \<union> C" "B \<inter> B' = {}" "(B \<union> B') \<inter> C = {}" "p \<noteq> 0"
    using "2.prems"(1) by (simp only: arg_list.simps) blast
  have "cells (without C h) p = cells h p" using c(6) by simp
  moreover have "(if k \<noteq> 0 then c_free k (without C h) else without C h) = without (C \<union> B) h"
    using free_block [OF c(2), of C] c(8) by blast
  moreover have "(if v \<noteq> 0 then c_free v (without (C \<union> B) h) else without (C \<union> B) h) = without (C \<union> B \<union> B') h"
    using free_block [OF c(3), of "C \<union> B"] c(7,8) by blast
  moreover have "c_free p (without (C \<union> B \<union> B') h) = without A h"
    using c_free_without [OF c(9), of "C \<union> B \<union> B'"] c(1,5,6) by (simp add: Un_ac)
  ultimately show ?case
    using "2.IH" [OF c(4)] c(1,9) by (subst free_convergence_layer_arg.simps) (simp add: Let_def)
qed

lemma layer_list_frame: "layer_list h p ls B \<Longrightarrow> A \<inter> B = {} \<Longrightarrow> layer_list (without A h) p ls B"
proof (induction h p ls B rule: layer_list.induct)
  case (2 h p l ls B)
  obtain q a n C C' D where c: "cells h p = Some (Clayer q (length (clname l)) a n)"
    "block h q (clname l) C" "arg_list h a (cl_args l) C'" "layer_list h n ls D"
    "B = insert p (C \<union> C' \<union> D)" "p \<notin> C \<union> C' \<union> D" "C \<inter> C' = {}" "(C \<union> C') \<inter> D = {}" "p \<noteq> 0"
    using "2.prems"(1) by (simp only: layer_list.simps) blast
  have d: "A \<inter> C = {}" "A \<inter> C' = {}" "A \<inter> D = {}" "p \<notin> A" using "2.prems"(2) c(5) by blast+
  have "cells (without A h) p = Some (Clayer q (length (clname l)) a n)"
    "layer_list (without A h) n ls D" "block (without A h) q (clname l) C" "arg_list (without A h) a (cl_args l) C'"
    using c(1) "2.IH" [OF c(4) d(3)] block_frame [OF c(2) d(1)] arg_list_frame [OF c(3) d(2)] d(4) by simp_all
  with c(5-9) show ?case by (simp only: layer_list.simps) blast
qed simp

lemma free_layers: "layer_list h p ls A \<Longrightarrow> free_convergence_layer p h = Some (without A h)"
proof (induction h p ls A rule: layer_list.induct)
  case (1 h p A)
  then show ?case by (simp add: free_convergence_layer.simps)
next
  case (2 h p l ls A)
  obtain q a n B B' C where c: "cells h p = Some (Clayer q (length (clname l)) a n)"
    "block h q (clname l) B" "arg_list h a (cl_args l) B'" "layer_list h n ls C"
    "A = insert p (B \<union> B' \<union> C)" "p \<notin> B \<union> B' \<union> C" "B \<inter> B' = {}" "(B \<union> B') \<inter> C = {}" "p \<noteq> 0"
    using "2.prems"(1) by (simp only: layer_list.simps) blast
  have "cells (without C h) p = cells h p" using c(6) by simp
  moreover have "(if q \<noteq> 0 then c_free q (without C h) else without C h) = without (C \<union> B) h"
    using free_block [OF c(2), of C] c(8) by blast
  moreover have "free_convergence_layer_arg a (without (C \<union> B) h) = Some (without (B' \<union> (C \<union> B)) h)"
  proof -
    have "(C \<union> B) \<inter> B' = {}" using c(7,8) by blast
    from free_args [OF arg_list_frame [OF c(3) this]] show ?thesis by simp
  qed
  moreover have "c_free p (without (B' \<union> (C \<union> B)) h) = without A h"
    using c_free_without [OF c(9), of "B' \<union> (C \<union> B)"] c(1,5,6) by (simp add: Un_ac)
  ultimately show ?case
    using "2.IH" [OF c(4)] c(1,9) by (subst free_convergence_layer.simps) simp
qed

subsection \<open>Properties\<close>

text \<open>
  C24: a look-up result is released completely and only once. If the structure at \<open>p\<close> holds a result (identifier, groups,
  neighbours and layers with their arguments, in cells that are all distinct), then \<^verbatim>\<open>free_dtn_dht_lookup_result\<close> returns,
  the addresses of the structure and no others are free afterwards, every other cell is as before and nothing was freed twice.
\<close>

theorem free_result_exact:
  assumes "result_at h p r A" "\<not> fault h"
  shows "\<exists>h'. free_dtn_dht_lookup_result p h = Some h' \<and> \<not> fault h' \<and>
    (\<forall>a. cells h' a = (if a \<in> A then None else cells h a))"
proof -
  obtain e cl nb gr B C D E where c: "cells h p = Some (Result e cl nb gr)"
    "eid_list h e (case lr_eid r of None \<Rightarrow> [] | Some x \<Rightarrow> [x]) B" "eid_list h gr (lr_groups r) C"
    "eid_list h nb (lr_neighbours r) D" "layer_list h cl (lr_clayer r) E" "A = insert p (B \<union> C \<union> D \<union> E)"
    "p \<notin> B \<union> C \<union> D \<union> E" "B \<inter> C = {}" "(B \<union> C) \<inter> D = {}" "(B \<union> C \<union> D) \<inter> E = {}" "p \<noteq> 0"
    using assms(1) unfolding result_at_def by blast
  have "free_dtn_eid e h = Some (without B h)" by (rule free_eids [OF c(2)])
  moreover have "free_dtn_eid gr (without B h) = Some (without (C \<union> B) h)"
    using free_eids [OF eid_list_frame [OF c(3) c(8)]] by simp
  moreover have "free_dtn_eid nb (without (C \<union> B) h) = Some (without (D \<union> (C \<union> B)) h)"
    using free_eids [OF eid_list_frame [OF c(4), of "C \<union> B"]] c(9) by (simp add: Un_commute)
  moreover have "free_convergence_layer cl (without (D \<union> (C \<union> B)) h) = Some (without (E \<union> (D \<union> (C \<union> B))) h)"
    using free_layers [OF layer_list_frame [OF c(5), of "D \<union> (C \<union> B)"]] c(10) by (simp add: Un_ac)
  moreover have "c_free p (without (E \<union> (D \<union> (C \<union> B))) h) = without A h"
    using c_free_without [OF c(11), of "E \<union> (D \<union> (C \<union> B))"] c(1,6,7) by (simp add: Un_ac)
  ultimately have "free_dtn_dht_lookup_result p h = Some (without A h)"
    using c(1,11) by (simp add: free_dtn_dht_lookup_result_def)
  then show ?thesis using assms(2) by (auto simp: without_def restrict_map_def)
qed

definition heap_example :: heap where
  "heap_example = \<lparr>cells = [1 \<mapsto> Result 2 0 0 4, 2 \<mapsto> Dtn_eid 3 7 0, 3 \<mapsto> Bytes (ascii ''dtn://a''),
     4 \<mapsto> Dtn_eid 0 0 0, 5 \<mapsto> Bytes [1]], fault = False\<rparr>"

lemma free_result_exact_witness:
  "\<exists>h'. free_dtn_dht_lookup_result 1 heap_example = Some h' \<and> \<not> fault h' \<and> cells h' 5 = Some (Bytes [1]) \<and> cells h' 4 = None"
proof -
  have "result_at heap_example 1 \<lparr>lr_eid = Some (ascii ''dtn://a''), lr_groups = [[]], lr_neighbours = [], lr_clayer = []\<rparr> {1, 2, 3, 4}"
    by (auto simp: result_at_def heap_example_def block_def ascii_def)
  from free_result_exact [OF this] show ?thesis by (auto simp: heap_example_def)
qed

text \<open>
  The path of \<^verbatim>\<open>parse_dtn_convergence_layer\<close> for a malformed later layer: it frees the name and the structure that its
  caller passed, then returns an error. \<^verbatim>\<open>parse_dtn_message\<close> answers the error by freeing the structure with all it holds.
\<close>

definition layer_error_path :: "addr \<Rightarrow> heap \<Rightarrow> heap" where
  "layer_error_path p h =
     (case cells h p of
        Some (Clayer nm l as n) \<Rightarrow> c_free p (if nm \<noteq> 0 then c_free nm h else h)
      | _ \<Rightarrow> c_fault h)"

text \<open>
  C11: why a malformed layer releases memory twice. On every heap with a list of layers at \<open>p\<close>, the error path of the parser
  is itself sound, but it releases the structure at \<open>p\<close> that its caller still owns; the caller's \<^verbatim>\<open>free_convergence_layer\<close>
  then uses memory that is no longer allocated. The arguments and the later layers are never freed.
\<close>

theorem layers_freed_twice:
  assumes "layer_list h p (l # ls) A" "cells h p = Some (Clayer q len a n)" "\<not> fault h"
  shows "\<not> fault (layer_error_path p h) \<and>
    (\<exists>h'. free_convergence_layer p (layer_error_path p h) = Some h' \<and> fault h') \<and>
    (\<exists>B C. arg_list (layer_error_path p h) a (cl_args l) B \<and> layer_list (layer_error_path p h) n ls C)"
proof -
  obtain B B' C where c: "block h q (clname l) B" "arg_list h a (cl_args l) B'" "layer_list h n ls C"
    "p \<notin> B \<union> B' \<union> C" "B \<inter> B' = {}" "(B \<union> B') \<inter> C = {}" "p \<noteq> 0"
  proof -
    obtain q' a' n' B B' C where "cells h p = Some (Clayer q' (length (clname l)) a' n')" "block h q' (clname l) B"
      "arg_list h a' (cl_args l) B'" "layer_list h n' ls C" "p \<notin> B \<union> B' \<union> C" "B \<inter> B' = {}" "(B \<union> B') \<inter> C = {}" "p \<noteq> 0"
      using assms(1) by (simp only: layer_list.simps) blast
    then show thesis using assms(2) that by simp
  qed
  have "(if q \<noteq> 0 then c_free q h else h) = without B h"
    using free_block [OF c(1), of "{}"] by (simp only: without_simps(1) Un_empty_left Int_empty_left)
  then have e: "layer_error_path p h = without (insert p B) h"
    using c_free_without [OF c(7), of B h] assms(2) c(4) unfolding layer_error_path_def by simp
  have "free_convergence_layer p (layer_error_path p h) = Some (c_fault (layer_error_path p h))"
    using c(7) by (subst free_convergence_layer.simps) (simp add: e without_def)
  moreover have d: "insert p B \<inter> B' = {}" "insert p B \<inter> C = {}" using c(4-6) by blast+
  have "arg_list (layer_error_path p h) a (cl_args l) B'" "layer_list (layer_error_path p h) n ls C"
    unfolding e by (rule arg_list_frame [OF c(2) d(1)], rule layer_list_frame [OF c(3) d(2)])
  moreover have "\<not> fault (layer_error_path p h)" using assms(3) by (simp add: e)
  ultimately show ?thesis by (auto simp: c_fault_def)
qed

lemma layers_freed_twice_witness:
  "\<exists>h'. free_convergence_layer 1 (layer_error_path 1 \<lparr>cells = [1 \<mapsto> Clayer 2 3 0 3, 2 \<mapsto> Bytes (ascii ''tcp''), 3 \<mapsto> Clayer 0 0 0 0],
     fault = False\<rparr>) = Some h' \<and> fault h'"
proof -
  let ?h = "\<lparr>cells = [1 \<mapsto> Clayer 2 3 0 3, 2 \<mapsto> Bytes (ascii ''tcp''), 3 \<mapsto> Clayer 0 0 0 0], fault = False\<rparr>"
  have "layer_list ?h 1 [\<lparr>clname = ascii ''tcp'', cl_args = []\<rparr>, \<lparr>clname = [], cl_args = []\<rparr>] {1, 2, 3}"
    by (auto simp: block_def ascii_def)
  from layers_freed_twice [OF this, of 2 3 0 3] show ?thesis by auto
qed

end
