(* ===== verification/Blacklist_Memory.thy ===== *)
theory Blacklist_Memory
  imports Blacklist
begin

text \<open>
  The blacklist of \<^verbatim>\<open>blacklist.c\<close> on the heap, as the source keeps it: nodes of 256 pointers, leaves, the linked list
  of identifiers, \<^verbatim>\<open>malloc\<close> and \<^verbatim>\<open>free\<close>. The theory \<open>Blacklist\<close> has the same operations on a tree as a value; the
  refinement says that the pointers implement them, which memory they use, and that \<^verbatim>\<open>blacklist_free\<close> gives all of it back.
\<close>

subsection \<open>Heap\<close>

type_synonym ptr = nat

datatype bl_cell = Bl_entry "byte \<Rightarrow> ptr" | Bl_leaf nat mem | Bl_id mem ptr

text \<open>
  An address that is not in the map is not allocated; reading, writing or freeing it sets \<open>bl_fault\<close>. \<open>bl_malloc\<close> are the
  addresses \<^verbatim>\<open>malloc\<close> will return.
\<close>

record bl_heap =
  bl_cells :: "ptr \<rightharpoonup> bl_cell"
  bl_fault :: bool
  bl_malloc :: "ptr answers"

definition heap_fault :: "'a bl_heap_scheme \<Rightarrow> 'a bl_heap_scheme" where
  "heap_fault h = h\<lparr>bl_fault := True\<rparr>"

definition heap_new :: "bl_cell \<Rightarrow> 'a bl_heap_scheme \<Rightarrow> ptr \<times> 'a bl_heap_scheme" where
  "heap_new x h = (bl_malloc h 0, h\<lparr>bl_cells := (bl_cells h)(bl_malloc h 0 \<mapsto> x), bl_malloc := later (bl_malloc h)\<rparr>)"

definition heap_free :: "ptr \<Rightarrow> 'a bl_heap_scheme \<Rightarrow> 'a bl_heap_scheme" where
  "heap_free p h =
     (if p = 0 then h else if bl_cells h p = None then heap_fault h else h\<lparr>bl_cells := (bl_cells h)(p := None)\<rparr>)"

text \<open>\<^verbatim>\<open>entry->children[a] = q\<close>.\<close>

definition set_child :: "ptr \<Rightarrow> byte \<Rightarrow> ptr \<Rightarrow> 'a bl_heap_scheme \<Rightarrow> 'a bl_heap_scheme" where
  "set_child p a q h =
     (case bl_cells h p of
        Some (Bl_entry ch) \<Rightarrow> h\<lparr>bl_cells := (bl_cells h)(p \<mapsto> Bl_entry (ch(a := q)))\<rparr>
      | _ \<Rightarrow> heap_fault h)"

definition get_child :: "ptr \<Rightarrow> byte \<Rightarrow> 'a bl_heap_scheme \<Rightarrow> ptr option" where
  "get_child p a h = (case bl_cells h p of Some (Bl_entry ch) \<Rightarrow> Some (ch a) | _ \<Rightarrow> None)"

subsection \<open>Operations\<close>

text \<open>The loop of \<^verbatim>\<open>blacklist_blacklist_node\<close> over the address bytes, with \<^verbatim>\<open>prev\<close>; the flag says that a counter goes up.\<close>

fun insert_at :: "mem \<Rightarrow> mem \<Rightarrow> mem \<Rightarrow> ptr \<Rightarrow> 'a bl_heap_scheme \<Rightarrow> bool \<times> 'a bl_heap_scheme" where
  "insert_at (a # b # as) port md prev h =
     (case get_child prev a h of
        None \<Rightarrow> (False, heap_fault h)
      | Some q \<Rightarrow>
          if q = 0 then let (n, h) = heap_new (Bl_entry (\<lambda>_. 0)) h in insert_at (b # as) port md n (set_child prev a n h)
          else insert_at (b # as) port md q h)"
| "insert_at [a] port md prev h =
     (case get_child prev a h of
        None \<Rightarrow> (False, heap_fault h)
      | Some q \<Rightarrow> let (n, h) = heap_new (Bl_leaf (be_val port) (take 20 md)) h in (q = 0, set_child prev a n h))"
| "insert_at [] port md prev h = (False, h)"

text \<open>The loop of \<^verbatim>\<open>blacklist_blacklisted\<close>.\<close>

fun find_at :: "mem \<Rightarrow> ptr \<Rightarrow> 'a bl_heap_scheme \<Rightarrow> bool \<times> 'a bl_heap_scheme" where
  "find_at [] entry h = (True, h)"
| "find_at (pos # rest) entry h =
     (if entry = 0 then (False, h)
      else case get_child entry pos h of
        None \<Rightarrow> (False, heap_fault h)
      | Some q \<Rightarrow> if rest = [] then (q \<noteq> 0, h) else find_at rest q h)"

text \<open>\<^verbatim>\<open>blacklist_free_tree\<close>; the first argument is \<^verbatim>\<open>maxlevel - level\<close>.\<close>

fun blacklist_free_tree :: "nat \<Rightarrow> ptr \<Rightarrow> 'a bl_heap_scheme \<Rightarrow> 'a bl_heap_scheme" where
  "blacklist_free_tree d p h =
     (if p = 0 then h
      else case d of
        0 \<Rightarrow> heap_free p h
      | Suc e \<Rightarrow> heap_free p (fold (\<lambda>i h.
            case get_child p i h of
              None \<Rightarrow> heap_fault h
            | Some q \<Rightarrow> if q \<noteq> 0 then set_child p i 0 (blacklist_free_tree e q h) else h)
          (map word_of_nat [0..<256]) h))"

declare blacklist_free_tree.simps [simp del]

subsection \<open>Trees in the heap\<close>

text \<open>
  The tree below a pointer with \<open>d\<close> levels, the addresses it takes, and that it is a tree: every pointer leads to a cell
  of the right kind, and no cell is reached twice.
\<close>

fun tree_at :: "nat \<Rightarrow> ptr \<Rightarrow> 'a bl_heap_scheme \<Rightarrow> bl_tree" where
  "tree_at 0 p h = (case bl_cells h p of Some (Bl_leaf port md) \<Rightarrow> Leaf port md | _ \<Rightarrow> Leaf 0 [])"
| "tree_at (Suc d) p h = (case bl_cells h p of
     Some (Bl_entry ch) \<Rightarrow> Entry (\<lambda>a. if ch a = 0 then None else Some (tree_at d (ch a) h)) | _ \<Rightarrow> create_new_entry)"

fun span :: "nat \<Rightarrow> ptr \<Rightarrow> 'a bl_heap_scheme \<Rightarrow> ptr set" where
  "span 0 p h = {p}"
| "span (Suc d) p h = insert p (case bl_cells h p of
     Some (Bl_entry ch) \<Rightarrow> (\<Union>a \<in> {a. ch a \<noteq> 0}. span d (ch a) h) | _ \<Rightarrow> {})"

fun is_tree :: "nat \<Rightarrow> ptr \<Rightarrow> 'a bl_heap_scheme \<Rightarrow> bool" where
  "is_tree 0 p h \<longleftrightarrow> p \<noteq> 0 \<and> (\<exists>port md. bl_cells h p = Some (Bl_leaf port md))"
| "is_tree (Suc d) p h \<longleftrightarrow> p \<noteq> 0 \<and> (case bl_cells h p of
     Some (Bl_entry ch) \<Rightarrow>
       (\<forall>a. ch a \<noteq> 0 \<longrightarrow> is_tree d (ch a) h \<and> p \<notin> span d (ch a) h) \<and>
       (\<forall>a b. a \<noteq> b \<longrightarrow> ch a \<noteq> 0 \<longrightarrow> ch b \<noteq> 0 \<longrightarrow> span d (ch a) h \<inter> span d (ch b) h = {})
   | _ \<Rightarrow> False)"

lemma in_span [simp]: "p \<in> span d p h"
  by (cases d) simp_all

lemma is_tree_nonzero: "is_tree d p h \<Longrightarrow> p \<noteq> 0"
  by (cases d) auto

lemma span_allocated: "is_tree d p h \<Longrightarrow> x \<in> span d p h \<Longrightarrow> x \<noteq> 0 \<and> bl_cells h x \<noteq> None"
proof (induction d arbitrary: p)
  case (Suc d)
  then show ?case by (auto split: option.splits bl_cell.splits)
qed auto

lemma is_tree_SucE:
  assumes "is_tree (Suc d) p h"
  obtains ch where "bl_cells h p = Some (Bl_entry ch)"
  using assms by (auto split: option.splits bl_cell.splits)

lemma is_tree_SucD:
  assumes "is_tree (Suc d) p h" "bl_cells h p = Some (Bl_entry ch)"
  shows "p \<noteq> 0" "\<And>a. ch a \<noteq> 0 \<Longrightarrow> is_tree d (ch a) h" "\<And>a. ch a \<noteq> 0 \<Longrightarrow> p \<notin> span d (ch a) h"
    "\<And>a b. a \<noteq> b \<Longrightarrow> ch a \<noteq> 0 \<Longrightarrow> ch b \<noteq> 0 \<Longrightarrow> span d (ch a) h \<inter> span d (ch b) h = {}"
    "span (Suc d) p h = insert p (\<Union>a \<in> {a. ch a \<noteq> 0}. span d (ch a) h)"
  using assms by auto

text \<open>A tree does not depend on the rest of the heap.\<close>

lemma tree_frame:
  assumes "\<forall>x \<in> span d p h. bl_cells h' x = bl_cells h x"
  shows "span d p h' = span d p h" "tree_at d p h' = tree_at d p h" "is_tree d p h' = is_tree d p h"
proof -
  have "span d p h' = span d p h \<and> tree_at d p h' = tree_at d p h \<and> is_tree d p h' = is_tree d p h"
    using assms
  proof (induction d arbitrary: p)
    case (Suc d)
    have c: "bl_cells h' p = bl_cells h p" using Suc.prems by simp
    show ?case
    proof (cases "\<exists>ch. bl_cells h p = Some (Bl_entry ch)")
      case True
      then obtain ch where ch: "bl_cells h p = Some (Bl_entry ch)" by blast
      have "span d (ch a) h' = span d (ch a) h \<and> tree_at d (ch a) h' = tree_at d (ch a) h \<and> is_tree d (ch a) h' = is_tree d (ch a) h"
        if "ch a \<noteq> 0" for a using that Suc.prems ch by (intro Suc.IH) auto
      then show ?thesis using c ch by (auto intro!: ext)
    next
      case False
      then show ?thesis using c by (auto split: option.splits bl_cell.splits)
    qed
  qed simp
  then show "span d p h' = span d p h" "tree_at d p h' = tree_at d p h" "is_tree d p h' = is_tree d p h" by blast+
qed

text \<open>Replacing one subtree, in memory that was its own or not in use.\<close>

lemma tree_replace:
  assumes "is_tree (Suc d) p h" "bl_cells h p = Some (Bl_entry ch)" "bl_cells h' p = Some (Bl_entry (ch(a := q)))"
    and "is_tree d q h'" "p \<notin> span d q h'" "span d q h' \<subseteq> (if ch a = 0 then {} else span d (ch a) h) \<union> N"
    and "N \<inter> span (Suc d) p h = {}"
    and "\<forall>x. x \<notin> insert p (if ch a = 0 then {} else span d (ch a) h) \<union> N \<longrightarrow> bl_cells h' x = bl_cells h x"
  shows "is_tree (Suc d) p h'" "span (Suc d) p h' \<subseteq> span (Suc d) p h \<union> N"
    "tree_at (Suc d) p h' = Entry (\<lambda>b. if b = a then Some (tree_at d q h') else if ch b = 0 then None else Some (tree_at d (ch b) h))"
proof -
  note c = is_tree_SucD [OF assms(1,2)]
  have q: "q \<noteq> 0" by (rule is_tree_nonzero [OF assms(4)])
  have f: "span d (ch b) h' = span d (ch b) h" "tree_at d (ch b) h' = tree_at d (ch b) h" "is_tree d (ch b) h' = is_tree d (ch b) h"
    if "b \<noteq> a" "ch b \<noteq> 0" for b
  proof -
    have "\<forall>x \<in> span d (ch b) h. bl_cells h' x = bl_cells h x"
    proof
      fix x assume x: "x \<in> span d (ch b) h"
      have "x \<notin> insert p (if ch a = 0 then {} else span d (ch a) h) \<union> N"
        using x c(3) [of b] c(4) [of a b] that assms(7) c(5) by auto
      then show "bl_cells h' x = bl_cells h x" using assms(8) by blast
    qed
    from tree_frame [OF this] show "span d (ch b) h' = span d (ch b) h" "tree_at d (ch b) h' = tree_at d (ch b) h"
      "is_tree d (ch b) h' = is_tree d (ch b) h" .
  qed
  have dis: "span d q h' \<inter> span d (ch b) h = {}" if "b \<noteq> a" "ch b \<noteq> 0" for b
    using assms(2,6,7) c(4) [of a b] that by (auto split: if_splits)
  show "is_tree (Suc d) p h'"
    using c(1,2,3,4) assms(3-5) f q dis by (auto simp: Int_commute)
  show "span (Suc d) p h' \<subseteq> span (Suc d) p h \<union> N"
  proof -
    have "span (Suc d) p h' = insert p (span d q h' \<union> (\<Union>b \<in> {b. b \<noteq> a \<and> ch b \<noteq> 0}. span d (ch b) h))"
      using assms(3) f(1) q by (auto split: if_splits)
    then show ?thesis using assms(6) unfolding c(5) by (auto split: if_splits)
  qed
  show "tree_at (Suc d) p h' = Entry (\<lambda>b. if b = a then Some (tree_at d q h') else if ch b = 0 then None else Some (tree_at d (ch b) h))"
    using assms(3) f(2) q by (auto intro!: ext)
qed

subsection \<open>Insertion\<close>

text \<open>What \<^verbatim>\<open>malloc\<close> promises for the next \<open>n\<close> calls without a \<^verbatim>\<open>free\<close> between them: new blocks, all different.\<close>

definition good_malloc :: "nat \<Rightarrow> 'a bl_heap_scheme \<Rightarrow> bool" where
  "good_malloc n h \<longleftrightarrow> (\<forall>i < n. bl_malloc h i \<noteq> 0 \<and> bl_cells h (bl_malloc h i) = None) \<and> inj_on (bl_malloc h) {..<n}"

definition new_ptrs :: "nat \<Rightarrow> 'a bl_heap_scheme \<Rightarrow> ptr set" where
  "new_ptrs n h = bl_malloc h ` {..<n}"

lemma good_malloc_less: "good_malloc n h \<Longrightarrow> m \<le> n \<Longrightarrow> good_malloc m h"
  by (auto simp: good_malloc_def intro: inj_on_subset)

lemma new_ptrs_mono: "m \<le> n \<Longrightarrow> new_ptrs m h \<subseteq> new_ptrs n h"
  by (auto simp: new_ptrs_def)

lemma new_ptrs_unused: "good_malloc n h \<Longrightarrow> is_tree d p h \<Longrightarrow> new_ptrs n h \<inter> span d p h = {}"
  using span_allocated by (fastforce simp: good_malloc_def new_ptrs_def)

lemma new_ptrs_Suc: "new_ptrs (Suc n) h = insert (bl_malloc h 0) ((\<lambda>i. bl_malloc h (Suc i)) ` {..<n})"
  unfolding new_ptrs_def lessThan_Suc_eq_insert_0 by auto

text \<open>What an operation on the tree at \<open>p\<close> may do: build the tree \<open>t\<close> from its own and from new memory.\<close>

definition builds :: "nat \<Rightarrow> ptr \<Rightarrow> bl_tree \<Rightarrow> ptr set \<Rightarrow> 'a bl_heap_scheme \<Rightarrow> 'a bl_heap_scheme \<Rightarrow> bool" where
  "builds d p t N h h' \<longleftrightarrow> is_tree d p h' \<and> tree_at d p h' = t \<and> span d p h' \<subseteq> span d p h \<union> N \<and>
     (\<forall>x. x \<notin> span d p h \<union> N \<longrightarrow> bl_cells h' x = bl_cells h x) \<and> bl_fault h' = bl_fault h"

lemma builds_below:
  assumes "is_tree (Suc d) p h" "bl_cells h p = Some (Bl_entry ch)" "ch a \<noteq> 0" "builds d (ch a) t N h h'" "N \<inter> span (Suc d) p h = {}"
    and "tree_at (Suc d) p h = Entry ts"
  shows "builds (Suc d) p (Entry (ts(a \<mapsto> t))) N h h'"
proof -
  note c = is_tree_SucD [OF assms(1,2)]
  have p: "p \<notin> span d (ch a) h" "p \<notin> N" using c(3) [OF assms(3)] assms(5) by auto
  then have "bl_cells h' p = Some (Bl_entry (ch(a := ch a)))" using assms(2,4) by (simp add: builds_def)
  note r = tree_replace [OF assms(1,2) this _ _ _ assms(5)]
  have "is_tree (Suc d) p h'" "span (Suc d) p h' \<subseteq> span (Suc d) p h \<union> N"
    "tree_at (Suc d) p h' = Entry (\<lambda>b. if b = a then Some (tree_at d (ch a) h') else if ch b = 0 then None else Some (tree_at d (ch b) h))"
    using r assms(3,4) p by (auto simp: builds_def)
  moreover have "ts = (\<lambda>b. if ch b = 0 then None else Some (tree_at d (ch b) h))" using assms(2,6) by simp
  moreover have "bl_cells h' x = bl_cells h x" if "x \<notin> span (Suc d) p h \<union> N" for x
    using that assms(3,4) c(5) by (auto simp: builds_def)
  ultimately show ?thesis using assms(4) by (auto simp: builds_def)
qed

text \<open>Hanging a new cell under a node.\<close>

lemma builds_new:
  fixes a :: byte and h :: "'a bl_heap_scheme"
  assumes "is_tree (Suc d) p h" "bl_cells h p = Some (Bl_entry ch)" "tree_at (Suc d) p h = Entry ts" "good_malloc (Suc n) h"
    and "\<And>h' :: 'a bl_heap_scheme. bl_cells h' (bl_malloc h 0) = Some x \<Longrightarrow> is_tree d (bl_malloc h 0) h' \<and> tree_at d (bl_malloc h 0) h' = t \<and>
      span d (bl_malloc h 0) h' = {bl_malloc h 0}"
  defines "h1 \<equiv> set_child p a (bl_malloc h 0) (snd (heap_new x h))"
  shows "builds (Suc d) p (Entry (ts(a \<mapsto> t))) {bl_malloc h 0} h h1"
    "bl_cells h1 p = Some (Bl_entry (ch(a := bl_malloc h 0)))" "good_malloc n h1" "bl_malloc h1 = later (bl_malloc h)"
proof -
  let ?n = "bl_malloc h 0"
  have n: "?n \<noteq> 0" "bl_cells h ?n = None" using assms(4) by (auto simp: good_malloc_def)
  then have np: "?n \<noteq> p" using assms(2) by auto
  have c: "bl_cells h1 = (bl_cells h)(?n \<mapsto> x, p \<mapsto> Bl_entry (ch(a := ?n)))" "bl_fault h1 = bl_fault h" "bl_malloc h1 = later (bl_malloc h)"
    using np assms(2) by (simp_all add: h1_def heap_new_def set_child_def)
  show p: "bl_cells h1 p = Some (Bl_entry (ch(a := ?n)))" and "bl_malloc h1 = later (bl_malloc h)" using c by simp_all
  have "bl_cells h1 ?n = Some x" using c(1) np by simp
  note q = assms(5) [OF this]
  have un: "{?n} \<inter> span (Suc d) p h = {}" using new_ptrs_unused [OF assms(4,1)] by (auto simp: new_ptrs_Suc)
  note r = tree_replace [OF assms(1,2) p _ _ _ un]
  have "is_tree (Suc d) p h1" "span (Suc d) p h1 \<subseteq> span (Suc d) p h \<union> {?n}"
    "tree_at (Suc d) p h1 = Entry (\<lambda>b. if b = a then Some (tree_at d ?n h1) else if ch b = 0 then None else Some (tree_at d (ch b) h))"
    using r q np c(1) by auto
  moreover have "ts = (\<lambda>b. if ch b = 0 then None else Some (tree_at d (ch b) h))" using assms(2,3) by simp
  ultimately show "builds (Suc d) p (Entry (ts(a \<mapsto> t))) {?n} h h1"
    using c q by (auto simp: builds_def)
  show "good_malloc n h1"
    using assms(2,4) c(1,3) unfolding good_malloc_def later_def
    by (auto simp: inj_on_def)
qed

lemma builds_trans:
  assumes "builds d p t N h h1" "builds d p t' M h1 h2"
  shows "builds d p t' (N \<union> M) h h2"
proof -
  have "bl_cells h2 x = bl_cells h x" if "x \<notin> span d p h \<union> (N \<union> M)" for x
  proof -
    have "x \<notin> span d p h1 \<union> M" using that assms(1) by (auto simp: builds_def)
    then show ?thesis using that assms by (simp add: builds_def)
  qed
  then show ?thesis using assms by (auto simp: builds_def)
qed

lemma builds_mono: "builds d p t N h h' \<Longrightarrow> N \<subseteq> M \<Longrightarrow> builds d p t M h h'"
  unfolding builds_def by blast

lemma insert_at_builds:
  fixes h :: "'a bl_heap_scheme"
  assumes "as \<noteq> []" "is_tree (length as) p h" "good_malloc (length as) h"
  shows "builds (length as) p (fst (bl_insert as (create_new_leaf port md) (tree_at (length as) p h))) (new_ptrs (length as) h)
      h (snd (insert_at as port md p h)) \<and>
    fst (insert_at as port md p h) = snd (bl_insert as (create_new_leaf port md) (tree_at (length as) p h))"
  using assms
proof (induction as port md p h rule: insert_at.induct)
  case (2 a port md p h)
  obtain ch where ch: "bl_cells h p = Some (Bl_entry ch)" using 2(2) by (auto split: option.splits bl_cell.splits)
  let ?n = "bl_malloc h 0" and ?x = "Bl_leaf (be_val port) (take 20 md)"
  have n: "?n \<noteq> 0" using 2(3) by (simp add: good_malloc_def)
  have t: "tree_at (Suc 0) p h = Entry (\<lambda>a. if ch a = 0 then None else Some (tree_at 0 (ch a) h))" using ch by simp
  have "builds (Suc 0) p (Entry ((\<lambda>a. if ch a = 0 then None else Some (tree_at 0 (ch a) h))(a \<mapsto> create_new_leaf port md))) {?n} h
      (set_child p a ?n (snd (heap_new ?x h)))"
    by (rule builds_new(1) [OF _ ch t]) (use 2 n in \<open>simp_all add: create_new_leaf_def\<close>)
  moreover have "new_ptrs (length [a]) h = {?n}" by (simp add: new_ptrs_Suc)
  ultimately show ?case using ch t by (simp add: get_child_def heap_new_def)
next
  case (1 a b as port md p h)
  obtain ch where ch: "bl_cells h p = Some (Bl_entry ch)" using 1(4) by (auto split: option.splits bl_cell.splits)
  let ?d = "length (b # as)" and ?l = "create_new_leaf port md" and ?n = "bl_malloc h 0"
  define ts where "ts = (\<lambda>a. if ch a = 0 then None else Some (tree_at ?d (ch a) h))"
  have t: "tree_at (Suc ?d) p h = Entry ts" using ch by (simp add: ts_def cong: if_cong)
  have tr: "is_tree (Suc ?d) p h" "good_malloc (Suc ?d) h" using 1(4,5) by simp_all
  show ?case
  proof (cases "ch a = 0")
    case False
    have i: "insert_at (a # b # as) port md p h = insert_at (b # as) port md (ch a) h"
      using ch False by (simp add: get_child_def)
    have IH: "builds ?d (ch a) (fst (bl_insert (b # as) ?l (tree_at ?d (ch a) h))) (new_ptrs ?d h) h (snd (insert_at (b # as) port md (ch a) h))"
      "fst (insert_at (b # as) port md (ch a) h) = snd (bl_insert (b # as) ?l (tree_at ?d (ch a) h))"
      using "1.IH"(2) [of "ch a"] is_tree_SucD(2) [OF tr(1) ch False] good_malloc_less [OF tr(2), of ?d] ch False
      by (simp_all add: get_child_def)
    have "new_ptrs ?d h \<inter> span (Suc ?d) p h = {}" using new_ptrs_unused [OF tr(2,1)] new_ptrs_mono [of ?d "Suc ?d" h] by auto
    from builds_below [OF tr(1) ch False IH(1) this t] show ?thesis
      unfolding i using IH(2) False t new_ptrs_mono [of ?d "Suc ?d" h]
      by (auto simp: ts_def case_prod_unfold Let_def intro: builds_mono)
  next
    case True
    define h1 where "h1 = set_child p a ?n (snd (heap_new (Bl_entry (\<lambda>_. 0)) h))"
    have n: "?n \<noteq> 0" using tr(2) by (simp add: good_malloc_def)
    have i: "insert_at (a # b # as) port md p h = insert_at (b # as) port md ?n h1"
      using ch True by (simp add: get_child_def heap_new_def h1_def)
    note new = builds_new [OF tr(1) ch t tr(2), of "Bl_entry (\<lambda>_. 0)" create_new_entry a, folded h1_def]
    have b: "builds (Suc ?d) p (Entry (ts(a \<mapsto> create_new_entry))) {?n} h h1" "bl_cells h1 p = Some (Bl_entry (ch(a := ?n)))"
      "good_malloc ?d h1" "bl_malloc h1 = later (bl_malloc h)"
      using new n by (simp_all add: create_new_entry_def)
    have tr1: "is_tree (Suc ?d) p h1" "tree_at (Suc ?d) p h1 = Entry (ts(a \<mapsto> create_new_entry))"
      using b(1) by (simp_all add: builds_def)
    have q: "is_tree ?d ?n h1" "tree_at ?d ?n h1 = create_new_entry"
      using is_tree_SucD(2) [OF tr1(1) b(2), of a] tr1(2) b(2) n by (auto dest: fun_cong [of _ _ a])
    have IH: "builds ?d ?n (fst (bl_insert (b # as) ?l create_new_entry)) (new_ptrs ?d h1) h1 (snd (insert_at (b # as) port md ?n h1))"
      "fst (insert_at (b # as) port md ?n h1) = snd (bl_insert (b # as) ?l create_new_entry)"
      using "1.IH"(1) [of "ch a" "(?n, snd (heap_new (Bl_entry (\<lambda>_. 0)) h))" ?n] q b(3) ch True
      by (simp_all add: get_child_def heap_new_def h1_def)
    have "builds (Suc ?d) p (Entry (ts(a \<mapsto> create_new_entry, a \<mapsto> fst (bl_insert (b # as) ?l create_new_entry)))) (new_ptrs ?d h1) h1
        (snd (insert_at (b # as) port md ?n h1))"
      using builds_below [OF tr1(1) b(2) _ _ new_ptrs_unused [OF b(3) tr1(1)] tr1(2), of a] IH(1) n by simp
    moreover have "{?n} \<union> new_ptrs ?d h1 = new_ptrs (Suc ?d) h"
      unfolding new_ptrs_Suc by (simp add: new_ptrs_def b(4) later_def)
    ultimately show ?thesis
      unfolding i using builds_trans [OF b(1)] IH(2) True t by (fastforce simp: ts_def case_prod_unfold Let_def)
  qed
qed simp

subsection \<open>Lookup and release\<close>

lemma find_at_eq:
  "as \<noteq> [] \<Longrightarrow> is_tree (length as) p h \<Longrightarrow> find_at as p h = (bl_find as (Some (tree_at (length as) p h)), h)"
proof (induction as arbitrary: p)
  case (Cons a as)
  obtain ch where ch: "bl_cells h p = Some (Bl_entry ch)" using Cons.prems(2) by (auto split: option.splits bl_cell.splits)
  have tr: "is_tree (Suc (length as)) p h" using Cons.prems(2) by simp
  note c = is_tree_SucD [OF tr ch]
  show ?case
  proof (cases as)
    case Nil
    then show ?thesis using ch c(1) by (simp add: get_child_def)
  next
    case (Cons b bs)
    then show ?thesis
      using ch c(1) Cons.IH [of "ch a"] c(2) [of a] by (cases "ch a = 0") (simp_all add: get_child_def del: is_tree.simps)
  qed
qed simp

definition drop_cells :: "ptr set \<Rightarrow> 'a bl_heap_scheme \<Rightarrow> 'a bl_heap_scheme" where
  "drop_cells A h = h\<lparr>bl_cells := bl_cells h |` (- A)\<rparr>"

lemma drop_cells_simps [simp]:
  "drop_cells {} h = h" "drop_cells A (drop_cells B h) = drop_cells (A \<union> B) h" "bl_fault (drop_cells A h) = bl_fault h"
  "a \<notin> A \<Longrightarrow> bl_cells (drop_cells A h) a = bl_cells h a"
  by (simp_all add: drop_cells_def Int_commute Un_commute restrict_map_def [of _ UNIV])

lemma heap_free_drop: "p \<noteq> 0 \<Longrightarrow> bl_cells h p \<noteq> None \<Longrightarrow> heap_free p h = drop_cells {p} h"
  by (auto simp: heap_free_def drop_cells_def restrict_map_def fun_eq_iff intro!: arg_cong [where f = "\<lambda>c. h\<lparr>bl_cells := c\<rparr>"])

text \<open>The heap without the cells \<open>D\<close> and with the node \<open>c\<close> at \<open>p\<close>.\<close>

definition pruned :: "ptr \<Rightarrow> ptr set \<Rightarrow> (byte \<Rightarrow> ptr) \<Rightarrow> 'a bl_heap_scheme \<Rightarrow> 'a bl_heap_scheme" where
  "pruned p D c h = h\<lparr>bl_cells := (bl_cells h |` (- D))(p \<mapsto> Bl_entry c)\<rparr>"

lemma pruned_cells: "bl_cells (pruned p D c h) x = (if x = p then Some (Bl_entry c) else if x \<in> D then None else bl_cells h x)"
  by (simp add: pruned_def restrict_map_def)

lemma heap_cells_eq: "bl_cells h' = bl_cells h'' \<Longrightarrow> h' = h\<lparr>bl_cells := bl_cells h'\<rparr> \<Longrightarrow> h'' = h\<lparr>bl_cells := bl_cells h''\<rparr> \<Longrightarrow> h' = h''"
  by metis

lemma set_child_pruned: "p \<notin> E \<Longrightarrow> set_child p i 0 (drop_cells E (pruned p D c h)) = pruned p (E \<union> D) (c(i := 0)) h"
  by (rule heap_cells_eq [of _ _ h]) (auto simp: set_child_def drop_cells_def pruned_def restrict_map_def fun_eq_iff)

lemma heap_free_pruned: "p \<noteq> 0 \<Longrightarrow> heap_free p (pruned p D c h) = drop_cells (insert p D) h"
  by (rule heap_cells_eq [of _ _ h]) (auto simp: heap_free_def drop_cells_def pruned_def restrict_map_def fun_eq_iff)

text \<open>The heap when the loop over the children has done those of \<open>S\<close>.\<close>

definition children_done :: "nat \<Rightarrow> ptr \<Rightarrow> (byte \<Rightarrow> ptr) \<Rightarrow> byte set \<Rightarrow> 'a bl_heap_scheme \<Rightarrow> 'a bl_heap_scheme" where
  "children_done d p ch S h = pruned p (\<Union>a \<in> {a \<in> S. ch a \<noteq> 0}. span d (ch a) h) (\<lambda>a. if a \<in> S then 0 else ch a) h"

lemma children_done_step:
  assumes tr: "is_tree (Suc d) p h" and ch: "bl_cells h p = Some (Bl_entry ch)" and i: "i \<notin> S" "ch i \<noteq> 0"
    and IH: "\<And>h :: 'a bl_heap_scheme. is_tree d (ch i) h \<Longrightarrow> blacklist_free_tree d (ch i) h = drop_cells (span d (ch i) h) h"
  shows "set_child p i 0 (blacklist_free_tree d (ch i) (children_done d p ch S (h :: 'a bl_heap_scheme))) = children_done d p ch (insert i S) h"
proof -
  note c = is_tree_SucD [OF tr ch]
  let ?D = "\<Union>a \<in> {a \<in> S. ch a \<noteq> 0}. span d (ch a) h" and ?H = "children_done d p ch S h"
  have "span d (ch i) h \<inter> span d (ch b) h = {}" if "b \<in> S" "ch b \<noteq> 0" for b using c(4) [of i b] i that by blast
  then have dis: "p \<notin> span d (ch i) h" "span d (ch i) h \<inter> ?D = {}" "p \<notin> ?D"
    using c(3) i by auto
  have "\<forall>x \<in> span d (ch i) h. bl_cells ?H x = bl_cells h x"
  proof
    fix x assume "x \<in> span d (ch i) h"
    then have "x \<noteq> p" "x \<notin> ?D" using dis by blast+
    then show "bl_cells ?H x = bl_cells h x" unfolding children_done_def pruned_cells by (simp only: if_False)
  qed
  note f = tree_frame [OF this]
  have e: "blacklist_free_tree d (ch i) ?H = drop_cells (span d (ch i) h) ?H" using IH f(1,3) c(2) [OF i(2)] by simp
  have D: "(\<Union>a \<in> {a \<in> insert i S. ch a \<noteq> 0}. span d (ch a) h) = span d (ch i) h \<union> ?D" using i(2) by auto
  have "(\<lambda>a. if a \<in> insert i S then 0 else ch a) = (\<lambda>a. if a \<in> S then 0 else ch a)(i := 0)" by auto
  then show ?thesis unfolding e unfolding children_done_def D by (simp only: set_child_pruned [OF dis(1)])
qed

lemma byte_list: "set (map word_of_nat [0..<256]) = (UNIV :: byte set)" "distinct (map word_of_nat [0..<256] :: byte list)"
proof -
  have "b \<in> word_of_nat ` {0..<256}" for b :: byte
  proof (rule image_eqI [of _ _ "unat b"])
    have "unat b < 2 ^ LENGTH(8)" by (rule unsigned_less)
    then show "unat b \<in> {0..<256}" by simp
  qed simp
  then show "set (map word_of_nat [0..<256]) = (UNIV :: byte set)" by auto
  then have "card (set (map word_of_nat [0..<256] :: byte list)) = length (map word_of_nat [0..<256] :: byte list)"
    by (simp add: card_word)
  then show "distinct (map word_of_nat [0..<256] :: byte list)" by (rule card_distinct)
qed

lemma free_children:
  fixes h :: "'a bl_heap_scheme"
  assumes tr: "is_tree (Suc d) p h" and ch: "bl_cells h p = Some (Bl_entry ch)"
    and IH: "\<And>q (h :: 'a bl_heap_scheme). is_tree d q h \<Longrightarrow> blacklist_free_tree d q h = drop_cells (span d q h) h"
  shows "distinct bs \<Longrightarrow> set bs \<inter> S = {} \<Longrightarrow>
    fold (\<lambda>i h. case get_child p i h of None \<Rightarrow> heap_fault h
        | Some q \<Rightarrow> if q \<noteq> 0 then set_child p i 0 (blacklist_free_tree d q h) else h) bs (children_done d p ch S h) =
      children_done d p ch (S \<union> set bs) h"
proof (induction bs arbitrary: S)
  case (Cons i bs)
  have "get_child p i (children_done d p ch S h) = Some (ch i)"
    using Cons.prems by (simp add: get_child_def children_done_def pruned_cells)
  moreover have "children_done d p ch (insert i S) h = children_done d p ch S h" if "ch i = 0"
  proof -
    have "{a \<in> insert i S. ch a \<noteq> 0} = {a \<in> S. ch a \<noteq> 0}" "(\<lambda>a. if a \<in> insert i S then 0 else ch a) = (\<lambda>a. if a \<in> S then 0 else ch a)"
      using that by auto
    then show ?thesis by (simp only: children_done_def)
  qed
  moreover have "i \<notin> S" using Cons.prems(2) by simp
  ultimately have "(case get_child p i (children_done d p ch S h) of None \<Rightarrow> heap_fault (children_done d p ch S h)
      | Some q \<Rightarrow> if q \<noteq> 0 then set_child p i 0 (blacklist_free_tree d q (children_done d p ch S h)) else children_done d p ch S h) =
      children_done d p ch (insert i S) h"
    using children_done_step [OF tr ch _ _ IH, of i S] by simp
  then show ?case using Cons.IH [of "insert i S"] Cons.prems by simp
qed simp

lemma free_tree_exact: "is_tree d p h \<Longrightarrow> blacklist_free_tree d p h = drop_cells (span d p h) h"
proof (induction d arbitrary: p h)
  case 0
  then show ?case by (subst blacklist_free_tree.simps) (auto simp: heap_free_drop)
next
  case (Suc d)
  obtain ch where ch: "bl_cells h p = Some (Bl_entry ch)" using Suc.prems by (rule is_tree_SucE)
  note c = is_tree_SucD [OF Suc.prems ch]
  let ?D = "\<Union>a \<in> {a. ch a \<noteq> 0}. span d (ch a) h"
  have 0: "children_done d p ch {} h = h" using ch by (simp add: children_done_def pruned_def restrict_map_def [of _ UNIV] fun_upd_idem)
  have "fold (\<lambda>i h. case get_child p i h of None \<Rightarrow> heap_fault h
        | Some q \<Rightarrow> if q \<noteq> 0 then set_child p i 0 (blacklist_free_tree d q h) else h) (map word_of_nat [0..<256]) h =
      children_done d p ch UNIV h"
    using free_children [OF Suc.prems ch Suc.IH, of "map word_of_nat [0..<256]" "{}"] byte_list by (simp only: 0) simp
  moreover have "heap_free p (children_done d p ch UNIV h) = drop_cells (insert p ?D) h"
    using heap_free_pruned [OF c(1)] by (simp add: children_done_def)
  ultimately show ?case using c(1,5) by (subst blacklist_free_tree.simps) simp
qed

subsection \<open>Identifiers\<close>

text \<open>The loops of \<^verbatim>\<open>blacklist_id_blacklisted\<close> and \<^verbatim>\<open>blacklist_id_free\<close>; on a cyclic list they would not return (None).\<close>

partial_function (option) find_id :: "mem \<Rightarrow> ptr \<Rightarrow> 'a bl_heap_scheme \<Rightarrow> (bool \<times> 'a bl_heap_scheme) option" where
  "find_id x p h =
     (if p = 0 then Some (False, h)
      else case bl_cells h p of
        Some (Bl_id md n) \<Rightarrow> if memcmp md x 20 = 0 then Some (True, h) else find_id x n h
      | _ \<Rightarrow> Some (False, heap_fault h))"

partial_function (option) free_ids :: "ptr \<Rightarrow> 'a bl_heap_scheme \<Rightarrow> 'a bl_heap_scheme option" where
  "free_ids p h =
     (if p = 0 then Some h
      else case bl_cells h p of
        Some (Bl_id md n) \<Rightarrow> free_ids n (heap_free p h)
      | _ \<Rightarrow> Some (heap_fault h))"

fun id_list :: "'a bl_heap_scheme \<Rightarrow> ptr \<Rightarrow> mem list \<Rightarrow> ptr set \<Rightarrow> bool" where
  "id_list h p [] A \<longleftrightarrow> p = 0 \<and> A = {}"
| "id_list h p (m # ms) A \<longleftrightarrow> p \<noteq> 0 \<and> (\<exists>n B. bl_cells h p = Some (Bl_id m n) \<and> id_list h n ms B \<and> A = insert p B \<and> p \<notin> B)"

lemma id_list_frame: "id_list h p ms A \<Longrightarrow> \<forall>x \<in> A. bl_cells h' x = bl_cells h x \<Longrightarrow> id_list h' p ms A"
proof (induction ms arbitrary: p A)
  case (Cons m ms)
  then obtain n B where "p \<noteq> 0" "bl_cells h p = Some (Bl_id m n)" "id_list h n ms B" "A = insert p B" "p \<notin> B" by auto
  then show ?case using Cons.IH [of n B] Cons.prems(2) by auto
qed simp

lemma id_list_allocated: "id_list h p ms A \<Longrightarrow> x \<in> A \<Longrightarrow> x \<noteq> 0 \<and> bl_cells h x \<noteq> None"
  by (induction ms arbitrary: p A) auto

lemma find_id_eq: "id_list h p ms A \<Longrightarrow> find_id x p h = Some (blacklist_id_blacklisted x ms, h)"
proof (induction ms arbitrary: p A)
  case Nil
  then show ?case by (subst find_id.simps) simp
next
  case (Cons m ms)
  then show ?case by (subst find_id.simps) auto
qed

lemma free_ids_eq: "id_list h p ms A \<Longrightarrow> free_ids p h = Some (drop_cells A h)"
proof (induction ms arbitrary: p A h)
  case Nil
  then show ?case by (subst free_ids.simps) simp
next
  case (Cons m ms)
  then obtain n B where c: "p \<noteq> 0" "bl_cells h p = Some (Bl_id m n)" "id_list h n ms B" "A = insert p B" "p \<notin> B" by auto
  have "id_list (drop_cells {p} h) n ms B" by (rule id_list_frame [OF c(3)]) (use c(5) in \<open>auto simp: drop_cells_def restrict_map_def\<close>)
  moreover have "B \<union> {p} = A" using c(4) by blast
  ultimately show ?case using Cons.IH [of "drop_cells {p} h" n B] c(1,2) heap_free_drop [of p h] by (subst free_ids.simps) simp
qed

subsection \<open>The static variables\<close>

record bl_mem = bl_heap +
  m_IPv4 :: ptr
  m_IPv6 :: ptr
  m_enabled :: bool
  m_entries_ipv4 :: nat
  m_entries_ipv6 :: nat
  m_ids :: ptr

text \<open>
  \<^verbatim>\<open>blacklist_blacklist_node\<close> and the other functions of the interface, on the heap. \<^verbatim>\<open>addr\<close> is the copy of the address bytes.
\<close>

definition root_ipv4 :: "bl_mem \<Rightarrow> bl_mem" where
  "root_ipv4 s = (if m_IPv4 s = 0 then let (p, s) = heap_new (Bl_entry (\<lambda>_. 0)) s in s\<lparr>m_IPv4 := p\<rparr> else s)"

definition root_ipv6 :: "bl_mem \<Rightarrow> bl_mem" where
  "root_ipv6 s = (if m_IPv6 s = 0 then let (p, s) = heap_new (Bl_entry (\<lambda>_. 0)) s in s\<lparr>m_IPv6 := p\<rparr> else s)"

definition heap_blacklist_node :: "mem \<Rightarrow> mem \<Rightarrow> bl_mem \<Rightarrow> bl_mem" where
  "heap_blacklist_node sa md s =
     (if \<not> m_enabled s then s
      else if sa_family sa = AF_INET then
        let s = root_ipv4 s; (fresh, s) = insert_at (sin_addr sa) (sin_port sa) md (m_IPv4 s) s
        in s\<lparr>m_entries_ipv4 := m_entries_ipv4 s + (if fresh then 1 else 0)\<rparr>
      else if sa_family sa = AF_INET6 then
        let s = root_ipv6 s; (fresh, s) = insert_at (sin6_addr sa) (sin_port sa) md (m_IPv6 s) s
        in s\<lparr>m_entries_ipv6 := m_entries_ipv6 s + (if fresh then 1 else 0)\<rparr>
      else s)"

definition heap_blacklisted :: "mem \<Rightarrow> bl_mem \<Rightarrow> bool \<times> bl_mem" where
  "heap_blacklisted sa s =
     (if \<not> m_enabled s then (False, s)
      else if sa_family sa = AF_INET then find_at (sin_addr sa) (m_IPv4 s) s
      else (False, s))"

definition heap_blacklist_id :: "mem \<Rightarrow> bl_mem \<Rightarrow> bl_mem" where
  "heap_blacklist_id x s = (let (p, s) = heap_new (Bl_id (take 20 x) (m_ids s)) s in s\<lparr>m_ids := p\<rparr>)"

definition heap_id_blacklisted :: "mem \<Rightarrow> bl_mem \<Rightarrow> (bool \<times> bl_mem) option" where
  "heap_id_blacklisted x s = find_id x (m_ids s) s"

definition heap_id_free :: "bl_mem \<Rightarrow> bl_mem option" where
  "heap_id_free s = map_option (\<lambda>s. s\<lparr>m_ids := 0\<rparr>) (free_ids (m_ids s) s)"

definition heap_blacklist_free :: "bl_mem \<Rightarrow> bl_mem option" where
  "heap_blacklist_free s =
     (let s = blacklist_free_tree 4 (m_IPv4 s) s; s = blacklist_free_tree 16 (m_IPv6 s) s
      in heap_id_free (s\<lparr>m_IPv4 := 0, m_IPv6 := 0\<rparr>))"

subsection \<open>Refinement\<close>

definition root_span :: "nat \<Rightarrow> ptr \<Rightarrow> 'a bl_heap_scheme \<Rightarrow> ptr set" where
  "root_span d p h = (if p = 0 then {} else span d p h)"

definition root_rel :: "nat \<Rightarrow> ptr \<Rightarrow> bl_tree option \<Rightarrow> 'a bl_heap_scheme \<Rightarrow> bool" where
  "root_rel d p t h \<longleftrightarrow> (if p = 0 then t = None else is_tree d p h \<and> t = Some (tree_at d p h))"

text \<open>The heap holds the blacklist \<open>bl\<close> in the cells \<open>A\<close> (IPv4), \<open>B\<close> (IPv6) and \<open>C\<close> (identifiers).\<close>

definition holds :: "bl_mem \<Rightarrow> blacklist \<Rightarrow> ptr set \<Rightarrow> ptr set \<Rightarrow> ptr set \<Rightarrow> bool" where
  "holds s bl A B C \<longleftrightarrow> root_rel 4 (m_IPv4 s) (IPv4_blacklist bl) s \<and> root_rel 16 (m_IPv6 s) (IPv6_blacklist bl) s \<and>
     id_list s (m_ids s) (idblacklist bl) C \<and> A = root_span 4 (m_IPv4 s) s \<and> B = root_span 16 (m_IPv6 s) s \<and>
     A \<inter> B = {} \<and> (A \<union> B) \<inter> C = {} \<and> m_enabled s = bl_enabled bl \<and> m_entries_ipv4 s = number_of_entries_ipv4 bl \<and>
     m_entries_ipv6 s = number_of_entries_ipv6 bl \<and> \<not> bl_fault s"

lemma root_frame:
  assumes "\<forall>x \<in> root_span d p h. bl_cells h' x = bl_cells h x"
  shows "root_span d p h' = root_span d p h" "root_rel d p t h' = root_rel d p t h"
  using assms tree_frame [of d p h h'] by (auto simp: root_span_def root_rel_def)

lemma root_allocated: "root_rel d p t h \<Longrightarrow> x \<in> root_span d p h \<Longrightarrow> x \<noteq> 0 \<and> bl_cells h x \<noteq> None"
  using span_allocated [of d p h] by (auto simp: root_rel_def root_span_def split: if_splits)

lemma same_cells:
  assumes "bl_cells h' = bl_cells h"
  shows "root_span d p h' = root_span d p h" "root_rel d p t h' = root_rel d p t h" "id_list h' q ms C = id_list h q ms C"
  using root_frame [of d p h h'] id_list_frame [of h q ms C h'] id_list_frame [of h' q ms C h] assms by auto

lemmas same_cells_fields [simp] =
  same_cells [of "s\<lparr>m_IPv4 := x\<rparr>" s for s x, simplified] same_cells [of "s\<lparr>m_IPv6 := x\<rparr>" s for s x, simplified]
  same_cells [of "s\<lparr>m_ids := x\<rparr>" s for s x, simplified] same_cells [of "s\<lparr>m_entries_ipv4 := x\<rparr>" s for s x, simplified]
  same_cells [of "s\<lparr>m_entries_ipv6 := x\<rparr>" s for s x, simplified]

text \<open>One insertion below a root that may have to be created first.\<close>

definition insert_root :: "mem \<Rightarrow> mem \<Rightarrow> mem \<Rightarrow> ptr \<Rightarrow> 'a bl_heap_scheme \<Rightarrow> ptr \<times> bool \<times> 'a bl_heap_scheme" where
  "insert_root as port md p h = (let (p, h) = (if p = 0 then heap_new (Bl_entry (\<lambda>_. 0)) h else (p, h)) in
     (p, insert_at as port md p h))"

lemma insert_root_rel:
  fixes h :: "'a bl_heap_scheme"
  assumes "as \<noteq> []" "root_rel (length as) p t h" "good_malloc (Suc (length as)) h" "insert_root as port md p h = (q, fresh, h')"
  defines "r \<equiv> (case t of None \<Rightarrow> create_new_entry | Some t \<Rightarrow> t)"
  shows "root_rel (length as) q (Some (fst (bl_insert as (create_new_leaf port md) r))) h'"
    "root_span (length as) q h' \<subseteq> root_span (length as) p h \<union> new_ptrs (Suc (length as)) h"
    "\<forall>x. x \<notin> root_span (length as) p h \<union> new_ptrs (Suc (length as)) h \<longrightarrow> bl_cells h' x = bl_cells h x"
    "fresh = snd (bl_insert as (create_new_leaf port md) r)" "bl_fault h' = bl_fault h"
proof -
  let ?d = "length as" and ?N = "new_ptrs (Suc (length as)) h"
  obtain h1 where h1: "insert_at as port md q h1 = (fresh, h')" "is_tree ?d q h1" "tree_at ?d q h1 = r" "good_malloc ?d h1"
    "span ?d q h1 \<subseteq> root_span ?d p h \<union> ?N" "\<forall>x. x \<notin> root_span ?d p h \<union> ?N \<longrightarrow> bl_cells h1 x = bl_cells h x"
    "new_ptrs ?d h1 \<subseteq> ?N" "bl_fault h1 = bl_fault h"
  proof (cases "p = 0")
    case False
    then show thesis
      using that [of h] assms(2,4) good_malloc_less [OF assms(3), of ?d] new_ptrs_mono [of ?d "Suc ?d" h]
      by (auto simp: insert_root_def root_rel_def root_span_def r_def)
  next
    case True
    obtain b bs where as: "as = b # bs" using assms(1) by (cases as) simp_all
    let ?n = "bl_malloc h 0" and ?h = "snd (heap_new (Bl_entry (\<lambda>_. 0)) h)"
    have q: "q = ?n" "insert_at as port md q ?h = (fresh, h')" using True assms(4) by (auto simp: insert_root_def heap_new_def)
    have n: "?n \<noteq> 0" using assms(3) by (simp add: good_malloc_def)
    have c: "bl_cells ?h = (bl_cells h)(?n \<mapsto> Bl_entry (\<lambda>_. 0))" "bl_malloc ?h = later (bl_malloc h)" "bl_fault ?h = bl_fault h"
      by (simp_all add: heap_new_def)
    have "is_tree ?d q ?h" "tree_at ?d q ?h = r" "span ?d q ?h = {?n}"
      using n c(1) True assms(2) unfolding as q(1) by (simp_all add: root_rel_def r_def create_new_entry_def)
    moreover have "good_malloc ?d ?h"
      using assms(3) c(1,2) unfolding good_malloc_def later_def by (auto simp: inj_on_def)
    moreover have "?n \<in> ?N" "new_ptrs ?d ?h \<subseteq> ?N" unfolding new_ptrs_Suc by (auto simp: new_ptrs_def c(2) later_def)
    ultimately show thesis using that [OF q(2)] c(1,3) True by (auto simp: root_span_def)
  qed
  note b = insert_at_builds [OF assms(1) h1(2,4), of port md, unfolded h1(1,3)]
  have q: "q \<noteq> 0" by (rule is_tree_nonzero [OF h1(2)])
  show "root_rel ?d q (Some (fst (bl_insert as (create_new_leaf port md) r))) h'" "fresh = snd (bl_insert as (create_new_leaf port md) r)"
    "bl_fault h' = bl_fault h" using b q h1(8) by (simp_all add: builds_def root_rel_def)
  show "root_span ?d q h' \<subseteq> root_span ?d p h \<union> ?N" 
  proof -
    have "root_span ?d q h' \<subseteq> span ?d q h1 \<union> new_ptrs ?d h1" using b q by (simp add: builds_def root_span_def)
    then show ?thesis using h1(5,7) by blast
  qed
  show "\<forall>x. x \<notin> root_span ?d p h \<union> ?N \<longrightarrow> bl_cells h' x = bl_cells h x"
  proof -
    have "\<forall>x. x \<notin> span ?d q h1 \<union> new_ptrs ?d h1 \<longrightarrow> bl_cells h' x = bl_cells h1 x" using b by (simp add: builds_def)
    then show ?thesis using h1(5-7) by (metis Un_iff subsetD)
  qed
qed

text \<open>Insertion leaves the other variables alone and does not look at them.\<close>

lemma heap_ops_fields [simp]:
  "get_child p a (s\<lparr>m_IPv4 := q\<rparr>) = get_child p a s" "get_child p a (s\<lparr>m_IPv6 := q\<rparr>) = get_child p a s"
  "set_child p a x (s\<lparr>m_IPv4 := q\<rparr>) = (set_child p a x s)\<lparr>m_IPv4 := q\<rparr>" "set_child p a x (s\<lparr>m_IPv6 := q\<rparr>) = (set_child p a x s)\<lparr>m_IPv6 := q\<rparr>"
  "heap_fault (s\<lparr>m_IPv4 := q\<rparr>) = (heap_fault s)\<lparr>m_IPv4 := q\<rparr>" "heap_fault (s\<lparr>m_IPv6 := q\<rparr>) = (heap_fault s)\<lparr>m_IPv6 := q\<rparr>"
  "heap_new c (s\<lparr>m_IPv4 := q\<rparr>) = map_prod id (m_IPv4_update (\<lambda>_. q)) (heap_new c s)"
  "heap_new c (s\<lparr>m_IPv6 := q\<rparr>) = map_prod id (m_IPv6_update (\<lambda>_. q)) (heap_new c s)"
  by (auto simp: get_child_def set_child_def heap_fault_def heap_new_def split: option.split bl_cell.split)

lemma insert_at_roots:
  "insert_at as port md p (s\<lparr>m_IPv4 := q\<rparr>) = map_prod id (m_IPv4_update (\<lambda>_. q)) (insert_at as port md p s)"
  "insert_at as port md p (s\<lparr>m_IPv6 := q\<rparr>) = map_prod id (m_IPv6_update (\<lambda>_. q)) (insert_at as port md p s)"
  by (induction as port md p s rule: insert_at.induct) (auto split: option.split simp: case_prod_unfold Let_def)

lemma heap_ops_only:
  "\<exists>c f m. set_child p a x h = h\<lparr>bl_cells := c, bl_fault := f, bl_malloc := m\<rparr>"
  "\<exists>c f m. heap_fault h = h\<lparr>bl_cells := c, bl_fault := f, bl_malloc := m\<rparr>"
  "\<exists>c f m. snd (heap_new y h) = h\<lparr>bl_cells := c, bl_fault := f, bl_malloc := m\<rparr>"
proof -
  have "h = h\<lparr>bl_cells := bl_cells h, bl_fault := bl_fault h, bl_malloc := bl_malloc h\<rparr>" by simp
  then show "\<exists>c f m. set_child p a x h = h\<lparr>bl_cells := c, bl_fault := f, bl_malloc := m\<rparr>"
    "\<exists>c f m. heap_fault h = h\<lparr>bl_cells := c, bl_fault := f, bl_malloc := m\<rparr>"
    "\<exists>c f m. snd (heap_new y h) = h\<lparr>bl_cells := c, bl_fault := f, bl_malloc := m\<rparr>"
    by (cases h; fastforce simp: set_child_def heap_fault_def heap_new_def split: option.split bl_cell.split)+
qed

lemma insert_at_only: "\<exists>c f m. snd (insert_at as port md p h) = h\<lparr>bl_cells := c, bl_fault := f, bl_malloc := m\<rparr>"
proof (induction as port md p h rule: insert_at.induct)
  case (1 a b as port md p h)
  show ?case
  proof (cases "get_child p a h")
    case None
    then show ?thesis using heap_ops_only(2) [of h] by simp
  next
    case (Some q)
    obtain n h1 where n: "heap_new (Bl_entry (\<lambda>_. 0)) h = (n, h1)" by fastforce
    obtain c f m where "set_child p a n h1 = h\<lparr>bl_cells := c, bl_fault := f, bl_malloc := m\<rparr>"
      using heap_ops_only(1) [of p a n h1] heap_ops_only(3) [of "Bl_entry (\<lambda>_. 0)" h] n by auto
    moreover have "\<exists>c f m. snd (insert_at (b # as) port md n (set_child p a n h1)) = (set_child p a n h1)\<lparr>bl_cells := c, bl_fault := f, bl_malloc := m\<rparr>"
      if "q = 0" using "1.IH"(1) [OF Some that refl] n by simp
    ultimately show ?thesis using Some n "1.IH"(2) [OF Some] by (cases "q = 0") auto
  qed
next
  case (2 a port md p h)
  show ?case
  proof (cases "get_child p a h")
    case None
    then show ?thesis using heap_ops_only(2) [of h] by simp
  next
    case (Some q)
    obtain n h1 where n: "heap_new (Bl_leaf (be_val port) (take 20 md)) h = (n, h1)" by fastforce
    obtain c f m where "set_child p a n h1 = h\<lparr>bl_cells := c, bl_fault := f, bl_malloc := m\<rparr>"
      using heap_ops_only(1) [of p a n h1] heap_ops_only(3) [of "Bl_leaf (be_val port) (take 20 md)" h] n by auto
    then show ?thesis using Some n by (intro exI [of _ c] exI [of _ f] exI [of _ m]) simp
  qed
next
  case (3 port md p h)
  show ?case by (rule exI [of _ "bl_cells h"], rule exI [of _ "bl_fault h"], rule exI [of _ "bl_malloc h"]) simp
qed

lemma insert_root_fields:
  assumes "insert_root as port md p s = (q, fresh, s')"
  shows "m_IPv4 s' = m_IPv4 s" "m_IPv6 s' = m_IPv6 s" "m_enabled s' = m_enabled s" "m_entries_ipv4 s' = m_entries_ipv4 s"
    "m_entries_ipv6 s' = m_entries_ipv6 s" "m_ids s' = m_ids s"
proof -
  define t where "t = (if p = 0 then snd (heap_new (Bl_entry (\<lambda>_. 0)) s) else s)"
  obtain c f m where "s' = t\<lparr>bl_cells := c, bl_fault := f, bl_malloc := m\<rparr>"
    using assms insert_at_only [of as port md q t] by (auto simp: insert_root_def t_def case_prod_unfold Let_def split: if_splits)
  then show "m_IPv4 s' = m_IPv4 s" "m_IPv6 s' = m_IPv6 s" "m_enabled s' = m_enabled s" "m_entries_ipv4 s' = m_entries_ipv4 s"
    "m_entries_ipv6 s' = m_entries_ipv6 s" "m_ids s' = m_ids s" by (simp_all add: t_def heap_new_def)
qed

text \<open>The two families as one: where the root hangs is all that differs.\<close>

lemma heap_blacklist_node_eq:
  assumes "m_enabled s"
  shows "sa_family sa = AF_INET \<Longrightarrow> insert_root (sin_addr sa) (sin_port sa) md (m_IPv4 s) s = (q, fresh, t) \<Longrightarrow>
      heap_blacklist_node sa md s = t\<lparr>m_IPv4 := q, m_entries_ipv4 := m_entries_ipv4 s + (if fresh then 1 else 0)\<rparr>"
    "sa_family sa = AF_INET6 \<Longrightarrow> insert_root (sin6_addr sa) (sin_port sa) md (m_IPv6 s) s = (q, fresh, t) \<Longrightarrow>
      heap_blacklist_node sa md s = t\<lparr>m_IPv6 := q, m_entries_ipv6 := m_entries_ipv6 s + (if fresh then 1 else 0)\<rparr>"
proof -
  assume f: "sa_family sa = AF_INET" and i: "insert_root (sin_addr sa) (sin_port sa) md (m_IPv4 s) s = (q, fresh, t)"
  show "heap_blacklist_node sa md s = t\<lparr>m_IPv4 := q, m_entries_ipv4 := m_entries_ipv4 s + (if fresh then 1 else 0)\<rparr>"
    using i f assms insert_root_fields [OF i]
    by (cases "m_IPv4 s = 0") (auto simp: heap_blacklist_node_def root_ipv4_def insert_root_def case_prod_unfold Let_def insert_at_roots)
next
  assume f: "sa_family sa = AF_INET6" and i: "insert_root (sin6_addr sa) (sin_port sa) md (m_IPv6 s) s = (q, fresh, t)"
  show "heap_blacklist_node sa md s = t\<lparr>m_IPv6 := q, m_entries_ipv6 := m_entries_ipv6 s + (if fresh then 1 else 0)\<rparr>"
    using i f assms insert_root_fields [OF i]
    by (cases "m_IPv6 s = 0") (auto simp: heap_blacklist_node_def root_ipv6_def insert_root_def case_prod_unfold Let_def insert_at_roots AF_INET_def AF_INET6_def)
qed

text \<open>An insertion into one tree leaves the other tree and the list as they were.\<close>

lemma insert_beside:
  fixes h :: "'a bl_heap_scheme"
  assumes "as \<noteq> []" "root_rel (length as) p t h" "good_malloc (Suc (length as)) h" "insert_root as port md p h = (q, fresh, h')"
    and "bl_insert as (create_new_leaf port md) (case t of None \<Rightarrow> create_new_entry | Some t \<Rightarrow> t) = (tr, new)"
    and "root_rel e o' u h" "id_list h l ms C" "root_span (length as) p h \<inter> (root_span e o' h \<union> C) = {}"
  shows "root_rel (length as) q (Some tr) h'" "root_span (length as) q h' \<subseteq> root_span (length as) p h \<union> new_ptrs (Suc (length as)) h"
    "fresh = new" "bl_fault h' = bl_fault h" "root_rel e o' u h'" "root_span e o' h' = root_span e o' h" "id_list h' l ms C"
    "root_span (length as) q h' \<inter> (root_span e o' h \<union> C) = {}"
proof -
  note r = insert_root_rel [OF assms(1-4), unfolded assms(5), simplified]
  show "root_rel (length as) q (Some tr) h'" "fresh = new" "bl_fault h' = bl_fault h"
    "root_span (length as) q h' \<subseteq> root_span (length as) p h \<union> new_ptrs (Suc (length as)) h" using r by simp_all
  have N: "new_ptrs (Suc (length as)) h \<inter> (root_span e o' h \<union> C) = {}"
    using assms(3) root_allocated [OF assms(6)] id_list_allocated [OF assms(7)] by (fastforce simp: good_malloc_def new_ptrs_def)
  have same: "\<forall>x \<in> root_span e o' h \<union> C. bl_cells h' x = bl_cells h x" using r(3) N assms(8) by blast
  then have b: "\<forall>x \<in> root_span e o' h. bl_cells h' x = bl_cells h x" and c: "\<forall>x \<in> C. bl_cells h' x = bl_cells h x" by blast+
  show "root_rel e o' u h'" "root_span e o' h' = root_span e o' h" using root_frame [OF b] assms(6) by simp_all
  show "id_list h' l ms C" by (rule id_list_frame [OF assms(7) c])
  show "root_span (length as) q h' \<inter> (root_span e o' h \<union> C) = {}" using r(2) N assms(8) by blast
qed

lemma holdsD:
  assumes "holds s bl A B C"
  shows "root_rel 4 (m_IPv4 s) (IPv4_blacklist bl) s" "root_rel 16 (m_IPv6 s) (IPv6_blacklist bl) s"
    "id_list s (m_ids s) (idblacklist bl) C" "root_span 4 (m_IPv4 s) s = A" "root_span 16 (m_IPv6 s) s = B" "A \<inter> B = {}" "(A \<union> B) \<inter> C = {}"
    "m_enabled s = bl_enabled bl" "m_entries_ipv4 s = number_of_entries_ipv4 bl" "m_entries_ipv6 s = number_of_entries_ipv6 bl" "\<not> bl_fault s"
  using assms unfolding holds_def by blast+

text \<open>The addresses the functions of the library pass have the full length of their family.\<close>

definition whole_addr :: "mem \<Rightarrow> bool" where
  "whole_addr sa \<longleftrightarrow> (sa_family sa = AF_INET \<longrightarrow> length (sin_addr sa) = 4) \<and> (sa_family sa = AF_INET6 \<longrightarrow> length (sin6_addr sa) = 16)"

lemma holds_blacklist_node:
  assumes "holds s bl A B C" "good_malloc 17 s" "whole_addr sa"
  shows "\<exists>A' B'. A' \<union> B' \<subseteq> A \<union> B \<union> new_ptrs 17 s \<and> holds (heap_blacklist_node sa md s) (blacklist_blacklist_node sa md bl) A' B' C"
proof -
  note h = holdsD [OF assms(1)]
  consider (off) "\<not> m_enabled s \<or> sa_family sa \<noteq> AF_INET \<and> sa_family sa \<noteq> AF_INET6"
    | (v4) "m_enabled s" "sa_family sa = AF_INET" | (v6) "m_enabled s" "sa_family sa = AF_INET6" by blast
  then show ?thesis
  proof cases
    case off
    then have "heap_blacklist_node sa md s = s" "blacklist_blacklist_node sa md bl = bl"
      using h(8) by (auto simp: heap_blacklist_node_def blacklist_blacklist_node_def)
    then show ?thesis using assms(1) by auto
  next
    case v4
    obtain q fresh t where i: "insert_root (sin_addr sa) (sin_port sa) md (m_IPv4 s) s = (q, fresh, t)" using prod_cases3 by blast
    obtain tr new where b: "bl_insert (sin_addr sa) (create_new_leaf (sin_port sa) md)
        (case IPv4_blacklist bl of None \<Rightarrow> create_new_entry | Some t \<Rightarrow> t) = (tr, new)" by fastforce
    have l: "length (sin_addr sa) = 4" using assms(3) v4(2) by (simp add: whole_addr_def)
    have "root_span (length (sin_addr sa)) (m_IPv4 s) s \<inter> (root_span 16 (m_IPv6 s) s \<union> C) = {}" using h(4-7) l by auto
    note r = insert_beside [OF _ _ _ i b h(2,3) this]
    have "sin_addr sa \<noteq> []" "root_rel (length (sin_addr sa)) (m_IPv4 s) (IPv4_blacklist bl) s" "good_malloc (Suc (length (sin_addr sa))) s"
      using l h(1) good_malloc_less [OF assms(2), of 5] by auto
    note r = r [OF this]
    have "root_span 4 q t \<union> B \<subseteq> A \<union> B \<union> new_ptrs 17 s" using r(2) h(4) l new_ptrs_mono [of 5 17 s] by auto
    moreover have "holds (heap_blacklist_node sa md s) (blacklist_blacklist_node sa md bl) (root_span 4 q t) B C"
      using heap_blacklist_node_eq(1) [OF v4 i] r h v4 l b insert_root_fields [OF i]
      by (simp add: holds_def blacklist_blacklist_node_def Int_Un_distrib Int_Un_distrib2)
    ultimately show ?thesis by blast
  next
    case v6
    obtain q fresh t where i: "insert_root (sin6_addr sa) (sin_port sa) md (m_IPv6 s) s = (q, fresh, t)" using prod_cases3 by blast
    obtain tr new where b: "bl_insert (sin6_addr sa) (create_new_leaf (sin_port sa) md)
        (case IPv6_blacklist bl of None \<Rightarrow> create_new_entry | Some t \<Rightarrow> t) = (tr, new)" by fastforce
    have l: "length (sin6_addr sa) = 16" using assms(3) v6(2) by (simp add: whole_addr_def)
    have "root_span (length (sin6_addr sa)) (m_IPv6 s) s \<inter> (root_span 4 (m_IPv4 s) s \<union> C) = {}" using h(4-7) l by auto
    note r = insert_beside [OF _ _ _ i b h(1,3) this]
    have "sin6_addr sa \<noteq> []" "root_rel (length (sin6_addr sa)) (m_IPv6 s) (IPv6_blacklist bl) s" "good_malloc (Suc (length (sin6_addr sa))) s"
      using l h(2) assms(2) by auto
    note r = r [OF this]
    have "A \<union> root_span 16 q t \<subseteq> A \<union> B \<union> new_ptrs 17 s" using r(2) h(5) l by auto
    moreover have "holds (heap_blacklist_node sa md s) (blacklist_blacklist_node sa md bl) A (root_span 16 q t) C"
      using heap_blacklist_node_eq(2) [OF v6 i] r h v6 l b insert_root_fields [OF i]
      by (simp add: holds_def blacklist_blacklist_node_def Int_Un_distrib Int_Un_distrib2 Int_commute AF_INET_def AF_INET6_def)
    ultimately show ?thesis by blast
  qed
qed

lemma holds_blacklisted:
  assumes "holds s bl A B C" "whole_addr sa"
  shows "heap_blacklisted sa s = (blacklist_blacklisted sa bl, s)"
proof (cases "m_enabled s \<and> sa_family sa = AF_INET")
  case True
  note h = holdsD [OF assms(1)]
  have l: "sin_addr sa \<noteq> []" "length (sin_addr sa) = 4" using assms(2) True by (auto simp: whole_addr_def)
  obtain a as where a: "sin_addr sa = a # as" using l(1) by (cases "sin_addr sa") simp_all
  have "find_at (sin_addr sa) (m_IPv4 s) s = (bl_find (sin_addr sa) (IPv4_blacklist bl), s)"
  proof (cases "m_IPv4 s = 0")
    case True
    then show ?thesis using h(1) a by (simp add: root_rel_def)
  next
    case False
    then show ?thesis using find_at_eq [OF l(1), of "m_IPv4 s" s, unfolded l(2)] h(1) by (simp add: root_rel_def)
  qed
  then show ?thesis using True h(8) by (simp add: heap_blacklisted_def blacklist_blacklisted_def)
next
  case False
  then show ?thesis using holdsD(8) [OF assms(1)] by (auto simp: heap_blacklisted_def blacklist_blacklisted_def)
qed

lemma holds_blacklist_id:
  assumes "holds s bl A B C" "good_malloc 1 s"
  shows "holds (heap_blacklist_id x s) (blacklist_blacklist_id x bl) A B (insert (bl_malloc s 0) C)"
proof -
  note h = holdsD [OF assms(1)]
  let ?n = "bl_malloc s 0" and ?t = "snd (heap_new (Bl_id (take 20 x) (m_ids s)) s)"
  have n: "?n \<noteq> 0" "bl_cells s ?n = None" using assms(2) by (simp_all add: good_malloc_def)
  have new: "?n \<notin> A" "?n \<notin> B" "?n \<notin> C"
    using n(2) root_allocated [OF h(1), of ?n] root_allocated [OF h(2), of ?n] id_list_allocated [OF h(3), of ?n] h(4,5) by blast+
  have c: "\<forall>x. x \<noteq> ?n \<longrightarrow> bl_cells ?t x = bl_cells s x" "bl_cells ?t ?n = Some (Bl_id (take 20 x) (m_ids s))"
    by (simp_all add: heap_new_def)
  have "root_span 4 (m_IPv4 s) ?t = A \<and> root_rel 4 (m_IPv4 s) (IPv4_blacklist bl) ?t"
    "root_span 16 (m_IPv6 s) ?t = B \<and> root_rel 16 (m_IPv6 s) (IPv6_blacklist bl) ?t"
    using root_frame [of 4 "m_IPv4 s" s ?t] root_frame [of 16 "m_IPv6 s" s ?t] c(1) new h(1,2,4,5) by metis+
  moreover have "id_list ?t (m_ids s) (idblacklist bl) C" using id_list_frame [OF h(3)] c(1) new(3) by metis
  moreover have "heap_blacklist_id x s = ?t\<lparr>m_ids := ?n\<rparr>" by (simp add: heap_blacklist_id_def heap_new_def)
  moreover have "m_IPv4 ?t = m_IPv4 s" "m_IPv6 ?t = m_IPv6 s" "m_enabled ?t = m_enabled s" "m_entries_ipv4 ?t = m_entries_ipv4 s"
    "m_entries_ipv6 ?t = m_entries_ipv6 s" "bl_fault ?t = bl_fault s" by (simp_all add: heap_new_def)
  ultimately show ?thesis using h n(1) c(2) new by (simp add: holds_def blacklist_blacklist_id_def) blast
qed

text \<open>
  C20: the blacklist on the heap implements the blacklist as a value. From a heap that holds a blacklist, every operation leads to a
  heap that holds what the operation on the value gives, in the same cells and newly allocated ones; the queries
  return (the loops over the identifiers end) with the answer of the value and change nothing; no operation touches memory that is not
  allocated. \<^verbatim>\<open>malloc\<close> is supposed to return new blocks.
\<close>

theorem blacklist_on_heap:
  assumes "holds s bl A B C" "good_malloc 17 s" "whole_addr sa"
  shows "(\<exists>A' B'. A' \<union> B' \<subseteq> A \<union> B \<union> new_ptrs 17 s \<and> holds (heap_blacklist_node sa md s) (blacklist_blacklist_node sa md bl) A' B' C) \<and>
    heap_blacklisted sa s = (blacklist_blacklisted sa bl, s) \<and>
    holds (heap_blacklist_id x s) (blacklist_blacklist_id x bl) A B (insert (bl_malloc s 0) C) \<and>
    heap_id_blacklisted x s = Some (blacklist_id_blacklisted x (idblacklist bl), s)"
proof -
  have "heap_id_blacklisted x s = Some (blacklist_id_blacklisted x (idblacklist bl), s)"
    using find_id_eq [OF holdsD(3) [OF assms(1)]] by (simp add: heap_id_blacklisted_def)
  then show ?thesis
    using holds_blacklist_node [OF assms] holds_blacklisted [OF assms(1,3)] holds_blacklist_id [OF assms(1) good_malloc_less [OF assms(2)]]
    by simp
qed

definition empty_bl_mem :: bl_mem where
  "empty_bl_mem = \<lparr>bl_cells = Map.empty, bl_fault = False, bl_malloc = Suc, m_IPv4 = 0, m_IPv6 = 0, m_enabled = True,
     m_entries_ipv4 = 0, m_entries_ipv6 = 0, m_ids = 0\<rparr>"

lemma holds_empty: "holds empty_bl_mem bl_initial {} {} {}" "good_malloc n empty_bl_mem"
  by (simp_all add: holds_def empty_bl_mem_def bl_initial_def root_rel_def root_span_def good_malloc_def)

lemma whole_mk_sin: "length a = 4 \<Longrightarrow> length p = 2 \<Longrightarrow> whole_addr (mk_sin a p)"
  by (auto simp: whole_addr_def mk_sin_def sa_family_def AF_INET_def AF_INET6_def sin_addr_def slice_def)

lemma blacklist_on_heap_witness:
  "\<exists>A' B'. holds (heap_blacklist_node (mk_sin [10, 0, 0, 1] [0, 7]) zeroes empty_bl_mem)
     (blacklist_blacklist_node (mk_sin [10, 0, 0, 1] [0, 7]) zeroes bl_initial) A' B' {}"
  using blacklist_on_heap [OF holds_empty whole_mk_sin [of "[10, 0, 0, 1]" "[0, 7]"], of zeroes zeroes] by auto

lemma holds_blacklist_free:
  assumes "holds s bl A B C"
  shows "\<exists>t. heap_blacklist_free s = Some t \<and> holds t (blacklist_free bl) {} {} {} \<and>
    (\<forall>x. bl_cells t x = (if x \<in> A \<union> B \<union> C then None else bl_cells s x))"
proof -
  note h = holdsD [OF assms]
  have f: "blacklist_free_tree d p u = drop_cells (root_span d p u) u" if "root_rel d p t u" for d p t and u :: bl_mem
    using that free_tree_exact [of d p u] by (cases "p = 0") (auto simp: root_rel_def root_span_def blacklist_free_tree.simps [of d 0])
  have e: "\<forall>x \<in> X. bl_cells (drop_cells Y s) x = bl_cells s x" if "X \<inter> Y = {}" for X Y using that by (auto simp: drop_cells_def restrict_map_def)
  have "blacklist_free_tree 4 (m_IPv4 s) s = drop_cells A s" using f [OF h(1)] h(4) by simp
  moreover have "blacklist_free_tree 16 (m_IPv6 s) (drop_cells A s) = drop_cells (B \<union> A) s"
  proof -
    have "\<forall>x \<in> root_span 16 (m_IPv6 s) s. bl_cells (drop_cells A s) x = bl_cells s x" using e [of B A] h(5,6) by blast
    from root_frame [OF this] f [of 16 "m_IPv6 s" "IPv6_blacklist bl" "drop_cells A s"] h(2,5) show ?thesis by simp
  qed
  moreover have "free_ids (m_ids s) ((drop_cells (B \<union> A) s)\<lparr>m_IPv4 := 0, m_IPv6 := 0\<rparr>) =
      Some (drop_cells C ((drop_cells (B \<union> A) s)\<lparr>m_IPv4 := 0, m_IPv6 := 0\<rparr>))"
  proof (rule free_ids_eq)
    have "id_list (drop_cells (B \<union> A) s) (m_ids s) (idblacklist bl) C"
      using e [of C "B \<union> A"] h(7) by (intro id_list_frame [OF h(3)]) blast
    then show "id_list ((drop_cells (B \<union> A) s)\<lparr>m_IPv4 := 0, m_IPv6 := 0\<rparr>) (m_ids s) (idblacklist bl) C" by simp
  qed
  ultimately have "heap_blacklist_free s = Some ((drop_cells (C \<union> (B \<union> A)) s)\<lparr>m_IPv4 := 0, m_IPv6 := 0, m_ids := 0\<rparr>)"
    by (simp add: heap_blacklist_free_def heap_id_free_def drop_cells_def Int_commute Un_commute)
  moreover have "holds ((drop_cells (C \<union> (B \<union> A)) s)\<lparr>m_IPv4 := 0, m_IPv6 := 0, m_ids := 0\<rparr>) (blacklist_free bl) {} {} {}"
    using h by (simp add: holds_def root_rel_def root_span_def blacklist_free_def blacklist_id_free_def drop_cells_def)
  ultimately show ?thesis by (auto simp: drop_cells_def restrict_map_def)
qed

text \<open>
  C21: \<^verbatim>\<open>blacklist_free\<close> gives back the memory of the blacklist. On a heap that holds a blacklist it returns, the cells of both tries
  and of the list of identifiers are free afterwards, every other cell is as before, nothing is freed twice, and
  the heap holds the blacklist that \<^verbatim>\<open>blacklist_free\<close> leaves as a value.
\<close>

theorem blacklist_free_exact:
  assumes "holds s bl A B C"
  shows "\<exists>t. heap_blacklist_free s = Some t \<and> holds t (blacklist_free bl) {} {} {} \<and>
    (\<forall>x. bl_cells t x = (if x \<in> A \<union> B \<union> C then None else bl_cells s x))"
  by (rule holds_blacklist_free [OF assms])

lemma blacklist_free_exact_witness:
  "\<exists>A B t. holds (heap_blacklist_node (mk_sin [10, 0, 0, 1] [0, 7]) zeroes empty_bl_mem)
       (blacklist_blacklist_node (mk_sin [10, 0, 0, 1] [0, 7]) zeroes bl_initial) A B {} \<and>
     heap_blacklist_free (heap_blacklist_node (mk_sin [10, 0, 0, 1] [0, 7]) zeroes empty_bl_mem) = Some t \<and> holds t (bl_initial\<lparr>number_of_entries_ipv4 := 1\<rparr>) {} {} {}"
proof -
  let ?sa = "mk_sin [10, 0, 0, 1] [0, 7]"
  obtain A B where h: "holds (heap_blacklist_node ?sa zeroes empty_bl_mem) (blacklist_blacklist_node ?sa zeroes bl_initial) A B {}"
    using holds_blacklist_node [OF holds_empty whole_mk_sin [of "[10, 0, 0, 1]" "[0, 7]"], of zeroes] by auto
  moreover have "blacklist_free (blacklist_blacklist_node ?sa zeroes bl_initial) = bl_initial\<lparr>number_of_entries_ipv4 := 1\<rparr>"
    by (simp add: blacklist_free_def blacklist_id_free_def blacklist_blacklist_node_def bl_initial_def mk_sin_def sa_family_def AF_INET_def
        sin_addr_def slice_def create_new_entry_def case_prod_unfold Let_def)
  ultimately show ?thesis using blacklist_free_exact [OF h] by auto
qed

subsection \<open>A leaf that is lost\<close>

text \<open>
  \<^verbatim>\<open>blacklist_blacklist_node\<close> overwrites the pointer to a leaf without freeing it: when the address is in the tree already,
  the old leaf stays allocated and nothing leads to it any more.
\<close>

lemma insert_at_loses_leaf:
  fixes h :: "'a bl_heap_scheme"
  assumes "as \<noteq> []" "is_tree (length as) p h" "good_malloc (length as) h" "bl_find as (Some (tree_at (length as) p h))"
  shows "\<exists>l \<in> span (length as) p h. l \<notin> span (length as) p (snd (insert_at as port md p h)) \<and>
    bl_cells (snd (insert_at as port md p h)) l = bl_cells h l"
  using assms
proof (induction as port md p h rule: insert_at.induct)
  case (2 a port md p h)
  obtain ch where ch: "bl_cells h p = Some (Bl_entry ch)" using 2(2) by (auto split: option.splits bl_cell.splits)
  have tr: "is_tree (Suc 0) p h" using 2(2) by simp
  note c = is_tree_SucD [OF tr ch]
  let ?n = "bl_malloc h 0" and ?t = "snd (insert_at [a] port md p h)"
  have a: "ch a \<noteq> 0" using 2(4) ch by (simp split: if_splits)
  have n: "bl_cells h ?n = None" using 2(3) by (simp add: good_malloc_def)
  have "bl_cells h (ch a) \<noteq> None" using span_allocated [OF c(2) [OF a]] by simp
  then have na: "ch a \<noteq> ?n" "ch a \<noteq> p" using n c(3) [OF a] by auto
  have np: "p \<noteq> ?n" using n ch by auto
  have t: "bl_cells ?t = (bl_cells h)(?n \<mapsto> Bl_leaf (be_val port) (take 20 md), p \<mapsto> Bl_entry (ch(a := ?n)))"
    using ch np by (simp add: get_child_def heap_new_def set_child_def)
  have "ch a \<noteq> ch b" if "b \<noteq> a" for b
    using c(4) [OF that _ a] a by (cases "ch b = 0") auto
  then have "ch a \<notin> span (Suc 0) p ?t" using t na by (auto split: if_splits)
  moreover have "ch a \<in> span (Suc 0) p h" using ch a by auto
  moreover have "bl_cells ?t (ch a) = bl_cells h (ch a)" using t na by simp
  ultimately show ?case by auto
next
  case (1 a b as port md p h)
  obtain ch where ch: "bl_cells h p = Some (Bl_entry ch)" using 1(4) by (auto split: option.splits bl_cell.splits)
  let ?d = "length (b # as)" and ?t = "snd (insert_at (a # b # as) port md p h)"
  have tr: "is_tree (Suc ?d) p h" "good_malloc (Suc ?d) h" using 1(4,5) by simp_all
  note c = is_tree_SucD [OF tr(1) ch]
  have a: "ch a \<noteq> 0" "bl_find (b # as) (Some (tree_at ?d (ch a) h))" using 1(6) ch by (simp_all split: if_splits)
  have t: "?t = snd (insert_at (b # as) port md (ch a) h)" using ch a(1) by (simp add: get_child_def)
  have g: "good_malloc ?d h" using good_malloc_less [OF tr(2), of ?d] by simp
  have "\<exists>l \<in> span ?d (ch a) h. l \<notin> span ?d (ch a) ?t \<and> bl_cells ?t l = bl_cells h l"
    unfolding t using "1.IH"(2) [of "ch a"] a c(2) [OF a(1)] g ch by (simp add: get_child_def)
  then obtain l where l: "l \<in> span ?d (ch a) h" "l \<notin> span ?d (ch a) ?t" "bl_cells ?t l = bl_cells h l" by blast
  have f: "\<forall>x. x \<notin> span ?d (ch a) h \<union> new_ptrs ?d h \<longrightarrow> bl_cells ?t x = bl_cells h x"
    using insert_at_builds [OF _ c(2) [OF a(1)] g, of port md] unfolding t by (simp add: builds_def)
  have N: "new_ptrs ?d h \<inter> span (Suc ?d) p h = {}" using new_ptrs_unused [OF tr(2,1)] new_ptrs_mono [of ?d "Suc ?d" h] by auto
  have "bl_cells ?t p = Some (Bl_entry ch)" using f c(3) [OF a(1)] N c(5) ch by auto
  moreover have "span (Suc e) p u = insert p (\<Union>b' \<in> {b'. ch b' \<noteq> 0}. span e (ch b') u)"
    if "bl_cells u p = Some (Bl_entry ch)" for e and u :: "'a bl_heap_scheme" using that by simp
  ultimately have sp: "span (Suc ?d) p ?t = insert p (\<Union>b' \<in> {b'. ch b' \<noteq> 0}. span ?d (ch b') ?t)" by blast
  have "l \<notin> span ?d (ch b') ?t" if "ch b' \<noteq> 0" for b'
  proof (cases "b' = a")
    case True
    then show ?thesis using l(2) by simp
  next
    case False
    have d: "span ?d (ch b') h \<inter> span ?d (ch a) h = {}" by (rule c(4) [OF False that a(1)])
    have "span ?d (ch b') h \<subseteq> span (Suc ?d) p h" using c(5) that by auto
    then have "\<forall>x \<in> span ?d (ch b') h. bl_cells ?t x = bl_cells h x" using f N d by blast
    from tree_frame(1) [OF this] show ?thesis using l(1) d by auto
  qed
  moreover have "l \<noteq> p" using l(1) c(3) [OF a(1)] by auto
  ultimately have "l \<notin> span (Suc ?d) p ?t" unfolding sp by blast
  moreover have "l \<in> span (Suc ?d) p h" using l(1) a(1) c(5) by auto
  ultimately show ?case using l(3) by auto
qed simp

text \<open>
  C22: blocking an address again loses memory. If the IPv4 address is on the blacklist already, \<^verbatim>\<open>blacklist_blacklist_node\<close> leaves a
  leaf of the old tree allocated that no longer belongs to the blacklist, so that \<^verbatim>\<open>blacklist_free\<close> does not free it either.
\<close>

theorem blacklisted_twice_leaks:
  assumes "holds s bl A B C" "good_malloc 17 s" "whole_addr sa" "sa_family sa = AF_INET" "blacklist_blacklisted sa bl"
  shows "\<exists>l \<in> A. \<exists>A' B' t. holds (heap_blacklist_node sa md s) (blacklist_blacklist_node sa md bl) A' B' C \<and> l \<notin> A' \<union> B' \<union> C \<and>
    heap_blacklist_free (heap_blacklist_node sa md s) = Some t \<and> bl_cells t l = bl_cells s l \<and> bl_cells t l \<noteq> None"
proof -
  note h = holdsD [OF assms(1)]
  have l: "length (sin_addr sa) = 4" "sin_addr sa \<noteq> []" using assms(3,4) by (auto simp: whole_addr_def)
  have en: "m_enabled s" and f: "bl_find (sin_addr sa) (IPv4_blacklist bl)"
    using assms(4,5) h(8) by (auto simp: blacklist_blacklisted_def split: if_splits)
  have p: "m_IPv4 s \<noteq> 0" using h(1) f l(2) by (cases "sin_addr sa") (auto simp: root_rel_def split: if_splits)
  have tr: "is_tree 4 (m_IPv4 s) s" "bl_find (sin_addr sa) (Some (tree_at 4 (m_IPv4 s) s))" "A = span 4 (m_IPv4 s) s"
    using h(1,4) p f by (auto simp: root_rel_def root_span_def)
  have g: "good_malloc 4 s" using good_malloc_less [OF assms(2), of 4] by simp
  let ?i = "insert_at (sin_addr sa) (sin_port sa) md (m_IPv4 s) s" and ?u = "heap_blacklist_node sa md s"
  obtain x where x: "x \<in> A" "x \<notin> span 4 (m_IPv4 s) (snd ?i)" "bl_cells (snd ?i) x = bl_cells s x"
    using insert_at_loses_leaf [OF l(2), unfolded l(1), OF tr(1) g tr(2), of "sin_port sa" md] tr(3) by blast
  have i: "insert_root (sin_addr sa) (sin_port sa) md (m_IPv4 s) s = (m_IPv4 s, fst ?i, snd ?i)" using p by (simp add: insert_root_def)
  note u = heap_blacklist_node_eq(1) [OF en assms(4) i]
  obtain A' B' where a: "holds ?u (blacklist_blacklist_node sa md bl) A' B' C"
    using holds_blacklist_node [OF assms(1-3)] by blast
  have "A' = span 4 (m_IPv4 s) (snd ?i)" "B' = B"
  proof -
    have "A' = root_span 4 (m_IPv4 s) (snd ?i)" "B' = root_span 16 (m_IPv6 s) (snd ?i)"
      using holdsD(4,5) [OF a] insert_root_fields(2) [OF i] by (simp_all add: u)
    moreover obtain tr' new where "bl_insert (sin_addr sa) (create_new_leaf (sin_port sa) md)
        (case IPv4_blacklist bl of None \<Rightarrow> create_new_entry | Some t \<Rightarrow> t) = (tr', new)" by fastforce
    from insert_beside(6) [OF l(2) _ _ i this h(2,3), unfolded l(1)] h(1,4-7) good_malloc_less [OF assms(2), of 5]
    have "root_span 16 (m_IPv6 s) (snd ?i) = B" by auto
    ultimately show "A' = span 4 (m_IPv4 s) (snd ?i)" "B' = B" using p by (simp_all add: root_span_def)
  qed
  then have n: "x \<notin> A' \<union> B' \<union> C" using x(1,2) h(6,7) by blast
  obtain t where t: "heap_blacklist_free ?u = Some t" "\<forall>y. bl_cells t y = (if y \<in> A' \<union> B' \<union> C then None else bl_cells ?u y)"
    using holds_blacklist_free [OF a] by blast
  have "bl_cells t x = bl_cells s x" using t(2) n x(3) by (simp add: u)
  moreover have "bl_cells s x \<noteq> None" using root_allocated [OF h(1)] h(4) x(1) by blast
  ultimately show ?thesis using x(1) a n t(1)
    by (intro bexI [of _ x] exI [of _ A'] exI [of _ B'] exI [of _ t] conjI) simp_all
qed

text \<open>One blocked address, \<^verbatim>\<open>10.0.0.1\<close>.\<close>

definition one_blocked_mem :: bl_mem where
  "one_blocked_mem = empty_bl_mem\<lparr>bl_cells := [1 \<mapsto> Bl_entry ((\<lambda>_. 0)(10 := 2)), 2 \<mapsto> Bl_entry ((\<lambda>_. 0)(0 := 3)),
     3 \<mapsto> Bl_entry ((\<lambda>_. 0)(0 := 4)), 4 \<mapsto> Bl_entry ((\<lambda>_. 0)(1 := 5)), 5 \<mapsto> Bl_leaf 7 zeroes], bl_malloc := (\<lambda>i. i + 6),
     m_IPv4 := 1, m_entries_ipv4 := 1\<rparr>"

lemma blacklisted_twice_leaks_witness:
  "\<exists>bl l A' B' t. holds (heap_blacklist_node (mk_sin [10, 0, 0, 1] [0, 9]) zeroes one_blocked_mem) bl A' B' {} \<and> l \<notin> A' \<union> B' \<union> {} \<and>
     heap_blacklist_free (heap_blacklist_node (mk_sin [10, 0, 0, 1] [0, 9]) zeroes one_blocked_mem) = Some t \<and> bl_cells t l \<noteq> None"
proof -
  let ?sa = "mk_sin [10, 0, 0, 1] [0, 9]"
  define bl where "bl = bl_initial\<lparr>IPv4_blacklist := Some (tree_at 4 1 one_blocked_mem), number_of_entries_ipv4 := 1\<rparr>"
  have t: "is_tree 4 1 one_blocked_mem" "bl_find [10, 0, 0, 1] (Some (tree_at 4 1 one_blocked_mem))"
    by (simp_all add: one_blocked_mem_def numeral_eq_Suc)
  then have h: "holds one_blocked_mem bl (span 4 1 one_blocked_mem) {} {}"
    by (simp add: holds_def bl_def one_blocked_mem_def root_rel_def root_span_def bl_initial_def empty_bl_mem_def)
  have g: "good_malloc 17 one_blocked_mem" by (auto simp: good_malloc_def one_blocked_mem_def empty_bl_mem_def inj_on_def)
  have f: "sa_family ?sa = AF_INET" "sin_addr ?sa = [10, 0, 0, 1]" by (simp_all add: mk_sin_def sa_family_def AF_INET_def sin_addr_def slice_def)
  then have "blacklist_blacklisted ?sa bl" using t(2) by (simp add: blacklist_blacklisted_def bl_def bl_initial_def)
  from blacklisted_twice_leaks [OF h g _ f(1) this, of zeroes] whole_mk_sin [of "[10, 0, 0, 1]" "[0, 9]"] show ?thesis
    by (simp del: Un_iff Un_empty_right) blast
qed

end
