(* ===== verification/Printing.thy ===== *)
theory Printing
  imports Periodic
begin

text \<open>
  What the program prints: the blacklist, the dump of the tables (compiled with \<^verbatim>\<open>DEBUG\<close>), the lines of the
  evaluation (\<^verbatim>\<open>evaluation.c\<close>, called with \<^verbatim>\<open>EVALUATION\<close>) and the program \<^verbatim>\<open>bootstrap.c\<close>. Each function is the text
  it writes.
\<close>

subsection \<open>Numbers and identifiers\<close>

definition newline :: mem where "newline = [10]"

text \<open>\<^verbatim>\<open>%d\<close> and \<^verbatim>\<open>%ld\<close>; \<^verbatim>\<open>%02x\<close>.\<close>

definition dec_int :: "int \<Rightarrow> mem" where
  "dec_int z = (if z < 0 then ascii ''-'' @ dec (nat (- z)) else dec (nat z))"

definition hex2 :: "byte \<Rightarrow> mem" where
  "hex2 b = [hex_digit (unat b div 16), hex_digit (unat b mod 16)]"

definition print_hex :: "mem \<Rightarrow> nat \<Rightarrow> mem" where
  "print_hex buf buflen = concat (map hex2 (take buflen buf))"

subsection \<open>The blacklist\<close>

text \<open>
  \<^verbatim>\<open>get_ip_str\<close> with a buffer of \<^verbatim>\<open>INET6_ADDRSTRLEN\<close>: the text in the buffer, and whether the function returns the buffer.
\<close>

definition get_ip_str :: "mem \<Rightarrow> bool \<times> mem" where
  "get_ip_str sa =
     (if sa_family sa = AF_INET then (True, ntop4 (sin_addr sa))
      else if sa_family sa = AF_INET6 then (True, ntop6 (sin6_addr sa))
      else (False, ascii ''Unknown AF''))"

definition printf_addr :: "mem \<Rightarrow> mem" where
  "printf_addr sa = snd (get_ip_str sa)"

text \<open>
  \<^verbatim>\<open>printf_bl_entry\<close> with \<open>d\<close> levels to go, \<open>pos\<close> the bytes on the way: the lines in the order of the loop over the 256
  children. \<^verbatim>\<open>maxlevel\<close> is \<open>length pos\<close> at a leaf.
\<close>

definition bl_line :: "mem \<Rightarrow> nat \<Rightarrow> mem" where
  "bl_line pos port =
     (if length pos = 4 then ascii '' '' @ ntop4 pos @ ascii '' : '' @ dec port @ newline
      else if length pos = 16 then ascii ''IPv6 blocked on port: '' @ dec port @ newline
      else [])"

fun bl_entries :: "nat \<Rightarrow> mem \<Rightarrow> bl_tree option \<Rightarrow> (mem \<times> nat) list" where
  "bl_entries d pos None = []"
| "bl_entries 0 pos (Some (Leaf port md)) = [(pos, port)]"
| "bl_entries (Suc d) pos (Some (Entry kids)) =
     concat (map (\<lambda>j. bl_entries d (pos @ [word_of_nat j]) (kids (word_of_nat j))) [0..<256])"
| "bl_entries d pos (Some t) = []"

definition printf_bl_entry :: "nat \<Rightarrow> bl_tree option \<Rightarrow> mem" where
  "printf_bl_entry maxlevel t = concat (map (\<lambda>(pos, port). bl_line pos port) (bl_entries maxlevel [] t))"

definition blacklist_printf :: "blacklist \<Rightarrow> mem" where
  "blacklist_printf bl =
     (if \<not> bl_enabled bl then []
      else ascii ''----------BLACKLIST-IPv4-------'' @ newline @ printf_bl_entry 4 (IPv4_blacklist bl) @
        ascii ''----------BLACKLIST-IPv6-------'' @ newline @ printf_bl_entry 16 (IPv6_blacklist bl) @
        ascii ''-------------------------------'' @ newline)"

subsection \<open>The dump of the tables\<close>

definition dump_node :: "int \<Rightarrow> node \<Rightarrow> mem" where
  "dump_node t n =
     (let ss = n_ss n; fam = sa_family ss;
          buf = (if fam = AF_INET then ntop4 (sin_addr ss) else if fam = AF_INET6 then ntop6 (sin6_addr ss)
                 else ascii ''unknown('' @ dec fam @ ascii '')'');
          port = (if fam = AF_INET \<or> fam = AF_INET6 then be_val (sin_port ss) else 0)
      in ascii ''    Node '' @ print_hex (n_id n) 20 @
         (if fam = AF_INET6 then ascii '' ['' @ buf @ ascii '']:'' @ dec port @ ascii '' ''
          else ascii '' '' @ buf @ ascii '':'' @ dec port @ ascii '' '') @
         (if n_time n \<noteq> n_reply_time n
          then ascii ''age '' @ dec_int (t - n_time n) @ ascii '', '' @ dec_int (t - n_reply_time n)
          else ascii ''age '' @ dec_int (t - n_time n)) @
         (if n_pinged n \<noteq> 0 then ascii '' ('' @ dec_int (n_pinged n) @ ascii '')'' else []) @
         (if node_good t n then ascii '' (good)'' else []) @ newline)"

definition dump_bucket :: "mem \<Rightarrow> int \<Rightarrow> bucket list \<Rightarrow> nat \<Rightarrow> mem" where
  "dump_bucket me t bs i =
     (let b = bs ! i in
      ascii ''Bucket '' @ print_hex (b_first b) 20 @ ascii '' count '' @ dec_int (b_count b) @
      ascii '' age '' @ dec_int (c_int (t - b_time b)) @ (if in_bucket me bs i then ascii '' (mine)'' else []) @
      (if sa_family (b_cached b) \<noteq> 0 then ascii '' (cached)'' else []) @ ascii '':'' @ newline @
      concat (map (dump_node t) (b_nodes b)))"

definition dump_search_node :: "'a dht_scheme \<Rightarrow> mem \<Rightarrow> nat \<Rightarrow> search_node \<Rightarrow> mem" where
  "dump_search_node s x i n =
     ascii ''Node '' @ dec i @ ascii '' id '' @ print_hex (sn_id n) 20 @
     ascii '' bits '' @ (case common_bits x (sn_id n) of None \<Rightarrow> [] | Some k \<Rightarrow> dec k) @ ascii '' age '' @
     (if sn_request_time n \<noteq> 0 then dec_int (c_int (now s - sn_request_time n)) @ ascii '', '' else []) @
     dec_int (c_int (now s - sn_reply_time n)) @
     (if sn_pinged n \<noteq> 0 then ascii '' ('' @ dec_int (sn_pinged n) @ ascii '')'' else []) @
     (if find_node (sn_id n) AF_INET s \<noteq> None then ascii '' (known)'' else []) @
     (if sn_replied n then ascii '' (replied)'' else []) @ ascii ''.'' @ newline"

definition dump_search :: "'a dht_scheme \<Rightarrow> search \<Rightarrow> mem" where
  "dump_search s sr =
     newline @ ascii ''Search'' @ (if sr_af sr = AF_INET6 then ascii '' (IPv6)'' else []) @ ascii '' id '' @
     print_hex (sr_id sr) 20 @ ascii '' age '' @ dec_int (c_int (now s - sr_step_time sr)) @
     (if sr_done sr then ascii '' (done)'' else []) @ newline @
     concat (map (\<lambda>i. dump_search_node s (sr_id sr) i (sr_nodes sr ! i)) [0..<length (sr_nodes sr)])"

definition dump_peer :: "int \<Rightarrow> peer \<Rightarrow> mem" where
  "dump_peer t p =
     ascii '' '' @
     (if length (p_ip p) = 4 then ntop4 (p_ip p)
      else if length (p_ip p) = 16 then ascii ''['' @ ntop6 (p_ip p) @ ascii '']'' else ascii ''???'') @
     ascii '':'' @ dec (p_port p) @ ascii '' ('' @ dec_int (t - p_time p) @ ascii '')''"

definition dump_storage :: "int \<Rightarrow> storage \<Rightarrow> mem" where
  "dump_storage t st =
     newline @ ascii ''Storage '' @ print_hex (st_id st) 20 @ ascii '' '' @ dec (length (st_peers st)) @ ascii ''/'' @
     dec (st_maxpeers st) @ ascii '' nodes:'' @ concat (map (dump_peer t) (st_peers st))"

definition dht_dump_tables :: "'a dht_scheme \<Rightarrow> mem" where
  "dht_dump_tables s =
     ascii ''My id '' @ print_hex (myid s) 20 @ newline @
     concat (map (dump_bucket (myid s) (now s) (buckets s)) [0..<length (buckets s)]) @ newline @
     concat (map (dump_bucket (myid s) (now s) (buckets6 s)) [0..<length (buckets6 s)]) @
     concat (map (dump_search s) (searches s)) @
     concat (map (dump_storage (now s)) (storages s)) @ newline @ newline"

subsection \<open>Evaluation\<close>

text \<open>\<open>asc\<close> is \<^verbatim>\<open>asctime(localtime(...))\<close>.\<close>

definition printf_time :: "(int \<Rightarrow> mem) \<Rightarrow> int \<Rightarrow> mem" where
  "printf_time asc timer = takeWhile (\<lambda>b. b \<noteq> 10) (asc timer) @ ascii '' TIME='' @ dec_int timer"

definition printf_evaluation_start :: "(int \<Rightarrow> mem) \<Rightarrow> int \<Rightarrow> mem" where
  "printf_evaluation_start asc timer = printf_time asc timer @ ascii '' DHT-EVALUATION ''"

definition printf_hash :: "mem \<Rightarrow> mem" where
  "printf_hash buf = concat (map (\<lambda>i. hex2 (rd buf i)) [0..<20])"

definition fflush_evaluation :: mem where
  "fflush_evaluation = newline"

definition printf_sockaddr_storage :: "mem \<Rightarrow> mem" where
  "printf_sockaddr_storage ss =
     (if sa_family ss = AF_INET
      then ascii ''IP='' @ ntop4 (sin_addr ss) @ ascii '' PORT='' @ dec (be_val (sin_port ss))
      else if sa_family ss = AF_INET6
      then ascii ''IP='' @ ntop6 (sin6_addr ss) @ ascii '' PORT='' @ dec (be_val (sin_port ss))
      else [])"

subsection \<open>The program that asks the name service\<close>

text \<open>
  \<^verbatim>\<open>bootstrap.c\<close>: the exit status, standard output and \<^verbatim>\<open>stderr\<close>. The port is printed as it lies in memory, in network
  byte order on a little-endian machine. \<open>garbage\<close> is what the uninitialised \<^verbatim>\<open>ipv4size\<close> held.
\<close>

definition raw_port :: "mem \<Rightarrow> nat" where
  "raw_port sa = unat (rd sa 2) + 256 * unat (rd sa 3)"

definition print_host :: "mem \<Rightarrow> mem" where
  "print_host sa =
     ascii ''host: '' @ (if sa_family sa = AF_INET then ntop4 (sin_addr sa) else ntop6 (sin6_addr sa)) @
     ascii '' : '' @ dec (raw_port sa) @ newline"

definition bootstrap_main :: "int + mem list \<Rightarrow> (int \<Rightarrow> mem) \<Rightarrow> int \<Rightarrow> int \<times> mem \<times> mem" where
  "bootstrap_main result gai_strerror garbage =
     (case result of
        Inl e \<Rightarrow> (1, [], ascii ''getaddrinfo: '' @ gai_strerror e @ newline)
      | Inr sas \<Rightarrow>
          let ipv4size = c_int (garbage + int (length (filter (\<lambda>sa. sa_family sa = AF_INET) sas)));
              ipv6size = int (length (filter (\<lambda>sa. sa_family sa \<noteq> AF_INET) sas))
          in (0, concat (map print_host sas) @
                ascii ''-------------------------------------------------------------'' @ newline @
                ascii ''Number of Results: '' @ dec_int (c_int (ipv4size + ipv6size)) @ ascii '' (IPv4: '' @ dec_int ipv4size @
                ascii '' and IPv6: '' @ dec_int ipv6size @ ascii '')'' @ newline, []))"

subsection \<open>The printed blacklist\<close>

lemma bl_find_step: "bl_find (x # a) (Some (Entry kids)) \<longleftrightarrow> (\<exists>t. kids x = Some t \<and> bl_find a (Some t))"
  by (cases a; cases "kids x") auto

lemma byte_enum: "word_of_nat (unat (b :: byte)) = b" "unat (b :: byte) \<in> {0..<256}"
  "j < 256 \<Longrightarrow> unat (word_of_nat j :: byte) = j"
  using unsigned_less [of b] by (simp_all add: unsigned_of_nat take_bit_nat_eq_self)

lemma bl_entries_exact:
  assumes "case t of None \<Rightarrow> True | Some t \<Rightarrow> bl_wf d t"
  shows "distinct (map fst (bl_entries d pos t))"
    "fst ` set (bl_entries d pos t) = {pos @ a |a. length a = d \<and> t \<noteq> None \<and> bl_find a t}"
proof -
  have "distinct (map fst (bl_entries d pos t)) \<and>
    fst ` set (bl_entries d pos t) = {pos @ a |a. length a = d \<and> t \<noteq> None \<and> bl_find a t}"
    using assms
  proof (induction d arbitrary: pos t)
    case 0
    then show ?case by (cases t; cases "the t") auto
  next
    case (Suc d)
    show ?case
    proof (cases t)
      case (Some u)
      obtain kids where k: "u = Entry kids" "\<And>a v. kids a = Some v \<Longrightarrow> bl_wf d v"
        using Suc.prems Some by (auto elim: bl_wf_SucE)
      define f where "f = (\<lambda>j. bl_entries d (pos @ [word_of_nat j]) (kids (word_of_nat j)))"
      have e: "bl_entries (Suc d) pos t = concat (map f [0..<256])" by (simp only: Some k(1) bl_entries.simps f_def)
      have ih: "distinct (map fst (f j))"
        "fst ` set (f j) = {pos @ [word_of_nat j] @ a |a. length a = d \<and> kids (word_of_nat j) \<noteq> None \<and> bl_find a (kids (word_of_nat j))}" for j
        using Suc.IH [of "kids (word_of_nat j)" "pos @ [word_of_nat j]"] k(2) by (auto simp: f_def split: option.splits)
      have "distinct (map fst (concat (map f js)))" if "distinct js" "set js \<subseteq> {0..<256}" for js
        using that
      proof (induction js)
        case (Cons j js)
        have "fst ` set (f j) \<inter> fst ` set (concat (map f js)) = {}"
        proof (rule ccontr)
          assume "fst ` set (f j) \<inter> fst ` set (concat (map f js)) \<noteq> {}"
          then obtain i where "i \<in> set js" "fst ` set (f j) \<inter> fst ` set (f i) \<noteq> {}" by auto
          then have "unat (word_of_nat i :: byte) = unat (word_of_nat j :: byte)" unfolding ih(2) by auto
          moreover have "i < 256" "j < 256" using Cons.prems(2) \<open>i \<in> set js\<close> by auto
          ultimately have "i = j" by (simp only: byte_enum(3))
          then show False using Cons.prems(1) \<open>i \<in> set js\<close> by simp
        qed
        then show ?case using Cons ih(1) [of j] by simp
      qed simp
      then have "distinct (map fst (bl_entries (Suc d) pos t))" unfolding e by simp
      moreover have "fst ` set (bl_entries (Suc d) pos t) = (\<Union>j \<in> {0..<256}. fst ` set (f j))" by (auto simp: e)
      moreover have "\<dots> = {pos @ a |a. length a = Suc d \<and> t \<noteq> None \<and> bl_find a t}"
      proof
        show "(\<Union>j \<in> {0..<256}. fst ` set (f j)) \<subseteq> {pos @ a |a. length a = Suc d \<and> t \<noteq> None \<and> bl_find a t}"
          unfolding ih(2) by (auto simp: Some k(1) bl_find_step)
        show "{pos @ a |a. length a = Suc d \<and> t \<noteq> None \<and> bl_find a t} \<subseteq> (\<Union>j \<in> {0..<256}. fst ` set (f j))"
        proof
          fix y assume "y \<in> {pos @ a |a. length a = Suc d \<and> t \<noteq> None \<and> bl_find a t}"
          then obtain x a v where "y = pos @ [x] @ a" "length a = d" "kids x = Some v" "bl_find a (Some v)"
            by (auto simp: Some k(1) length_Suc_conv bl_find_step)
          then have "y \<in> fst ` set (f (unat x))" unfolding ih(2) by (simp add: byte_enum(1))
          then show "y \<in> (\<Union>j \<in> {0..<256}. fst ` set (f j))" using byte_enum(2) by blast
        qed
      qed
      ultimately show ?thesis by simp
    qed simp
  qed
  then show "distinct (map fst (bl_entries d pos t))"
    "fst ` set (bl_entries d pos t) = {pos @ a |a. length a = d \<and> t \<noteq> None \<and> bl_find a t}" by simp_all
qed

text \<open>
  The printed blacklist is the blacklist. After any additions to an enabled blacklist, \<^verbatim>\<open>blacklist_printf\<close> writes one line per
  blocked IPv4 address and one per blocked IPv6 address: the addresses of the lines are the blocked ones, none
  comes twice, and there are as many as \<^verbatim>\<open>blacklist_size\<close> reports.
\<close>

theorem blacklist_printf_exact:
  assumes "\<forall>n \<in> set ns. full_sa (fst n)"
    "bl = fold (\<lambda>n. blacklist_blacklist_node (fst n) (snd n)) ns (blacklist_enable True bl_initial)"
  shows "\<exists>ls4 ls6. blacklist_printf bl =
      ascii ''----------BLACKLIST-IPv4-------'' @ newline @ concat (map (\<lambda>(a, p). bl_line a p) ls4) @
      ascii ''----------BLACKLIST-IPv6-------'' @ newline @ concat (map (\<lambda>(a, p). bl_line a p) ls6) @
      ascii ''-------------------------------'' @ newline \<and>
    distinct (map fst ls4) \<and> distinct (map fst ls6) \<and>
    fst ` set ls4 = v4_addrs bl \<and> fst ` set ls6 = v6_addrs bl \<and>
    blacklist_size bl = (length ls4, length ls6, length ls4 + length ls6)"
proof -
  let ?b = "blacklist_enable True bl_initial"
  have b: "bl_counted ?b" "bl_inv ?b" "bl_enabled ?b"
    using bl_counted_initial bl_inv_initial
    by (simp_all add: bl_counted_def bl_inv_def blacklist_enable_def v4_addrs_def v6_addrs_def)
  have c: "bl_counted bl" unfolding assms(2) using b(1,2) assms(1) by (rule bl_counted_fold)
  have i: "bl_inv bl" "bl_enabled bl"
    unfolding assms(2) using assms(1) b(2,3) by (induction ns arbitrary: rule: rev_induct) (simp_all add: blacklist_node_inv)
  define ls4 where "ls4 = bl_entries 4 [] (IPv4_blacklist bl)"
  define ls6 where "ls6 = bl_entries 16 [] (IPv6_blacklist bl)"
  have w: "case IPv4_blacklist bl of None \<Rightarrow> True | Some t \<Rightarrow> bl_wf 4 t"
    "case IPv6_blacklist bl of None \<Rightarrow> True | Some t \<Rightarrow> bl_wf 16 t" using i(1) by (simp_all add: bl_inv_def)
  have n: "bl_find a None \<longleftrightarrow> a = []" for a by (cases a) auto
  have s: "fst ` set ls4 = v4_addrs bl" "fst ` set ls6 = v6_addrs bl"
    unfolding ls4_def ls6_def bl_entries_exact(2) [OF w(1)] bl_entries_exact(2) [OF w(2)]
    using n by (cases "IPv4_blacklist bl"; cases "IPv6_blacklist bl"; auto simp: v4_addrs_def v6_addrs_def)+
  have d: "distinct (map fst ls4)" "distinct (map fst ls6)"
    unfolding ls4_def ls6_def by (rule bl_entries_exact(1) [OF w(1)], rule bl_entries_exact(1) [OF w(2)])
  have "length ls4 = card (v4_addrs bl)" "length ls6 = card (v6_addrs bl)"
    using distinct_card [OF d(1)] distinct_card [OF d(2)] s by simp_all
  then have "blacklist_size bl = (length ls4, length ls6, length ls4 + length ls6)"
    using c by (simp add: bl_counted_def blacklist_size_def)
  then show ?thesis using s d i(2) by (auto simp: blacklist_printf_def printf_bl_entry_def ls4_def ls6_def)
qed

lemma blacklist_printf_exact_witness:
  "\<exists>(ls4 :: (mem \<times> nat) list) (ls6 :: (mem \<times> nat) list). fst ` set ls4 = v4_addrs (blacklist_blacklist_node (mk_sin [10, 0, 0, 1] [0, 7]) [] (blacklist_enable True bl_initial)) \<and>
     blacklist_size (blacklist_blacklist_node (mk_sin [10, 0, 0, 1] [0, 7]) [] (blacklist_enable True bl_initial)) =
       (length ls4, length ls6, length ls4 + length ls6)"
proof -
  define ns where "ns = [(mk_sin [10, 0, 0, 1] [0, 7], [] :: mem)]"
  have "\<forall>n \<in> set ns. full_sa (fst n)" by (simp add: ns_def)
  from blacklist_printf_exact [OF this refl] obtain ls4 ls6 :: "(mem \<times> nat) list" where f:
    "fst ` set ls4 = v4_addrs (fold (\<lambda>n. blacklist_blacklist_node (fst n) (snd n)) ns (blacklist_enable True bl_initial))"
    "blacklist_size (fold (\<lambda>n. blacklist_blacklist_node (fst n) (snd n)) ns (blacklist_enable True bl_initial)) =
      (length ls4, length ls6, length ls4 + length ls6)"
    by blast
  show ?thesis by (rule exI [of _ ls4], rule exI [of _ ls6]) (use f in \<open>simp add: ns_def\<close>)
qed

text \<open>The port in the output of \<^verbatim>\<open>bootstrap.c\<close> has its bytes in the wrong order.\<close>

lemma bootstrap_port_swapped:
  "raw_port (mk_sin a [word_of_nat (p div 256), word_of_nat p]) = p div 256 mod 256 + 256 * (p mod 256)"
  by (simp add: raw_port_def mk_sin_def rd_def unsigned_of_nat take_bit_eq_mod)

end
