(* ===== verification/Spec2Isabelle.thy ===== *)
theory Spec2Isabelle
  imports Tools_Inv Reply_Roundtrip Sha1_Test Result_Memory Blacklist_Memory Printing
begin

text \<open>
  A verification development of dtndht, a distributed hash table that finds the nodes of delay-tolerant networks by their
  endpoint identifiers (\<^verbatim>\<open>src/dtndht\<close>), and of its two command line programs (\<^verbatim>\<open>src/tools/src\<close>).

  \<^bold>\<open>The program.\<close> \<^verbatim>\<open>dht.c\<close> is a Kademlia node: it keeps a routing table of nodes in buckets, searches for identifiers, stores
  the peers that others announce, answers requests, and speaks an extension by which a node is asked for its
  endpoint identifier and its convergence layers. \<^verbatim>\<open>dtndht.c\<close> is the interface on top of it: identifiers become keys by SHA-1
  (\<^verbatim>\<open>sha1.c\<close>), announced and looked-up keys are kept in tables (\<^verbatim>\<open>list.c\<close>) and repeated, the addresses a search finds are
  rated (\<^verbatim>\<open>rating.c\<close>, \<^verbatim>\<open>bloom.c\<close>) and asked, and first nodes come from the name service or a file (\<^verbatim>\<open>bootstrapping.c\<close>).
  \<^verbatim>\<open>blacklist.c\<close> keeps addresses that are never talked to. \<^verbatim>\<open>lookup.c\<close> and \<^verbatim>\<open>announce.c\<close> run the library in a loop around
  \<^verbatim>\<open>select\<close>.

  \<^bold>\<open>Theories and sources.\<close>
  \<^item> \<open>Prelude\<close>, \<open>Interfaces\<close>: bytes, C memory and library routines; the contracts between components as locales (a growing set, a
    bounded list in distance order, a message format, a machine with an invariant) with what follows from them.
  \<^item> \<open>Ids\<close>: identifiers, \<^verbatim>\<open>sockaddr\<close>s, transaction identifiers of \<^verbatim>\<open>dht.c\<close>. \<open>Dht_State\<close>: its static variables as the record
    \<open>dht\<close>, with the primitives that touch the environment.
  \<^item> \<open>Messages\<close>: the functions \<^verbatim>\<open>send_...\<close>, each as the text it writes into a bounded buffer and \<^verbatim>\<open>dht_send\<close>. \<open>Parser\<close>:
    \<^verbatim>\<open>parse_message\<close>, \<^verbatim>\<open>parse_dtn_message\<close> and their helpers; bounds of what they store. \<open>Parser_Roundtrip\<close>,
    \<open>Reply_Roundtrip\<close>: the query and the reply of the extension are read as they were written, except that a layer without
    arguments makes the parser release memory twice.
  \<^item> \<open>Routing\<close>, \<open>Routing_Inv\<close>, \<open>Routing_Split\<close>, \<open>Routing_Steps\<close>: buckets, \<^verbatim>\<open>new_node\<close>, \<^verbatim>\<open>split_bucket\<close>, expiry; the buckets
    always cut the identifier space into aligned intervals; \<^verbatim>\<open>new_node\<close> ends while allocations succeed, and may not when they fail.
  \<^item> \<open>Searches\<close>, \<open>Searches_Inv\<close>: the candidate lists and steps of searches; a list holds the closest of all nodes offered.
    \<open>Storage\<close>: stored peers, tokens, rate limit; storing refines a bounded map. \<open>Replies\<close>: replies with nodes, maintenance.
  \<^item> \<open>Dht_Inv\<close>, \<open>Periodic\<close>, \<open>Periodic_Inv\<close>, \<open>Machine\<close>: the invariant of the whole state, \<^verbatim>\<open>dht_periodic\<close>, \<^verbatim>\<open>dht_init\<close>,
    \<^verbatim>\<open>dht_uninit\<close>, and the calls of \<^verbatim>\<open>dht.h\<close> as the steps of a machine that keeps the invariant.
  \<^item> \<open>Blacklist\<close>, \<open>Blacklist_Memory\<close>: \<^verbatim>\<open>blacklist.c\<close>, as a value and with its pointers on a heap; the second refines the first.
  \<^item> \<open>Sha1\<close>, \<open>Sha1_Correct\<close>, \<open>Sha1_Test\<close>: \<^verbatim>\<open>sha1.c\<close> and \<^verbatim>\<open>dht_hash\<close>; they compute SHA-1 and HMAC of the standards, and the
    self-test tests that. \<open>Bloom\<close>, \<open>Rating\<close>, \<open>Entry_List\<close>: \<^verbatim>\<open>bloom.c\<close>, \<^verbatim>\<open>rating.c\<close>, \<^verbatim>\<open>list.c\<close>.
  \<^item> \<open>Dtndht\<close>, \<open>Bootstrapping\<close>, \<open>Dtndht_Inv\<close>, \<open>Library\<close>: \<^verbatim>\<open>dtndht.c\<close> and \<^verbatim>\<open>bootstrapping.c\<close> over all of the above (the record
    \<open>dtndht\<close> extends \<open>dht\<close>), the machine of the library's interface and its invariant. \<open>Result_Memory\<close>: the
    structures of a result on a heap (\<^verbatim>\<open>utils.c\<close>).
  \<^item> \<open>Tools\<close>, \<open>Tools_Inv\<close>: both command line programs, from \<^verbatim>\<open>getopt\<close> to the exit status. \<open>Printing\<close>: what is printed
    (\<^verbatim>\<open>blacklist_printf\<close>, \<^verbatim>\<open>dht_dump_tables\<close>, \<^verbatim>\<open>evaluation.c\<close>, \<^verbatim>\<open>bootstrap.c\<close>).
  \<^item> This theory: two nodes that exchange a query and a reply, and the reply of a command line program.

  \<^bold>\<open>State and environment.\<close> A function of the source that changes static variables takes the record and returns it changed,
  with its result in front. A linked list is a list and a pointer into it a position, except in the two theories of memory, which have
  an explicit heap. What the environment answers is part of the state or an argument: streams of answers to \<^verbatim>\<open>random\<close>,
  \<^verbatim>\<open>calloc\<close>, \<^verbatim>\<open>sendto\<close> and \<^verbatim>\<open>time\<close>, the contents of memory that is read before it is written, the results of \<^verbatim>\<open>socket\<close>,
  \<^verbatim>\<open>bind\<close>, \<^verbatim>\<open>getaddrinfo\<close>, \<^verbatim>\<open>select\<close> and \<^verbatim>\<open>recvfrom\<close>. Theorems hold for all of them unless they name an assumption. What the
  program does visibly (packets, results handed to the user) is recorded in \<open>trace\<close>; \<^verbatim>\<open>abort\<close>, a double \<^verbatim>\<open>free\<close> and the like
  set \<open>aborted\<close>, which nothing resets. The call-back of \<^verbatim>\<open>dht.c\<close> is a function argument, and the machines quantify over those
  that keep the invariant; \<open>Dtndht_Inv\<close> shows that the one of \<^verbatim>\<open>dtndht.c\<close> does. Signals of the programs arrive in the
  four places of a turn of the loop where they make a difference.

  \<^bold>\<open>Loops.\<close> Loops are recursive functions with a termination proof. \<^verbatim>\<open>new_node\<close> calls itself after every split. While
  \<^verbatim>\<open>calloc\<close> succeeds, 160 calls are enough, since a bucket is split at most that often, and the model allows 200; when \<^verbatim>\<open>calloc\<close> fails
  the source may call itself without end, which the model shows as an abort (both in \<open>Routing_Steps\<close>). The search for the
  lowest bits runs over the 20 bytes and 8 bits there are. The loop of a program runs over the list of its turns, of any length. The functions that
  follow pointers on a heap return None if they do not end, and it is proved that they end on the structures of the program.

  \<^bold>\<open>Integers.\<close> Bytes, transaction numbers and the words of SHA-1 have their width; lengths and
  counters are natural numbers, times are integers, as far as the source keeps them below their limits.

  \<^bold>\<open>Build.\<close> Linux on x86-64, no OpenSSL, with blacklist and ratings, without \<^verbatim>\<open>DEBUG\<close> and \<^verbatim>\<open>EVALUATION\<close> (the texts that these print
  are in \<open>Printing\<close>). A \<^verbatim>\<open>malloc\<close> whose result the source does not test succeeds.

  \<^bold>\<open>Not modelled.\<close> The tests of the repository, which are clients of the library; the calls of the evaluation output inside other
  functions; the build with OpenSSL.
\<close>

subsection \<open>A node asks another one\<close>

text \<open>An address the node exchanges packets with: it is not martian, not blocked, and the node has a socket for it.\<close>

definition talks_to :: "mem \<Rightarrow> nat \<Rightarrow> 'a dht_scheme \<Rightarrow> bool" where
  "talks_to sa salen s \<longleftrightarrow> \<not> is_martian sa \<and> 0 < salen \<and> salen \<le> sizeof_ss \<and> \<not> fst (node_blacklisted sa salen s) \<and>
     (sa_family sa = AF_INET \<and> 0 \<le> dht_socket s \<or> sa_family sa = AF_INET6 \<and> 0 \<le> dht_socket6 s) \<and> \<not> aborted s"

definition socket_for :: "mem \<Rightarrow> 'a dht_scheme \<Rightarrow> int" where
  "socket_for sa s = (if sa_family sa = AF_INET then dht_socket s else dht_socket6 s)"

lemma same_eid_iff: "same_eid eid s \<longleftrightarrow> dtn_my_eid s = eid"
  by (auto simp: same_eid_def memcmp_def bytes_cmp_eq_0)

lemma talks_to_blacklisted: "talks_to sa n s \<Longrightarrow> node_blacklisted sa n s = (False, s)"
  by (auto simp: talks_to_def node_blacklisted_def split: if_splits)

lemma talks_to_send:
  assumes "talks_to sa n s"
  shows "trace (snd (dht_send buf fl sa n s)) = trace s @ [Datagram (socket_for sa s) (take n sa) fl buf]"
    "aborted (snd (dht_send buf fl sa n s)) = aborted s"
  using assms talks_to_blacklisted [OF assms]
  by (auto simp: talks_to_def dht_send_def c_sendto_def visible_def socket_for_def AF_INET_def AF_INET6_def)

lemma talks_to_receive:
  assumes "talks_to sa n s" "rd buf k = 0"
  shows "receive buf k sa n tid0 cls cb s = (False,
    case parse_dtn_message buf k sa tid0 of
      Dtn_double_free \<Rightarrow> c_abort s
    | Dtn_query tid eid \<Rightarrow>
        if dtn_my_eid_changed s \<and> dtn_my_eid s \<noteq> eid
        then snd (send_dtninfo sa n tid (dtn_my_eid s) cls (myneighbours s) (mygroups s) s) else s
    | Dtn_reply tid r \<Rightarrow>
        (case lr_eid r of None \<Rightarrow> s | Some eid \<Rightarrow> if dtn_my_eid s = eid then s else visible (Lookup_result eid r) s)
    | Dtn_none tid \<Rightarrow> dispatch (parse_message buf k tid) sa n cb s)"
  using assms talks_to_blacklisted [OF assms(1)] unfolding receive_def same_eid_iff
  by (simp add: talks_to_def)

lemma talks_to_quiet: "quiet s s' \<Longrightarrow> talks_to sa n s \<Longrightarrow> aborted s' = aborted s \<Longrightarrow> talks_to sa n s'"
  unfolding quiet_def by (elim exE) (auto simp: talks_to_def node_blacklisted_def split: if_splits)

text \<open>What a node must be like for its answer to be readable.\<close>

definition describable :: "convergence_layer list \<Rightarrow> 'a dht_scheme \<Rightarrow> bool" where
  "describable cls s \<longleftrightarrow> dtn_my_eid_changed s \<and> 5 < length (dtn_my_eid s) \<and> cls \<noteq> [] \<and> (\<forall>c \<in> set cls. layer_ok c) \<and>
     (\<forall>e \<in> set (mygroups s @ myneighbours s). e \<noteq> [] \<and> length e < 2 ^ 63) \<and>
     memmem_at (enc_layers cls) (ascii ''e3:eid'') = None \<and> memmem_at (dtn_my_eid s) (ascii ''2:grl'') = None"

text \<open>
  C4: the exchange of two nodes. A node \<open>a\<close> asks at the address of a node \<open>b\<close> that has an identifier and readable layers;
  \<open>b\<close> answers the packet \<open>a\<close> sent with exactly one packet, to \<open>a\<close>; and \<open>a\<close>, receiving that packet,
  hands exactly one result to its user: the identifier, groups, neighbours and layers of \<open>b\<close>, the IP layers with the address
  the answer came from. The buffers and the answers to earlier packets do not matter.
\<close>

theorem dtn_exchange:
  fixes a :: "'a dht_scheme" and b :: "'b dht_scheme"
  assumes ab: "talks_to sb nb a" "talks_to sa na b" "dtn_my_eid a \<noteq> dtn_my_eid b" "dtn_my_eid a \<noteq> []"
    and q: "get_dtninfo_msg (make_tid (ascii ''pn'') 0) (dtn_my_eid a) (my_v a) = Some q" "length q < 1076"
      "memmem_at (dtn_my_eid a) (ascii ''e1:q3:dtn1:t'') = None"
    and d: "describable cls b"
    and m: "dtninfo_msg (make_tid (ascii ''pn'') 0) (dtn_my_eid b) cls (myneighbours b) (mygroups b) = Some m" "length m < 4096"
    and t: "length ta = 16" "length tb = 16"
  defines "a1 \<equiv> snd (dht_ping_dtn_node sb nb a)"
  shows "trace a1 = trace a @ [Datagram (socket_for sb a) (take nb sb) 0 q] \<and>
    trace (snd (receive (q @ 0 # r1) (length q) sa na tb cls cb b)) = trace b @ [Datagram (socket_for sa b) (take na sa) 0 m] \<and>
    trace (snd (receive (m @ 0 # r2) (length m) sb nb ta cls' cb' a1)) = trace a1 @
      [Lookup_result (dtn_my_eid b) \<lparr>lr_eid = Some (dtn_my_eid b), lr_groups = mygroups b, lr_neighbours = myneighbours b,
         lr_clayer = map (with_ip sb) cls\<rparr>]"
proof (intro conjI)
  let ?tid = "make_tid (ascii ''pn'') 0"
  have tid: "?tid \<noteq> []" "length ?tid < length tb" "length ?tid < length ta" "length tb \<le> 16" "length ta \<le> 16"
    using t by (simp_all add: make_tid_def)
  have a1: "a1 = snd (dht_send q 0 sb nb a)"
    using q(1) by (simp add: a1_def dht_ping_dtn_node_def send_get_dtninfo_def send_or_fail_def)
  show "trace a1 = trace a @ [Datagram (socket_for sb a) (take nb sb) 0 q]" unfolding a1 by (rule talks_to_send(1) [OF ab(1)])
  have "parse_dtn_message (q @ 0 # r1) (length q) sa tb = Dtn_query ?tid (dtn_my_eid a)"
    using parse_dtn_query_enc [OF q(1,2) ab(4) tid(1,2,4) q(3)] by (simp add: parse_dtn_message_def rd_append_end)
  then show "trace (snd (receive (q @ 0 # r1) (length q) sa na tb cls cb b)) = trace b @ [Datagram (socket_for sa b) (take na sa) 0 m]"
    using ab(3) d m(1) talks_to_send(1) [OF ab(2)]
    by (auto simp: talks_to_receive [OF ab(2)] rd_append_end describable_def send_dtninfo_def send_or_fail_def)
  have t1: "talks_to sb nb a1" unfolding a1 by (rule talks_to_quiet [OF _ ab(1) talks_to_send(2) [OF ab(1)]]) blast
  have "dtn_my_eid a1 = dtn_my_eid a" unfolding a1 by (rule quiet_fields) blast
  moreover have "take 10 (m @ 0 # r2) \<noteq> ascii ''d1:ad3:eid''" "take 10 (m @ 0 # r2) = ascii ''d1:rd2:cll''"
    using d parse_dtn_reply_enc(2) [OF m _ _ _ _ tid(1,3,5)] by (simp_all add: describable_def ascii_def)
  moreover from this have "parse_dtn_message (m @ 0 # r2) (length m) sb ta = Dtn_reply ?tid \<lparr>lr_eid = Some (dtn_my_eid b),
      lr_groups = mygroups b, lr_neighbours = myneighbours b, lr_clayer = map (with_ip sb) cls\<rparr>"
    using d parse_dtn_reply_enc(1) [OF m _ _ _ _ tid(1,3,5), of r2 sb]
    by (simp add: describable_def parse_dtn_message_def rd_append_end)
  ultimately show "trace (snd (receive (m @ 0 # r2) (length m) sb nb ta cls' cb' a1)) = trace a1 @
      [Lookup_result (dtn_my_eid b) \<lparr>lr_eid = Some (dtn_my_eid b), lr_groups = mygroups b, lr_neighbours = myneighbours b,
         lr_clayer = map (with_ip sb) cls\<rparr>]"
    using t1 ab(3) by (simp add: talks_to_receive rd_append_end visible_def) (simp add: talks_to_def)
qed

text \<open>Two nodes that know nothing but their identifiers, the second with a TCP layer.\<close>

definition asking_node :: "unit dht_scheme" where
  "asking_node = one_bucket_dht\<lparr>dtn_my_eid := ascii ''dtn://a'', dht_socket := 3\<rparr>"

definition answering_node :: "unit dht_scheme" where
  "answering_node = one_bucket_dht\<lparr>dtn_my_eid := ascii ''dtn://b'', dtn_my_eid_changed := True, dht_socket := 4, mygroups := [ascii ''dtn://g'']\<rparr>"

lemma dtn_exchange_witness:
  "\<exists>m. trace (snd (receive (m @ [0]) (length m) (mk_sin [10, 0, 0, 2] [17, 204]) 16 (replicate 16 0) [] None
      (snd (dht_ping_dtn_node (mk_sin [10, 0, 0, 2] [17, 204]) 16 asking_node)))) =
    trace (snd (dht_ping_dtn_node (mk_sin [10, 0, 0, 2] [17, 204]) 16 asking_node)) @ [Lookup_result (ascii ''dtn://b'')
      \<lparr>lr_eid = Some (ascii ''dtn://b''), lr_groups = [ascii ''dtn://g''], lr_neighbours = [],
       lr_clayer = map (with_ip (mk_sin [10, 0, 0, 2] [17, 204])) [tcp_layer]\<rparr>]"
proof -
  let ?sb = "mk_sin [10, 0, 0, 2] [17, 204]" and ?sa = "mk_sin [10, 0, 0, 1] [17, 204]" and ?T = "make_tid (ascii ''pn'') 0"
  let ?q = "ascii ''d1:ad3:eid7:dtn://ae1:q3:dtn1:t4:pn'' @ [0, 0] @ ascii ''1:y1:qe''"
  let ?m = "ascii ''d1:rd2:cll19:name=tcp;port=4556;e3:eid7:dtn://b2:grl7:dtn://ge2:nblee1:t4:pn'' @ [0, 0] @ ascii ''1:y1:re''"
  have bl: "\<not> fst (node_blacklisted ?sb 16 asking_node)" "\<not> fst (node_blacklisted ?sa 16 answering_node)" by code_simp+
  have fam: "sa_family ?sb = AF_INET" "sa_family ?sa = AF_INET" by code_simp+
  have t: "talks_to ?sb 16 asking_node" "talks_to ?sa 16 answering_node"
    using bl fam unfolding talks_to_def by (simp_all add: asking_node_def answering_node_def is_martian_mk_sin sizeof_ss_def)
  have q: "get_dtninfo_msg ?T (dtn_my_eid asking_node) (my_v asking_node) = Some ?q" "length ?q < 1076"
    "memmem_at (dtn_my_eid asking_node) (ascii ''e1:q3:dtn1:t'') = None" by code_simp+
  have m: "dtninfo_msg ?T (dtn_my_eid answering_node) [tcp_layer] (myneighbours answering_node) (mygroups answering_node) = Some ?m"
    "length ?m < 4096" by code_simp+
  have n: "memmem_at (enc_layers [tcp_layer]) (ascii ''e3:eid'') = None" "memmem_at (dtn_my_eid answering_node) (ascii ''2:grl'') = None"
    by code_simp+
  have d: "describable [tcp_layer] answering_node" unfolding describable_def using n
    by (simp add: answering_node_def layer_ok_def tcp_layer_def arg_ok_def layer_len_def args_len_def ascii_def
        one_bucket_dht_def static_dht_def)
  have e: "dtn_my_eid asking_node \<noteq> dtn_my_eid answering_node" "dtn_my_eid asking_node \<noteq> []" by code_simp+
  have "trace (snd (receive (?m @ [0]) (length ?m) ?sb 16 (replicate 16 0) [] None (snd (dht_ping_dtn_node ?sb 16 asking_node)))) =
      trace (snd (dht_ping_dtn_node ?sb 16 asking_node)) @ [Lookup_result (dtn_my_eid answering_node)
      \<lparr>lr_eid = Some (dtn_my_eid answering_node), lr_groups = mygroups answering_node, lr_neighbours = myneighbours answering_node,
       lr_clayer = map (with_ip ?sb) [tcp_layer]\<rparr>]"
    using dtn_exchange [OF t e q d m, of "replicate 16 0" "replicate 16 0" "[]" None "[]" "[]" None] by simp
  moreover have "myneighbours answering_node = []" by (simp add: answering_node_def one_bucket_dht_def static_dht_def)
  ultimately show ?thesis by (intro exI [of _ ?m]) (simp add: answering_node_def)
qed

subsection \<open>What the command line programs answer\<close>

lemma open_node_layers: "open_node y st s = (rc, ctx, u) \<Longrightarrow> cx_clayer ctx = []"
  by (auto simp: open_node_def dtn_dht_initstruct_def configure_def dtn_dht_init_sockets_def case_prod_unfold Let_def
      split: if_splits dtn_dht_bind_type.splits)

text \<open>
  C8: nobody reads what the command line programs say about themselves. Neither of them ever sets a convergence layer,
  so whenever a started program answers a query, with whatever identifier, neighbours and groups, however long it has been running, the parser at the
  other side rejects the answer.
\<close>

theorem tool_answer_unreadable:
  assumes "open_node y st s = (0, ctx, u)" "snd (main_loop p eid rs (enter_loop y st ctx u)) = t"
    and "dtninfo_msg tid e (cx_clayer (t_ctx t)) ns gs = Some m" "length m < 4096"
  shows "parse_dtn_message (m @ 0 # rest) (length m) sa tid0 = Dtn_none tid0"
proof -
  have "cx_clayer (t_ctx t) = []" using ctx_main_loop [of p eid rs] open_node_layers [OF assms(1)] assms(2) by (auto simp: enter_loop_def)
  then show ?thesis using layerless_reply_unreadable assms(3,4) by simp
qed

lemma tool_answer_unreadable_witness:
  "\<exists>ctx u m. open_node system_example default_settings loaded_example = (0, ctx, u) \<and>
     dtninfo_msg [1, 2, 3, 4] (ascii ''dtn://a'') (cx_clayer (t_ctx (snd (main_loop Dhtannounce [] [turn_example]
       (enter_loop system_example default_settings ctx u))))) [] [] = Some m \<and>
     parse_dtn_message (m @ [0]) (length m) [] (replicate 16 0) = Dtn_none (replicate 16 0)"
proof -
  obtain rc ctx u where "open_node system_example default_settings loaded_example = (rc, ctx, u)" using prod_cases3 by blast
  moreover from this have "rc = 0" by (auto simp: open_node_def dtn_dht_initstruct_def configure_def dtn_dht_init_sockets_def
      bind_sockets_def system_example_def default_settings_def case_prod_unfold Let_def)
  ultimately have c: "open_node system_example default_settings loaded_example = (0, ctx, u)" by simp
  let ?t = "snd (main_loop Dhtannounce [] [turn_example] (enter_loop system_example default_settings ctx u))"
  have "cx_clayer (t_ctx ?t) = []" unfolding ctx_main_loop using open_node_layers [OF c] by (simp add: enter_loop_def)
  moreover obtain m where "dtninfo_msg [1, 2, 3, 4] (ascii ''dtn://a'') [] [] [] = Some m" "length m < 4096"
    by (simp add: dtninfo_msg_def put_fmt_def put_mem_def ascii_def dec.simps)
  ultimately have m: "dtninfo_msg [1, 2, 3, 4] (ascii ''dtn://a'') (cx_clayer (t_ctx ?t)) [] [] = Some m" "length m < 4096"
    by simp_all
  from tool_answer_unreadable [OF c refl m, of "[]" "[]" "replicate 16 0"] c m(1) show ?thesis by blast
qed

end
